(* ===== verification/Kernel_Prelude.thy ===== *)
theory Kernel_Prelude
  imports Main "HOL-Library.Word"
begin

text \<open>
  The vocabulary every component shares: the widths of the C integer types on the 32-bit ARM
  target, the negative error codes the kernel returns, the theorem collections the component
  proofs draw on, and the generic facts on list updates, loops over index ranges and machine
  words that no library theory states in the form the C code needs.
\<close>

unbundle bit_operations_syntax

section \<open>C types of the 32-bit target\<close>

type_synonym u8 = "8 word"
type_synonym u32 = "32 word"
type_synonym u64 = "64 word"
type_synonym ulong = "32 word"
type_synonym size_t = "32 word"

text \<open>The error codes that the modelled functions return (negated in the source).\<close>

datatype errno =
    EPERM | ENOENT | EINTR | EAGAIN | ENOMEM | EFAULT | EBUSY | EINVAL | ENOTTY | ERANGE
  | EBADF | EOVERFLOW | ENOSPC | ESRCH | ETIME | ENODEV | EEXIST | EIO | E2BIG | ENOSYS | EDEADLK | ETIMEDOUT
  | ERESTARTSYS

text \<open>A result is an error code on the left or a value on the right.\<close>

type_synonym 'a kresult = "errno + 'a"

named_theorems bit_word_simps \<open>bits of the words that the C bit operations compute\<close>
named_theorems loop_simps \<open>what a counted loop leaves in an array\<close>

section \<open>Counted loops over arrays\<close>

text \<open>\<open>for (k = lo; k < hi; k++) d[k] = g(k)\<close>, where \<open>g\<close> does not read \<open>d\<close>.\<close>

lemma length_fold_upd [simp, loop_simps]:
  "length (fold (\<lambda>k d. d[f k := g k d]) ks d) = length d"
  by (induction ks arbitrary: d) auto

lemma nth_fold_upd [loop_simps]:
  assumes "j < length d"
  shows "fold (\<lambda>k d. d[k := g k]) [lo..<hi] d ! j = (if lo \<le> j \<and> j < hi then g j else d ! j)"
  using assms
proof (induction hi)
  case (Suc hi)
  then show ?case by (cases "j = hi") (auto simp: nth_list_update)
qed simp

text \<open>The same loop where each element is updated from its own old value.\<close>

lemma nth_fold_modify [loop_simps]:
  assumes "j < length d"
  shows "fold (\<lambda>k d. d[k := g k (d ! k)]) [lo..<hi] d ! j
    = (if lo \<le> j \<and> j < hi then g j (d ! j) else d ! j)"
  using assms
proof (induction hi)
  case (Suc hi)
  then show ?case by (cases "j = hi") (auto simp: nth_list_update)
qed simp

lemma nth_fold_modify_off:
  assumes "j < length d"
  shows "fold (\<lambda>k d. d[b + k := g (d ! (b + k))]) [0..<n] d ! j
    = (if b \<le> j \<and> j < b + n then g (d ! j) else d ! j)"
  using assms
proof (induction n)
  case (Suc n)
  then show ?case by (cases "j = b + n") (auto simp: nth_list_update)
qed auto

section \<open>Words\<close>

text \<open>A 32-bit word is zero exactly when none of its 32 bits is set.\<close>

lemma ulong_eq_0_iff: "(w :: ulong) = 0 \<longleftrightarrow> (\<forall>i<32. \<not> bit w i)"
  by (auto intro: bit_word_eqI)

lemma ulong_eq_iff: "(v :: ulong) = w \<longleftrightarrow> (\<forall>i<32. bit v i = bit w i)"
  by (auto intro: bit_word_eqI)

lemma bit_ulong_mask [bit_word_simps]: "bit (mask n :: ulong) i \<longleftrightarrow> i < n \<and> i < 32"
  by (auto simp: bit_mask_iff)

lemma bit_mask_below [bit_word_simps]: "bit (2 ^ n - 1 :: ulong) i \<longleftrightarrow> i < n \<and> i < 32"
  by (simp only: bit_ulong_mask flip: mask_eq_exp_minus_1)

lemma bit_drop_bit_ulong [bit_word_simps]: "bit (drop_bit n w :: ulong) i \<longleftrightarrow> bit w (n + i)"
  by (simp add: bit_drop_bit_eq)

lemma bit_push_bit_ulong [bit_word_simps]:
  "bit (push_bit n w :: ulong) i \<longleftrightarrow> n \<le> i \<and> i < 32 \<and> bit w (i - n)"
  by (auto simp: bit_push_bit_iff)

lemma bit_not_ulong [bit_word_simps]: "bit (NOT w :: ulong) i \<longleftrightarrow> i < 32 \<and> \<not> bit w i"
  by (simp add: bit_not_iff)

lemma bit_ulong_lt: "bit (w :: ulong) i \<Longrightarrow> i < 32"
  using bit_imp_le_length [of w i] by simp

declare bit_and_iff [bit_word_simps] bit_or_iff [bit_word_simps] bit_xor_iff [bit_word_simps]

section \<open>Unsigned 32-bit arithmetic as natural numbers\<close>

lemma unat_ulong_lt: "unat (w :: ulong) < 2 ^ 32"
  using unsigned_less [of w] by simp

lemma unat_of_nat_ulong: "n < 2 ^ 32 \<Longrightarrow> unat (of_nat n :: ulong) = n"
  by (simp add: unat_of_nat)

lemma unat_pow2_ulong: "a < 32 \<Longrightarrow> unat (2 ^ a :: ulong) = 2 ^ a"
proof -
  assume "a < 32"
  then have "(2 :: nat) ^ a < 2 ^ 32" by (rule power_strict_increasing) simp
  from unat_of_nat_ulong [OF this] show ?thesis by simp
qed

lemma unat_mask_ulong: "a < 32 \<Longrightarrow> unat (2 ^ a - 1 :: ulong) = 2 ^ a - 1"
  by (simp add: unat_sub_if' unat_pow2_ulong)

lemma unat_add_ulong: "unat x + unat y < 2 ^ 32 \<Longrightarrow> unat (x + y :: ulong) = unat x + unat y"
  by (simp add: unat_word_ariths)

lemma ulong_pos_iff: "(0 :: ulong) < w \<longleftrightarrow> 0 < unat w"
  by (simp add: word_less_nat_alt)

lemma sum_list_unat:
  assumes "(\<Sum>w\<leftarrow>ws. unat w) < 2 ^ 32"
  shows "unat (sum_list (ws :: ulong list)) = (\<Sum>w\<leftarrow>ws. unat w)"
  using assms
proof (induction ws)
  case (Cons w ws)
  then have "unat (sum_list ws) = (\<Sum>w\<leftarrow>ws. unat w)" by simp
  with Cons.prems show ?case by (simp add: unat_add_ulong)
qed simp

lemma sint_small: "unat (w :: ulong) < 2 ^ 31 \<Longrightarrow> sint w = int (unat w)"
proof -
  assume "unat w < 2 ^ 31"
  then have "int (unat w) < int (2 ^ 31)" by (simp only: of_nat_less_iff)
  moreover have "- (2 ^ 31) \<le> int (unat w)" by (rule order_trans [of _ 0]) simp_all
  ultimately show ?thesis by (simp only: sint_uint uint_nat) (rule signed_take_bit_int_eq_self, simp_all)
qed

lemma sint_nonpos_small: "sint (w :: ulong) \<le> 0 \<Longrightarrow> unat w < 2 ^ 31 \<Longrightarrow> w = 0"
proof -
  assume "sint w \<le> 0" "unat w < 2 ^ 31"
  then have "unat w = 0" using sint_small [of w] by linarith
  then show "w = 0" by (rule unat_eq_zero [THEN iffD1])
qed

section \<open>Invariants of step relations\<close>

text \<open>The contract every concurrent component meets: its initial states satisfy the invariant and every step keeps it.\<close>

locale invariant_system =
  fixes step :: "'s \<Rightarrow> 's \<Rightarrow> bool" and init :: "'s \<Rightarrow> bool" and inv :: "'s \<Rightarrow> bool"
  assumes init_inv: "init s \<Longrightarrow> inv s"
    and step_inv: "step s s' \<Longrightarrow> inv s \<Longrightarrow> inv s'"
begin

lemma steps_inv: "step\<^sup>*\<^sup>* s s' \<Longrightarrow> inv s \<Longrightarrow> inv s'"
  by (induction rule: rtranclp_induct) (blast intro: step_inv)+

lemma reachable_inv: "step\<^sup>*\<^sup>* s s' \<Longrightarrow> init s \<Longrightarrow> inv s'"
  by (rule steps_inv [OF _ init_inv])

end

end
