(* ===== verification/Hweight.thy ===== *)
theory Hweight
  imports Kernel_Prelude
begin

text \<open>
  Hamming weights, \<^verbatim>\<open>lib/hweight.c\<close>: the branch-free bit counts of words; the
  bitmap library calls the 32-bit one through \<^verbatim>\<open>hweight_long\<close>.  The proof follows the algorithm: sums of bits per
  nibble, then per byte, then per word, each step without a carry into its neighbour.
\<close>

definition sw_hweight32 :: "u32 \<Rightarrow> u32" where
  "sw_hweight32 w =
    (let res = w - (drop_bit 1 w AND 0x55555555);
         res = (res AND 0x33333333) + (drop_bit 2 res AND 0x33333333);
         res = (res + drop_bit 4 res) AND 0x0F0F0F0F;
         res = res + drop_bit 8 res
     in (res + drop_bit 16 res) AND 0x000000FF)"

definition sw_hweight16 :: "u32 \<Rightarrow> u32" where
  "sw_hweight16 w =
    (let res = w - (drop_bit 1 w AND 0x5555);
         res = (res AND 0x3333) + (drop_bit 2 res AND 0x3333);
         res = (res + drop_bit 4 res) AND 0x0F0F
     in (res + drop_bit 8 res) AND 0x00FF)"

definition sw_hweight8 :: "u32 \<Rightarrow> u32" where
  "sw_hweight8 w =
    (let res = w - (drop_bit 1 w AND 0x55);
         res = (res AND 0x33) + (drop_bit 2 res AND 0x33)
     in (res + drop_bit 4 res) AND 0x0F)"

definition sw_hweight64 :: "64 word \<Rightarrow> u32" where
  "sw_hweight64 w = sw_hweight32 (ucast (drop_bit 32 w)) + sw_hweight32 (ucast w)"

text \<open>What the routines compute: the number of set bits of a word.\<close>

definition popcount :: "'a::len word \<Rightarrow> nat" where
  "popcount w = card {i. bit w i}"

section \<open>Masking a field of a natural number\<close>

lemma bit_nat_less_exp: "(a::nat) < 2 ^ n \<Longrightarrow> bit a i \<Longrightarrow> i < n"
  by (metis bit_take_bit_iff take_bit_nat_eq_self_iff)

lemma and_split_nat:
  assumes "m < 2 ^ n"
  shows "x AND (m + 2 ^ n * M) = (x AND m) + 2 ^ n * ((x div 2 ^ n) AND (M :: nat))"
proof -
  have split: "a + 2 ^ n * b = a OR push_bit n b" if "a < 2 ^ n" for a b :: nat
  proof -
    have "a + push_bit n b = a OR push_bit n b"
      using bit_nat_less_exp [OF that] by (intro disjunctive_add) (force simp: bit_push_bit_iff)
    then show ?thesis by (simp add: push_bit_eq_mult ac_simps)
  qed
  have lt: "x AND m < 2 ^ n"
    using assms take_bit_nat_eq_self [OF assms] take_bit_and [of n x m]
    by (metis take_bit_nat_eq_self_iff and.assoc take_bit_eq_mask)
  show ?thesis unfolding split [OF assms] split [OF lt]
    using bit_nat_less_exp [OF assms]
    by (auto simp: bit_eq_iff bit_and_iff bit_or_iff bit_push_bit_iff bit_drop_bit_eq simp flip: drop_bit_eq_div)
qed

lemma and_low_nat:
  assumes "a < 2 ^ n" "m < 2 ^ n"
  shows "(a + 2 ^ n * b) AND m = a AND (m :: nat)"
  using and_split_nat [OF assms(1), of m b] assms(2) by (simp add: and.commute)

text \<open>The pairwise and nibblewise sums, over any number of nibbles.\<close>

definition nib :: "nat \<Rightarrow> nat list \<Rightarrow> nat" where
  "nib m xs = horner_sum (\<lambda>_. m) 16 xs"

definition r12 :: "nat list \<Rightarrow> nat \<Rightarrow> nat" where
  "r12 ks x = (let r = x - ((x div 2) AND nib 5 ks) in (r AND nib 3 ks) + ((r div 4) AND nib 3 ks))"

definition pop4 :: "nat \<Rightarrow> nat" where
  "pop4 n = n mod 2 + n div 2 mod 2 + n div 4 mod 2 + n div 8 mod 2"

lemma nibble_cases: "(n::nat) < 16 \<Longrightarrow> n \<in> {15,14,13,12,11,10,9,8,7,6,5,4,3,2,1,0}"
  using lessThan_iff [of n 16] by (simp add: lessThan_nat_numeral)

lemma nibble_pop:
  assumes "n < 16"
  shows "n div 2 AND 5 \<le> n"
    "(n - (n div 2 AND 5) AND 3) + ((n - (n div 2 AND 5)) div 4 AND 3) = pop4 n" "pop4 n \<le> 4"
  using nibble_cases [OF assms] unfolding insert_iff empty_iff by (elim disjE; simp add: pop4_def)+

lemma and_le_nat: "x AND m \<le> (x :: nat)"
  using AND_upper1 [of "int x" "int m"] by (simp flip: of_nat_and_eq)

lemma div_and_le: "x div k AND m \<le> (x :: nat)"
  by (meson and_le_nat div_le_dividend order_trans)

lemma nibble_div:
  assumes "n < (16 :: nat)"
  shows "(n + 16 * x) div 16 = x" "(n + 16 * x) div 2 = n div 2 + 2 ^ 3 * x"
    "(n + 16 * x) div 4 = n div 4 + 2 ^ 2 * x"
    "(n + 16 * x) div 2 div 16 = x div 2" "(n + 16 * x) div 4 div 16 = x div 4"
proof -
  show d: "(n + 16 * x) div 16 = x" using assms by simp
  show "(n + 16 * x) div 2 = n div 2 + 2 ^ 3 * x" "(n + 16 * x) div 4 = n div 4 + 2 ^ 2 * x" by simp_all
  have "y div k div 16 = y div 16 div k" for y k :: nat by (metis div_mult2_eq mult.commute)
  with d show "(n + 16 * x) div 2 div 16 = x div 2" "(n + 16 * x) div 4 div 16 = x div 4" by metis+
qed

lemma and_nib: "m < 16 \<Longrightarrow> y AND nib m (k # ks) = (y AND m) + 16 * (y div 16 AND nib m ks)"
  using and_split_nat [of m 4 y "nib m ks"] by (simp add: nib_def)

lemma r12_nibble:
  assumes n: "n < 16"
  shows "r12 (k # ks) (n + 16 * x) = pop4 n + 16 * r12 ks x"
proof -
  let ?p = "n div 2 AND 5" let ?q = "x div 2 AND nib 5 ks"
  let ?n = "n - ?p" let ?x = "x - ?q"
  have low: "(n + 16 * x) div 2 AND 5 = ?p"
    unfolding nibble_div(2) [OF n] by (rule and_low_nat) (use n in auto)
  have "?p \<le> n" "?q \<le> x" using nibble_pop [OF n] div_and_le by auto
  then have r: "n + 16 * x - ((n + 16 * x) div 2 AND nib 5 (k # ks)) = ?n + 16 * ?x"
    unfolding and_nib [of 5, simplified] low nibble_div(4) [OF n] by (simp add: diff_mult_distrib2)
  have n': "?n < 16" using n by simp
  have low2: "(?n + 16 * ?x) AND 3 = ?n AND 3" using and_low_nat [of ?n 4 3 ?x] n' by simp
  have low3: "(?n + 16 * ?x) div 4 AND 3 = ?n div 4 AND 3"
    unfolding nibble_div(3) [OF n'] by (rule and_low_nat) (use n' in auto)
  have "r12 (k # ks) (n + 16 * x) = (?n AND 3) + (?n div 4 AND 3) + 16 * r12 ks x"
    unfolding r12_def Let_def r and_nib [of 3, simplified] low2 low3 nibble_div(1,5) [OF n', of ?x] by simp
  then show ?thesis using nibble_pop(2) [OF n] by simp
qed

lemma r12_nibbles:
  "\<forall>n\<in>set ns. n < 16 \<Longrightarrow> r12 ns (horner_sum id 16 ns) = horner_sum pop4 16 ns"
  by (induction ns) (auto simp: r12_nibble, simp add: r12_def nib_def)

lemma and_15: "(x :: nat) AND 15 = x mod 16"
  using take_bit_eq_mask [of 4 x] by (simp add: take_bit_eq_mod mask_eq_exp_minus_1)
lemma and_255: "(x :: nat) AND 255 = x mod 256"
  using take_bit_eq_mask [of 8 x] by (simp add: take_bit_eq_mod mask_eq_exp_minus_1)

lemma and_0f_byte:
  assumes "a < 256"
  shows "(a + 256 * b) AND (15 + 256 * M) = a mod 16 + 256 * (b AND (M :: nat))"
  using and_split_nat [of 15 8 "a + 256 * b" M] and_low_nat [of a 8 15 b] assms by (simp add: and_15)

lemma byte_sums:
  fixes c0 c1 c2 c3 c4 c5 c6 c7 :: nat
  assumes c: "c0 \<le> 4" "c1 \<le> 4" "c2 \<le> 4" "c3 \<le> 4" "c4 \<le> 4" "c5 \<le> 4" "c6 \<le> 4" "c7 \<le> 4"
  shows "(let r = horner_sum id 16 [c0, c1, c2, c3, c4, c5, c6, c7] in (r + r div 16) AND 0x0F0F0F0F)
    = (c0 + c1) + 256 * ((c2 + c3) + 256 * ((c4 + c5) + 256 * (c6 + c7)))"
proof -
  let ?r = "horner_sum id 16 [c0, c1, c2, c3, c4, c5, c6, c7]"
  let ?A0 = "(c0 + c1) + 16 * (c1 + c2)" let ?A1 = "(c2 + c3) + 16 * (c3 + c4)"
  let ?A2 = "(c4 + c5) + 16 * (c5 + c6)" let ?A3 = "(c6 + c7) + 16 * c7"
  have "?r div 16 = horner_sum id 16 [c1, c2, c3, c4, c5, c6, c7]"
    using c by simp
  then have "?r + ?r div 16 = ?A0 + 256 * (?A1 + 256 * (?A2 + 256 * ?A3))" by simp
  moreover have "(0x0F0F0F0F :: nat) = 15 + 256 * (15 + 256 * (15 + 256 * 15))" by simp
  moreover have "?A0 < 256" "?A1 < 256" "?A2 < 256" using c by auto
  ultimately have "(?r + ?r div 16) AND 0x0F0F0F0F
    = ?A0 mod 16 + 256 * (?A1 mod 16 + 256 * (?A2 mod 16 + 256 * (?A3 mod 16)))"
    by (simp only: and_0f_byte and_15)
  moreover have m: "(a + 16 * b) mod 16 = a" if "a \<le> 8" for a b :: nat using that by simp
  moreover have "?A0 mod 16 = c0 + c1" "?A1 mod 16 = c2 + c3" "?A2 mod 16 = c4 + c5" "?A3 mod 16 = c6 + c7"
    using c by (intro m; simp)+
  ultimately show ?thesis by (simp only: Let_def)
qed

lemma total_sum:
  fixes s0 s1 s2 s3 :: nat
  assumes "s0 \<le> 8" "s1 \<le> 8" "s2 \<le> 8" "s3 \<le> 8"
  shows "(let r = s0 + 256 * (s1 + 256 * (s2 + 256 * s3)); r = r + r div 256
     in (r + r div 65536) AND 255) = s0 + s1 + s2 + s3"
proof -
  let ?r = "s0 + 256 * (s1 + 256 * (s2 + 256 * s3))"
  have "?r div 256 = s1 + 256 * (s2 + 256 * s3)" using assms by simp
  then have r: "?r + ?r div 256 = (s0 + s1) + 256 * (s1 + s2) + 65536 * ((s2 + s3) + 256 * s3)" by simp
  have "(?r + ?r div 256) div 65536 = (s2 + s3) + 256 * s3" unfolding r using assms by simp
  then have e: "?r + ?r div 256 + (?r + ?r div 256) div 65536
     = (s0 + s1 + s2 + s3) + 256 * (s1 + s2 + s3 + 256 * (s2 + s3 + 256 * s3))"
    unfolding r by simp
  show ?thesis using assms unfolding Let_def and_255 e mod_mult_self2 by simp
qed

lemma swar_sum:
  assumes "\<forall>n\<in>set [n0, n1, n2, n3, n4, n5, n6, n7]. n < 16" and "x = horner_sum id 16 [n0, n1, n2, n3, n4, n5, n6, n7]"
  shows "(let res = x - ((x div 2) AND 0x55555555);
         res = (res AND 0x33333333) + ((res div 4) AND 0x33333333);
         res = (res + res div 16) AND 0x0F0F0F0F;
         res = res + res div 256
     in (res + res div 65536) AND 255) = pop4 n0 + pop4 n1 + pop4 n2 + pop4 n3 + pop4 n4 + pop4 n5 + pop4 n6 + pop4 n7"
proof -
  let ?ns = "[n0, n1, n2, n3, n4, n5, n6, n7]"
  let ?cs = "[pop4 n0, pop4 n1, pop4 n2, pop4 n3, pop4 n4, pop4 n5, pop4 n6, pop4 n7]"
  have "nib 5 ?ns = 0x55555555" "nib 3 ?ns = 0x33333333" by (simp_all add: nib_def)
  then have f1: "(x - ((x div 2) AND 0x55555555) AND 0x33333333) + ((x - ((x div 2) AND 0x55555555)) div 4 AND 0x33333333)
      = horner_sum id 16 ?cs"
    using r12_nibbles [OF assms(1)] by (simp add: r12_def assms(2) Let_def)
  have c: "\<forall>c\<in>set ?cs. c \<le> 4" using nibble_pop(3) assms(1) by simp
  then have b: "(horner_sum id 16 ?cs + horner_sum id 16 ?cs div 16) AND 0x0F0F0F0F = (pop4 n0 + pop4 n1) +
     256 * ((pop4 n2 + pop4 n3) + 256 * ((pop4 n4 + pop4 n5) + 256 * (pop4 n6 + pop4 n7)))"
    by (intro byte_sums [unfolded Let_def]) simp_all
  show ?thesis using c unfolding Let_def f1 b
    by (subst total_sum [unfolded Let_def]) auto
qed

lemma popcount_sum: "popcount (w :: 'a::len word) = (\<Sum>i<LENGTH('a). of_bool (bit w i))"
proof -
  have "{i. bit w i} = {i\<in>{..<LENGTH('a)}. bit w i}" using bit_imp_le_length by auto
  then show ?thesis by (simp add: popcount_def of_bool_def flip: sum.inter_filter)
qed

lemma sum_4: "(\<Sum>i<4. f i) = f 0 + f 1 + f 2 + (f 3 :: nat)" for f :: "nat \<Rightarrow> nat"
  by (simp add: eval_nat_numeral)

lemma pop4_bits: "pop4 (x div 16 ^ k mod 16) = (\<Sum>i<4. of_bool (bit x (4 * k + i)))"
proof -
  have "pop4 n = (\<Sum>i<4. of_bool (bit n i))" for n
    unfolding sum_4 by (simp add: pop4_def bit_iff_odd mod_2_eq_odd)
  moreover have "x div 16 ^ k mod 16 = take_bit 4 (drop_bit (4 * k) x)"
    by (simp add: take_bit_eq_mod drop_bit_eq_div power_mult)
  ultimately show ?thesis unfolding sum_4 by (simp add: bit_take_bit_iff bit_drop_bit_eq)
qed

lemma nibbles_of: "(x :: nat) = horner_sum id 16 (map (\<lambda>k. x div 16 ^ k mod 16) [0..<m]) + 16 ^ m * (x div 16 ^ m)"
proof (induction m arbitrary: x)
  case (Suc m)
  let ?H = "horner_sum id 16 (map (\<lambda>k. x div 16 div 16 ^ k mod 16) [0..<m])"
  have eq: "map (\<lambda>k. x div 16 ^ k mod 16) [0..<Suc m]
      = x mod 16 # map (\<lambda>k. x div 16 div 16 ^ k mod 16) [0..<m]"
    by (simp add: upt_conv_Cons map_Suc_upt [symmetric] div_mult2_eq del: upt_Suc map_Suc_upt)
  have "16 * (x div 16) = 16 * ?H + 16 ^ Suc m * (x div 16 ^ Suc m)"
    using arg_cong [OF Suc [of "x div 16"], of "(*) 16"] by (simp add: div_mult2_eq distrib_left id_def)
  then show ?case using mult_div_mod_eq [of 16 x] unfolding eq by (simp add: id_def)
qed simp

lemma sum_8: "(\<Sum>k<8. f k) = f 0 + f 1 + f 2 + f 3 + f 4 + f 5 + f 6 + (f 7 :: nat)"
  for f :: "nat \<Rightarrow> nat"
  by (simp add: eval_nat_numeral)

lemma sum_32_nibbles: "(\<Sum>i<32. f i) = (\<Sum>k<8. \<Sum>i<4. f (4 * k + i) :: nat)"
  for f :: "nat \<Rightarrow> nat"
  by (simp add: eval_nat_numeral)

lemma and_le_nat2: "m AND x \<le> (x :: nat)"
  using and_le_nat [of x m] by (simp add: and.commute)

lemma add_div_le: "y \<le> b \<Longrightarrow> y + y div k \<le> 2 * (b :: nat)"
  using div_le_dividend [of y k] by linarith

lemma unat_add_lt: "unat a + unat b < 2 ^ 32 \<Longrightarrow> unat (a + b :: u32) = unat a + unat b"
  by (simp add: unat_word_ariths)

lemma unat_drop_bit_div: "unat (drop_bit j a) = unat (a :: u32) div 2 ^ j"
  by (subst unat_drop_bit_eq) (rule drop_bit_eq_div)

lemma unat_and_u32: "unat (a AND b) = unat a AND unat (b :: u32)"
  by (rule unsigned_and_eq)

lemma swar_add:
  assumes "unat (r :: u32) = y" "y \<le> b" "2 * b < 2 ^ 32" "K = 2 ^ k"
  shows "unat (r + drop_bit k r) = y + y div K"
  using assms add_div_le [OF assms(2), of K]
  by (subst unat_add_lt) (simp_all add: unat_drop_bit_div)

lemma sw_hweight32_nat:
  fixes w :: u32
  defines "x \<equiv> unat w"
  shows "unat (sw_hweight32 w) = (let res = x - ((x div 2) AND 0x55555555);
         res = (res AND 0x33333333) + ((res div 4) AND 0x33333333);
         res = (res + res div 16) AND 0x0F0F0F0F;
         res = res + res div 256
     in (res + res div 65536) AND 255)"
proof -
  let ?r1 = "w - (drop_bit 1 w AND 0x55555555)" let ?x1 = "x - ((x div 2) AND 0x55555555)"
  have 1: "unat ?r1 = ?x1"
    using div_and_le [of x 2 "0x55555555"]
    by (subst unat_sub) (simp_all add: word_le_nat_alt unat_and_u32 unat_drop_bit_div x_def)
  let ?r2 = "(?r1 AND 0x33333333) + (drop_bit 2 ?r1 AND 0x33333333)"
  let ?x2 = "(?x1 AND 0x33333333) + ((?x1 div 4) AND 0x33333333)"
  have b2: "?x2 \<le> 0x66666666"
    using and_le_nat2 [of ?x1 "0x33333333"] and_le_nat2 [of "?x1 div 4" "0x33333333"] by linarith
  then have 2: "unat ?r2 = ?x2"
    by (subst unat_add_lt) (simp_all only: unat_and_u32 unat_drop_bit_div 1; simp)+
  let ?r3 = "(?r2 + drop_bit 4 ?r2) AND 0x0F0F0F0F" let ?x3 = "(?x2 + ?x2 div 16) AND 0x0F0F0F0F"
  have 3: "unat ?r3 = ?x3"
    by (subst unat_and_u32, subst swar_add [OF 2 b2, where K = 16]) simp_all
  let ?r4 = "?r3 + drop_bit 8 ?r3" let ?x4 = "?x3 + ?x3 div 256"
  have b3: "?x3 \<le> 0x0F0F0F0F" by (rule and_le_nat2)
  have 4: "unat ?r4 = ?x4" by (rule swar_add [OF 3 b3]) simp_all
  have b4: "?x4 \<le> 0x1E1E1E1E" using add_div_le [OF b3, of 256] by simp
  have "unat ((?r4 + drop_bit 16 ?r4) AND 0xFF) = (?x4 + ?x4 div 65536) AND 255"
    by (subst unat_and_u32, subst swar_add [OF 4 b4, where K = 65536]) simp_all
  then show ?thesis by (simp only: sw_hweight32_def Let_def)
qed

lemma sw_hweight32_correct: "unat (sw_hweight32 w) = popcount w"
proof -
  let ?x = "unat w"
  define n where "n k = ?x div 16 ^ k mod 16" for k
  have "?x < 16 ^ 8" by (rule order.strict_trans2 [OF unsigned_less]) simp
  then have x: "?x = horner_sum id 16 [n 0, n 1, n 2, n 3, n 4, n 5, n 6, n 7]"
    using nibbles_of [of ?x 8] by (simp add: upt_rec n_def)
  have "popcount w = (\<Sum>k<8. pop4 (n k))"
    unfolding popcount_sum n_def pop4_bits by (simp add: sum_32_nibbles bit_unsigned_iff)
  moreover have "\<forall>m\<in>set [n 0, n 1, n 2, n 3, n 4, n 5, n 6, n 7]. m < 16" by (simp add: n_def)
  ultimately show ?thesis unfolding sw_hweight32_nat using swar_sum [OF _ x] sum_8 by simp
qed

section \<open>64-bit words\<close>

lemma popcount_le: "popcount (w :: 'a::len word) \<le> LENGTH('a)"
  unfolding popcount_sum using sum_mono [of "{..<LENGTH('a)}" "\<lambda>i. of_bool (bit w i)" "\<lambda>_. 1::nat"]
  by simp

lemma sum_split_64: "(\<Sum>i<64. f i) = (\<Sum>i<32. f (32 + i)) + (\<Sum>i<32. f i :: nat)"
  for f :: "nat \<Rightarrow> nat"
  using sum.atLeastLessThan_concat [of 0 32 64 f] sum.shift_bounds_nat_ivl [of f 0 32 32]
  by (simp add: lessThan_atLeast0 add.commute)

lemma sw_hweight64_correct: "unat (sw_hweight64 w) = popcount w"
proof -
  have p: "popcount (ucast (drop_bit 32 w) :: u32) + popcount (ucast w :: u32) = popcount w"
    unfolding popcount_sum by (simp add: sum_split_64 bit_ucast_iff bit_drop_bit_eq del: sum_of_bool_eq)
  have "popcount w \<le> 64" using popcount_le [of w] by simp
  then show ?thesis using p unfolding sw_hweight64_def
    by (subst unat_add_lt) (simp_all add: sw_hweight32_correct)
qed

section \<open>The narrow variants\<close>

text \<open>On a word whose upper bits are clear the upper halves of the masks and the last shifts have no effect.\<close>

lemma and_narrow:
  fixes x m :: u32
  assumes "unat x < 2 ^ n"
  shows "x AND m = x AND take_bit n m"
proof -
  have "take_bit n (unat x) = unat x" using assms by (simp add: take_bit_nat_eq_self)
  then have "take_bit n x = x" by (metis unsigned_take_bit_eq word_unat_eq_iff)
  then have "bit x i \<Longrightarrow> i < n" for i by (metis bit_take_bit_iff)
  then show ?thesis by (auto simp: bit_eq_iff bit_simps)
qed

lemma drop_bit_narrow: "unat x < 2 ^ k \<Longrightarrow> drop_bit k (x :: u32) = 0"
  by (intro word_unat_eq_iff [THEN iffD2]) (simp add: unat_drop_bit_div)

lemma unat_drop_bit_le: "unat (drop_bit k x) \<le> unat (x :: u32)"
  unfolding unat_drop_bit_div by (rule div_le_dividend)

lemma unat_first_step: "unat (w - (drop_bit 1 w AND m)) \<le> unat (w :: u32)"
proof -
  have "unat (drop_bit 1 w AND m) \<le> unat w" unfolding unat_and_u32 unat_drop_bit_div by (rule div_and_le)
  then show ?thesis by (subst unat_sub) (simp_all add: word_le_nat_alt)
qed

lemma unat_second_step:
  assumes "unat m \<le> 0x33333333"
  shows "unat ((x AND m) + (drop_bit 2 x AND m)) \<le> 2 * unat (m :: u32)"
  using assms and_le_nat2 [of "unat x" "unat m"] and_le_nat2 [of "unat (drop_bit 2 x)" "unat m"]
  by (subst unat_add_lt) (simp_all add: unat_and_u32 and.commute)

lemma sw_hweight16_eq:
  assumes "unat w < 2 ^ 16"
  shows "sw_hweight16 w = sw_hweight32 w"
proof -
  define r1 where "r1 = w - (drop_bit 1 w AND 0x5555)"
  define r2 where "r2 = (r1 AND 0x3333) + (drop_bit 2 r1 AND 0x3333)"
  define r3 where "r3 = (r2 + drop_bit 4 r2) AND 0x0F0F"
  note d = unat_drop_bit_le
  have 1: "drop_bit 1 w AND 0x55555555 = drop_bit 1 w AND 0x5555"
    using and_narrow [of "drop_bit 1 w" 16 "0x55555555"] d [of 1 w] assms by simp
  have b1: "unat r1 < 2 ^ 16" using unat_first_step [of w "0x5555"] assms by (simp add: r1_def)
  have 2: "r1 AND 0x33333333 = r1 AND 0x3333" "drop_bit 2 r1 AND 0x33333333 = drop_bit 2 r1 AND 0x3333"
    using and_narrow [of r1 16 "0x33333333"] and_narrow [of "drop_bit 2 r1" 16 "0x33333333"] d [of 2 r1] b1 by simp_all
  have b2: "unat r2 \<le> 0x6666" using unat_second_step [of "0x3333" r1] by (simp add: r2_def)
  have s: "unat (r2 + drop_bit 4 r2) = unat r2 + unat r2 div 16" by (rule swar_add [OF refl b2]) simp_all
  have 3: "(r2 + drop_bit 4 r2) AND 0x0F0F0F0F = r3"
    using and_narrow [of "r2 + drop_bit 4 r2" 16 "0x0F0F0F0F"] s b2 by (simp add: r3_def)
  have b3: "unat r3 \<le> 0x0F0F" unfolding r3_def unat_and_u32 by (simp add: and_le_nat2)
  have "unat (r3 + drop_bit 8 r3) = unat r3 + unat r3 div 256" by (rule swar_add [OF refl b3]) simp_all
  then have "unat (r3 + drop_bit 8 r3) < 2 ^ 16" using add_div_le [OF b3, of 256] by simp
  then have 4: "drop_bit 16 (r3 + drop_bit 8 r3) = 0" by (rule drop_bit_narrow)
  have "sw_hweight32 w = (r3 + drop_bit 8 r3 + drop_bit 16 (r3 + drop_bit 8 r3)) AND 0xFF"
    unfolding sw_hweight32_def Let_def 1 r1_def [symmetric] 2 r2_def [symmetric] 3 ..
  then show ?thesis unfolding 4 sw_hweight16_def Let_def r1_def [symmetric] r2_def [symmetric] r3_def [symmetric] by simp
qed

lemma sw_hweight8_eq:
  assumes "unat w < 2 ^ 8"
  shows "sw_hweight8 w = sw_hweight32 w"
proof -
  define r1 where "r1 = w - (drop_bit 1 w AND 0x55)"
  define r2 where "r2 = (r1 AND 0x33) + (drop_bit 2 r1 AND 0x33)"
  define r3 where "r3 = (r2 + drop_bit 4 r2) AND 0x0F"
  note d = unat_drop_bit_le
  have 1: "drop_bit 1 w AND 0x55555555 = drop_bit 1 w AND 0x55"
    using and_narrow [of "drop_bit 1 w" 8 "0x55555555"] d [of 1 w] assms by simp
  have b1: "unat r1 < 2 ^ 8" using unat_first_step [of w "0x55"] assms by (simp add: r1_def)
  have 2: "r1 AND 0x33333333 = r1 AND 0x33" "drop_bit 2 r1 AND 0x33333333 = drop_bit 2 r1 AND 0x33"
    using and_narrow [of r1 8 "0x33333333"] and_narrow [of "drop_bit 2 r1" 8 "0x33333333"] d [of 2 r1] b1 by simp_all
  have b2: "unat r2 \<le> 0x66" using unat_second_step [of "0x33" r1] by (simp add: r2_def)
  have s: "unat (r2 + drop_bit 4 r2) = unat r2 + unat r2 div 16" by (rule swar_add [OF refl b2]) simp_all
  have 3: "(r2 + drop_bit 4 r2) AND 0x0F0F0F0F = r3"
    using and_narrow [of "r2 + drop_bit 4 r2" 8 "0x0F0F0F0F"] s b2 by (simp add: r3_def)
  have b3: "unat r3 < 2 ^ 8" using and_le_nat2 [of "unat (r2 + drop_bit 4 r2)" 15] unfolding r3_def unat_and_u32 by simp
  then have 4: "drop_bit 8 r3 = 0" "drop_bit 16 r3 = 0" "r3 AND 0xFF = r3"
    using drop_bit_narrow [of r3 8] drop_bit_narrow [of r3 16] by (simp_all add: r3_def and.assoc)
  have "sw_hweight32 w = (r3 + drop_bit 8 r3 + drop_bit 16 (r3 + drop_bit 8 r3)) AND 0xFF"
    unfolding sw_hweight32_def Let_def 1 r1_def [symmetric] 2 r2_def [symmetric] 3 ..
  also have "\<dots> = r3" unfolding 4(1) by (simp add: 4)
  finally show ?thesis unfolding sw_hweight8_def Let_def r1_def [symmetric] r2_def [symmetric] r3_def [symmetric] by simp
qed

section \<open>Properties\<close>

text \<open>The software population counts of \<^verbatim>\<open>lib/hweight.c\<close> return the number of set bits, for
  every 32-bit and every 64-bit value, and the narrow variants for every value of their width.\<close>

theorem hweight_counts_bits:
  "unat (sw_hweight32 w) = card {i. bit w i} \<and> unat (sw_hweight64 v) = card {i. bit v i}
    \<and> (unat w < 2 ^ 16 \<longrightarrow> unat (sw_hweight16 w) = card {i. bit w i})
    \<and> (unat w < 2 ^ 8 \<longrightarrow> unat (sw_hweight8 w) = card {i. bit w i})"
  using sw_hweight32_correct [of w] sw_hweight64_correct [of v] by (simp add: popcount_def sw_hweight16_eq sw_hweight8_eq)

end
