(* ===== verification/Bitops.thy ===== *)
theory Bitops
  imports Hweight
begin

text \<open>
  The bit primitives under \<^verbatim>\<open>lib/\<close> and \<^verbatim>\<open>include/asm-generic/bitops/\<close>: first and last set bit of a word (\<^verbatim>\<open>__ffs.h\<close>, \<^verbatim>\<open>ffz.h\<close>, \<^verbatim>\<open>__fls.h\<close>,
  \<^verbatim>\<open>fls.h\<close>), single-bit reads and writes of a bitmap (\<^verbatim>\<open>non-atomic.h\<close>) and the searches for the
  next, first and last bit (\<^verbatim>\<open>lib/find_next_bit.c\<close>, \<^verbatim>\<open>lib/find_last_bit.c\<close>).
  A bitmap is the list of the 32-bit words it occupies; indices and sizes are natural numbers.
  A read outside the list is undefined behaviour of the C code, so every lemma that reads a
  bitmap assumes that the words it may touch are there.
\<close>

section \<open>First and last set bit of a word\<close>

definition ffs_step :: "nat \<Rightarrow> nat \<times> ulong \<Rightarrow> nat \<times> ulong" where
  "ffs_step k s = (case s of (num, word) \<Rightarrow>
     if word AND (push_bit k 1 - 1) = 0 then (num + k, drop_bit k word) else (num, word))"

definition ffs0 :: "ulong \<Rightarrow> nat" where
  "ffs0 word =
    (let (num, word) = ffs_step 16 (0, word);
         (num, word) = ffs_step 8 (num, word);
         (num, word) = ffs_step 4 (num, word);
         (num, word) = ffs_step 2 (num, word)
     in if word AND 1 = 0 then num + 1 else num)"

definition ffz :: "ulong \<Rightarrow> nat" where
  "ffz x = ffs0 (NOT x)"

definition fls_step :: "nat \<Rightarrow> nat \<times> ulong \<Rightarrow> nat \<times> ulong" where
  "fls_step k s = (case s of (num, word) \<Rightarrow>
     if word AND push_bit (32 - k) (NOT 0) = 0 then (num - k, push_bit k word) else (num, word))"

definition fls0 :: "ulong \<Rightarrow> nat" where
  "fls0 word =
    (let (num, word) = fls_step 16 (31, word);
         (num, word) = fls_step 8 (num, word);
         (num, word) = fls_step 4 (num, word);
         (num, word) = fls_step 2 (num, word)
     in if word AND push_bit 31 (NOT 0) = 0 then num - 1 else num)"

definition fls :: "u32 \<Rightarrow> nat" where
  "fls x =
    (if x = 0 then 0 else
     let (r, x) = fls_step 16 (32, x);
         (r, x) = fls_step 8 (r, x);
         (r, x) = fls_step 4 (r, x);
         (r, x) = fls_step 2 (r, x);
         (r, x) = fls_step 1 (r, x)
     in r)"

subsection \<open>Correctness of the searches in a word\<close>

definition ffs_inv :: "ulong \<Rightarrow> nat \<Rightarrow> nat \<times> ulong \<Rightarrow> bool" where
  "ffs_inv w k s \<longleftrightarrow> (\<exists>i<k. bit (snd s) i) \<and> snd s = drop_bit (fst s) w \<and> (\<forall>j<fst s. \<not> bit w j)"

lemma and_below_eq_0_iff:
  "(v :: ulong) AND (2 ^ k - 1) = 0 \<longleftrightarrow> (\<forall>i<k. \<not> bit v i)"
  by (auto simp: ulong_eq_0_iff bit_word_simps dest: bit_ulong_lt)

lemma and_above_eq_0_iff:
  "(v :: ulong) AND NOT (mask k) = 0 \<longleftrightarrow> (\<forall>i\<in>{k..<32}. \<not> bit v i)"
  by (auto simp: ulong_eq_0_iff bit_word_simps)

lemma ffs_step_inv:
  assumes "ffs_inv w (k + k) s" "k < 32"
  shows "ffs_inv w k (ffs_step k s)"
proof (cases s)
  case (Pair num v)
  show ?thesis
  proof (cases "\<forall>i<k. \<not> bit v i")
    case True
    from assms Pair obtain i where i: "i < k + k" "bit v i" "v = drop_bit num w" "\<forall>j<num. \<not> bit w j"
      by (auto simp: ffs_inv_def)
    with True have "k \<le> i" by (meson not_le)
    moreover have "\<not> bit w j" if "j < num + k" for j
    proof (cases "j < num")
      case False
      then have "\<not> bit v (j - num)" using True that by simp
      with False i(3) show ?thesis by (simp add: bit_word_simps)
    qed (use i in simp)
    ultimately show ?thesis using True assms(2) Pair i
      by (auto simp: ffs_inv_def ffs_step_def and_below_eq_0_iff bit_drop_bit_eq drop_bit_drop_bit add.commute
          intro!: exI [of _ "i - k"])
  next
    case False
    with assms Pair show ?thesis by (auto simp: ffs_inv_def ffs_step_def and_below_eq_0_iff)
  qed
qed

lemma ffs0_correct:
  assumes "w \<noteq> 0"
  shows "bit w (ffs0 w) \<and> (\<forall>j<ffs0 w. \<not> bit w j) \<and> ffs0 w < 32"
proof -
  have "ffs_inv w (16 + 16) (0, w)" using assms by (auto simp: ffs_inv_def ulong_eq_0_iff)
  then have "ffs_inv w (8 + 8) (ffs_step 16 (0, w))" using ffs_step_inv [of w 16] by simp
  then have "ffs_inv w (4 + 4) (ffs_step 8 (ffs_step 16 (0, w)))" using ffs_step_inv [of w 8] by simp
  then have "ffs_inv w (2 + 2) (ffs_step 4 (ffs_step 8 (ffs_step 16 (0, w))))"
    using ffs_step_inv [of w 4] by simp
  then have "ffs_inv w 2 (ffs_step 2 (ffs_step 4 (ffs_step 8 (ffs_step 16 (0, w)))))"
    using ffs_step_inv [of w 2] by simp
  moreover obtain num v where nv: "ffs_step 2 (ffs_step 4 (ffs_step 8 (ffs_step 16 (0, w)))) = (num, v)"
    by fastforce
  ultimately obtain i where i: "i < 2" "bit v i" "v = drop_bit num w" "\<forall>j<num. \<not> bit w j"
    by (auto simp: ffs_inv_def)
  have eq: "ffs0 w = (if bit v 0 then num else num + 1)"
    using nv by (auto simp: ffs0_def Let_def and_one_eq odd_iff_mod_2_eq_one bit_0 split: prod.splits)
  from i have "i = 0 \<or> i = 1" by auto
  then have "bit w (ffs0 w)" using i eq by (auto simp: bit_drop_bit_eq)
  moreover have "\<forall>j<ffs0 w. \<not> bit w j" using i eq
    by (auto simp: bit_drop_bit_eq less_Suc_eq split: if_splits)
  ultimately show ?thesis using bit_imp_le_length [of w "ffs0 w"] by auto
qed

definition fls_inv :: "ulong \<Rightarrow> nat \<Rightarrow> nat \<Rightarrow> nat \<times> ulong \<Rightarrow> bool" where
  "fls_inv w c k s \<longleftrightarrow> fst s \<le> c \<and> c - fst s + k \<le> 32 \<and> (\<exists>i\<in>{32 - k..<32}. bit (snd s) i)
     \<and> snd s = push_bit (c - fst s) w \<and> (\<forall>j. 32 \<le> j + (c - fst s) \<longrightarrow> \<not> bit w j)"

lemma fls_step_inv:
  assumes "fls_inv w c (k + k) s" "31 \<le> c"
  shows "fls_inv w c k (fls_step k s)"
proof (cases s)
  case (Pair num v)
  define d where "d = c - num"
  from assms Pair obtain i where i: "i \<in> {32 - (k + k)..<32}" "bit v i" "v = push_bit d w"
     "\<forall>j. 32 \<le> j + d \<longrightarrow> \<not> bit w j" "num \<le> c" "d + (k + k) \<le> 32"
    by (auto simp: fls_inv_def d_def)
  show ?thesis
  proof (cases "\<forall>i\<in>{32 - k..<32}. \<not> bit v i")
    case True
    with i have "i < 32 - k" by (metis atLeastLessThan_iff not_le)
    have k: "k \<le> num" using i assms(2) d_def by linarith
    have cd: "c - (num - k) = d + k" using k i d_def by linarith
    have "\<not> bit w j" if "32 \<le> j + (d + k)" for j
    proof (cases "32 \<le> j + d")
      case False
      then have "\<not> bit v (j + d)" using that True by auto
      with False i(3) show ?thesis by (simp add: bit_word_simps)
    qed (use i in simp)
    moreover have "bit (push_bit k v) (i + k)" using \<open>i < 32 - k\<close> i
      by (auto simp: bit_push_bit_iff)
    ultimately show ?thesis using True i cd \<open>i < 32 - k\<close> Pair
      by (auto simp: fls_inv_def fls_step_def and_above_eq_0_iff push_bit_push_bit add.commute
          intro!: bexI [of _ "i + k"])
  next
    case False
    with i Pair d_def show ?thesis by (auto simp: fls_inv_def fls_step_def and_above_eq_0_iff)
  qed
qed

lemma fls_inv_start: "w \<noteq> 0 \<Longrightarrow> fls_inv w c 32 (c, w)"
  by (auto simp: fls_inv_def ulong_eq_0_iff intro: bit_imp_le_length dest: bit_imp_le_length)

lemma fls_inv_4:
  assumes "w \<noteq> 0" "31 \<le> c"
  shows "fls_inv w c 2 (fls_step 2 (fls_step 4 (fls_step 8 (fls_step 16 (c, w)))))"
proof -
  note st = fls_step_inv [OF _ assms(2)]
  from fls_inv_start [OF assms(1), of c] have "fls_inv w c 16 (fls_step 16 (c, w))"
    using st [of w 16] by simp
  then have "fls_inv w c 8 (fls_step 8 (fls_step 16 (c, w)))" using st [of w 8] by simp
  then have "fls_inv w c 4 (fls_step 4 (fls_step 8 (fls_step 16 (c, w))))" using st [of w 4] by simp
  then show ?thesis using st [of w 2] by simp
qed

lemma fls_inv_1:
  assumes "fls_inv w c 1 s"
  shows "bit w (31 - (c - fst s)) \<and> (\<forall>j>31 - (c - fst s). \<not> bit w j) \<and> c - fst s < 32 \<and> fst s \<le> c"
proof -
  have "{32 - 1..<32::nat} = {31}" by auto
  with assms show ?thesis by (auto simp: fls_inv_def bit_word_simps)
qed

lemma fls0_correct:
  assumes "w \<noteq> 0"
  shows "bit w (fls0 w) \<and> (\<forall>j>fls0 w. \<not> bit w j) \<and> fls0 w < 32"
proof -
  let ?s = "fls_step 2 (fls_step 4 (fls_step 8 (fls_step 16 (31, w))))"
  have "fls_inv w 31 1 (fls_step 1 ?s)"
    using fls_step_inv [of w 31 1 ?s] fls_inv_4 [OF assms, of 31] by (simp add: numeral_2_eq_2)
  moreover have "fls0 w = fst (fls_step 1 ?s)"
    by (simp add: fls0_def fls_step_def [of "Suc 0"] Let_def case_prod_beta)
  ultimately show ?thesis using fls_inv_1 [of w 31 "fls_step 1 ?s"] by auto
qed

lemma last_bit_unique:
  assumes "bit w m" "\<forall>j>m. \<not> bit w j" "bit w n" "\<forall>j>n. \<not> bit w j"
  shows "m = (n :: nat)"
  using assms by (meson linorder_neqE_nat)

lemma fls_correct: "fls w = (if w = 0 then 0 else fls0 w + 1)"
proof (cases "w = 0")
  case False
  let ?s = "fls_step 2 (fls_step 4 (fls_step 8 (fls_step 16 (32, w))))"
  have inv: "fls_inv w 32 1 (fls_step 1 ?s)"
    using fls_step_inv [of w 32 1 ?s] fls_inv_4 [OF False, of 32] by (simp add: numeral_2_eq_2)
  have "fst (fls_step 1 ?s) = fls w"
    using False by (simp add: fls_def Let_def case_prod_beta)
  from fls_inv_1 [OF inv, simplified this] have f: "bit w (31 - (32 - fls w))" "\<forall>j>31 - (32 - fls w). \<not> bit w j"
      "32 - fls w < 32" "fls w \<le> 32"
    by blast+
  have "31 - (32 - fls w) = fls0 w"
    using last_bit_unique [OF f(1,2)] fls0_correct [OF False] by blast
  then show ?thesis using f False by simp
qed (simp add: fls_def)

section \<open>Single bits of a bitmap\<close>

abbreviation BITS_PER_LONG :: nat where
  "BITS_PER_LONG \<equiv> 32"

definition BIT_WORD :: "nat \<Rightarrow> nat" where
  "BIT_WORD nr = nr div BITS_PER_LONG"

definition BIT_MASK :: "nat \<Rightarrow> ulong" where
  "BIT_MASK nr = push_bit (nr mod BITS_PER_LONG) 1"

definition test_bit :: "nat \<Rightarrow> ulong list \<Rightarrow> bool" where
  "test_bit nr addr \<longleftrightarrow> 1 AND drop_bit (nr mod BITS_PER_LONG) (addr ! BIT_WORD nr) \<noteq> 0"

definition set_bit_bm :: "nat \<Rightarrow> ulong list \<Rightarrow> ulong list" where
  "set_bit_bm nr addr = addr[BIT_WORD nr := addr ! BIT_WORD nr OR BIT_MASK nr]"

definition clear_bit_bm :: "nat \<Rightarrow> ulong list \<Rightarrow> ulong list" where
  "clear_bit_bm nr addr = addr[BIT_WORD nr := addr ! BIT_WORD nr AND NOT (BIT_MASK nr)]"

definition change_bit_bm :: "nat \<Rightarrow> ulong list \<Rightarrow> ulong list" where
  "change_bit_bm nr addr = addr[BIT_WORD nr := addr ! BIT_WORD nr XOR BIT_MASK nr]"

definition test_and_set_bit :: "nat \<Rightarrow> ulong list \<Rightarrow> bool \<times> ulong list" where
  "test_and_set_bit nr addr =
    (let mask = BIT_MASK nr; old = addr ! BIT_WORD nr
     in (old AND mask \<noteq> 0, addr[BIT_WORD nr := old OR mask]))"

definition test_and_clear_bit :: "nat \<Rightarrow> ulong list \<Rightarrow> bool \<times> ulong list" where
  "test_and_clear_bit nr addr =
    (let mask = BIT_MASK nr; old = addr ! BIT_WORD nr
     in (old AND mask \<noteq> 0, addr[BIT_WORD nr := old AND NOT mask]))"

definition test_and_change_bit :: "nat \<Rightarrow> ulong list \<Rightarrow> bool \<times> ulong list" where
  "test_and_change_bit nr addr =
    (let mask = BIT_MASK nr; old = addr ! BIT_WORD nr
     in (old AND mask \<noteq> 0, addr[BIT_WORD nr := old XOR mask]))"

text \<open>The abstract view of a bitmap of \<open>n\<close> valid bits: the set of its set bits.\<close>

definition bits_of :: "ulong list \<Rightarrow> nat \<Rightarrow> nat set" where
  "bits_of bm n = {i. i < n \<and> test_bit i bm}"

lemma test_bit_iff: "test_bit i bm \<longleftrightarrow> bit (bm ! (i div 32)) (i mod 32)"
  by (simp add: test_bit_def BIT_WORD_def one_and_eq bit_iff_odd_drop_bit odd_iff_mod_2_eq_one)

lemma bit_BIT_MASK: "bit (BIT_MASK nr) j \<longleftrightarrow> j = nr mod 32"
  by (auto simp: BIT_MASK_def bit_exp_iff)

lemma word_index_eq: "(i :: nat) div 32 = j div 32 \<Longrightarrow> i mod 32 = j mod 32 \<longleftrightarrow> i = j"
  by (metis mult_div_mod_eq)

lemma test_bit_update:
  assumes "k < length bm"
  shows "test_bit i (bm[k := w]) \<longleftrightarrow> (if i div 32 = k then bit w (i mod 32) else test_bit i bm)"
  using assms by (simp add: test_bit_iff)

lemma test_bit_set_bit:
  "nr div 32 < length bm \<Longrightarrow> test_bit i (set_bit_bm nr bm) \<longleftrightarrow> i = nr \<or> test_bit i bm"
  unfolding set_bit_bm_def BIT_WORD_def
  by (subst test_bit_update) (auto simp: bit_word_simps bit_BIT_MASK test_bit_iff word_index_eq)

lemma test_bit_clear_bit:
  "nr div 32 < length bm \<Longrightarrow> test_bit i (clear_bit_bm nr bm) \<longleftrightarrow> i \<noteq> nr \<and> test_bit i bm"
  unfolding clear_bit_bm_def BIT_WORD_def
  by (subst test_bit_update) (auto simp: bit_word_simps bit_BIT_MASK test_bit_iff word_index_eq)

lemma test_bit_change_bit:
  "nr div 32 < length bm \<Longrightarrow> test_bit i (change_bit_bm nr bm) \<longleftrightarrow> (i = nr) \<noteq> test_bit i bm"
  unfolding change_bit_bm_def BIT_WORD_def
  by (subst test_bit_update) (auto simp: bit_word_simps bit_BIT_MASK test_bit_iff word_index_eq)

lemma and_BIT_MASK: "addr ! BIT_WORD nr AND BIT_MASK nr \<noteq> 0 \<longleftrightarrow> test_bit nr addr"
  by (auto simp: ulong_eq_0_iff bit_word_simps bit_BIT_MASK test_bit_iff BIT_WORD_def)

lemma test_and_modify:
  "test_and_set_bit nr bm = (test_bit nr bm, set_bit_bm nr bm)"
  "test_and_clear_bit nr bm = (test_bit nr bm, clear_bit_bm nr bm)"
  "test_and_change_bit nr bm = (test_bit nr bm, change_bit_bm nr bm)"
  by (simp_all only: test_and_set_bit_def test_and_clear_bit_def test_and_change_bit_def Let_def
      and_BIT_MASK set_bit_bm_def clear_bit_bm_def change_bit_bm_def)

lemma length_bit_ops [simp]:
  "length (set_bit_bm nr bm) = length bm" "length (clear_bit_bm nr bm) = length bm"
  "length (change_bit_bm nr bm) = length bm"
  by (simp_all add: set_bit_bm_def clear_bit_bm_def change_bit_bm_def)

section \<open>Searching a bitmap\<close>

text \<open>The exits \<open>found_first\<close> and \<open>found_middle\<close> of \<^verbatim>\<open>find_next_bit\<close>.\<close>

definition found_first :: "ulong \<Rightarrow> nat \<Rightarrow> nat \<Rightarrow> nat" where
  "found_first tmp result sz =
    (let tmp = tmp AND drop_bit (BITS_PER_LONG - sz) (NOT 0)
     in if tmp = 0 then result + sz else result + ffs0 tmp)"

function find_bit_loop :: "ulong list \<Rightarrow> nat \<Rightarrow> nat \<Rightarrow> nat \<Rightarrow> nat" where
  "find_bit_loop addr p result sz =
    (if sz \<ge> BITS_PER_LONG then
       (let tmp = addr ! p in
        if tmp \<noteq> 0 then result + ffs0 tmp
        else find_bit_loop addr (p + 1) (result + BITS_PER_LONG) (sz - BITS_PER_LONG))
     else if sz = 0 then result
     else found_first (addr ! p) result sz)"
  by pat_completeness auto
termination
  by (relation "measure (\<lambda>(addr, p, result, sz). sz)") auto

definition find_next_bit :: "ulong list \<Rightarrow> nat \<Rightarrow> nat \<Rightarrow> nat" where
  "find_next_bit addr sz offset =
    (let p = offset div BITS_PER_LONG;
         result = offset - offset mod BITS_PER_LONG
     in if offset \<ge> sz then sz else
        let sz = sz - result; offset = offset mod BITS_PER_LONG
        in if offset \<noteq> 0 then
             let tmp = addr ! p AND push_bit offset (NOT 0)
             in if sz < BITS_PER_LONG then found_first tmp result sz
                else if tmp \<noteq> 0 then result + ffs0 tmp
                else find_bit_loop addr (p + 1) (result + BITS_PER_LONG) (sz - BITS_PER_LONG)
           else find_bit_loop addr p result sz)"

definition find_first_bit :: "ulong list \<Rightarrow> nat \<Rightarrow> nat" where
  "find_first_bit addr sz = find_bit_loop addr 0 0 sz"

definition found_first_zero :: "ulong \<Rightarrow> nat \<Rightarrow> nat \<Rightarrow> nat" where
  "found_first_zero tmp result sz =
    (let tmp = tmp OR push_bit sz (NOT 0)
     in if tmp = NOT 0 then result + sz else result + ffz tmp)"

function find_zero_loop :: "ulong list \<Rightarrow> nat \<Rightarrow> nat \<Rightarrow> nat \<Rightarrow> nat" where
  "find_zero_loop addr p result sz =
    (if sz \<ge> BITS_PER_LONG then
       (let tmp = addr ! p in
        if NOT tmp \<noteq> 0 then result + ffz tmp
        else find_zero_loop addr (p + 1) (result + BITS_PER_LONG) (sz - BITS_PER_LONG))
     else if sz = 0 then result
     else found_first_zero (addr ! p) result sz)"
  by pat_completeness auto
termination
  by (relation "measure (\<lambda>(addr, p, result, sz). sz)") auto

definition find_next_zero_bit :: "ulong list \<Rightarrow> nat \<Rightarrow> nat \<Rightarrow> nat" where
  "find_next_zero_bit addr sz offset =
    (let p = offset div BITS_PER_LONG;
         result = offset - offset mod BITS_PER_LONG
     in if offset \<ge> sz then sz else
        let sz = sz - result; offset = offset mod BITS_PER_LONG
        in if offset \<noteq> 0 then
             let tmp = addr ! p OR drop_bit (BITS_PER_LONG - offset) (NOT 0)
             in if sz < BITS_PER_LONG then found_first_zero tmp result sz
                else if NOT tmp \<noteq> 0 then result + ffz tmp
                else find_zero_loop addr (p + 1) (result + BITS_PER_LONG) (sz - BITS_PER_LONG)
           else find_zero_loop addr p result sz)"

definition find_first_zero_bit :: "ulong list \<Rightarrow> nat \<Rightarrow> nat" where
  "find_first_zero_bit addr sz = find_zero_loop addr 0 0 sz"

fun find_last_loop :: "ulong list \<Rightarrow> nat \<Rightarrow> nat \<Rightarrow> nat" where
  "find_last_loop addr 0 sz = sz"
| "find_last_loop addr (Suc words) sz =
    (let tmp = addr ! words in
     if tmp \<noteq> 0 then words * BITS_PER_LONG + fls0 tmp else find_last_loop addr words sz)"

definition find_last_bit :: "ulong list \<Rightarrow> nat \<Rightarrow> nat" where
  "find_last_bit addr sz =
    (let words = sz div BITS_PER_LONG;
         tmp = addr ! words AND drop_bit (BITS_PER_LONG - sz mod BITS_PER_LONG) (NOT 0)
     in if sz mod BITS_PER_LONG \<noteq> 0 \<and> tmp \<noteq> 0 then words * BITS_PER_LONG + fls0 tmp
        else find_last_loop addr words sz)"

declare find_bit_loop.simps [simp del] find_zero_loop.simps [simp del]

subsection \<open>Correctness of the searches\<close>

text \<open>
  \<open>is_next P sz off r\<close>: \<open>r\<close> is the first position from \<open>off\<close> on that satisfies \<open>P\<close>, below \<open>sz\<close>,
  or \<open>sz\<close> when there is none.
\<close>

definition is_next :: "(nat \<Rightarrow> bool) \<Rightarrow> nat \<Rightarrow> nat \<Rightarrow> nat \<Rightarrow> bool" where
  "is_next P sz off r \<longleftrightarrow> r \<le> sz \<and> (r < sz \<longrightarrow> off \<le> r \<and> P r) \<and> (\<forall>i. off \<le> i \<and> i < r \<longrightarrow> \<not> P i)"

lemma is_next_unique: "is_next P sz off r \<Longrightarrow> is_next P sz off r' \<Longrightarrow> r = r'"
  unfolding is_next_def by (metis linorder_neqE_nat order.strict_trans2)

lemma is_next_past: "sz \<le> off \<Longrightarrow> is_next P sz off sz"
  by (auto simp: is_next_def)

lemma test_bit_word: "j < 32 \<Longrightarrow> test_bit (32 * p + j) addr \<longleftrightarrow> bit (addr ! p) j"
  by (simp add: test_bit_iff)

text \<open>One word of the search: the word \<open>tmp\<close> holds the hits of positions \<open>lo..<n\<close> of word \<open>p\<close>.\<close>

definition word_hits :: "(nat \<Rightarrow> bool) \<Rightarrow> nat \<Rightarrow> nat \<Rightarrow> nat \<Rightarrow> ulong \<Rightarrow> bool" where
  "word_hits P p lo n tmp \<longleftrightarrow> n \<le> 32 \<and> (\<forall>j<32. bit tmp j \<longleftrightarrow> lo \<le> j \<and> j < n \<and> P (32 * p + j))"

lemma is_next_found:
  assumes "word_hits P p lo n tmp" "tmp \<noteq> 0" "32 * p + n \<le> sz"
  shows "is_next P sz (32 * p + lo) (32 * p + ffs0 tmp)"
proof -
  from ffs0_correct [OF assms(2)] have f: "bit tmp (ffs0 tmp)" "\<And>j. j < ffs0 tmp \<Longrightarrow> \<not> bit tmp j"
    "ffs0 tmp < 32" by auto
  with assms have h: "lo \<le> ffs0 tmp" "ffs0 tmp < n" "P (32 * p + ffs0 tmp)"
    by (auto simp: word_hits_def)
  have "\<not> P i" if "32 * p + lo \<le> i" "i < 32 * p + ffs0 tmp" for i
  proof -
    have "\<not> bit tmp (i - 32 * p)" using f(2) that by auto
    then show ?thesis using assms(1) that h f(3) by (auto simp: word_hits_def)
  qed
  with h assms show ?thesis by (auto simp: is_next_def)
qed

lemma is_next_none:
  assumes "word_hits P p lo n 0" "sz = 32 * p + n"
  shows "is_next P sz (32 * p + lo) sz"
proof -
  have "\<not> P i" if "32 * p + lo \<le> i" "i < sz" for i
  proof -
    have "i - 32 * p < 32" "lo \<le> i - 32 * p" "i - 32 * p < n" "32 * p + (i - 32 * p) = i"
      using that assms by (auto simp: word_hits_def)
    then show ?thesis using assms(1) unfolding word_hits_def by (metis bit_0_eq bot_apply bot_bool_def)
  qed
  then show ?thesis by (auto simp: is_next_def)
qed

lemma is_next_skip:
  assumes "word_hits P p lo 32 0" "is_next P sz (32 * (p + 1)) r" "lo \<le> 32"
  shows "is_next P sz (32 * p + lo) r"
proof -
  have "is_next P (32 * p + 32) (32 * p + lo) (32 * p + 32)" by (rule is_next_none [OF assms(1)]) simp
  then have no: "\<And>i. 32 * p + lo \<le> i \<Longrightarrow> i < 32 * p + 32 \<Longrightarrow> \<not> P i" by (auto simp: is_next_def)
  from assms(2) have r: "\<And>i. 32 * p + 32 \<le> i \<Longrightarrow> i < r \<Longrightarrow> \<not> P i" "r \<le> sz"
    "r < sz \<Longrightarrow> 32 * p + 32 \<le> r \<and> P r" by (auto simp: is_next_def)
  then show ?thesis using no assms(3) unfolding is_next_def by (meson add_left_mono not_le order_trans)
qed

text \<open>
  Both searches read the bitmap word by word: \<open>scan\<close> and \<open>scan_from\<close> abstract from which word
  value is inspected, the stored word (next set bit) or its complement (next zero bit).
\<close>

function scan :: "(nat \<Rightarrow> ulong) \<Rightarrow> nat \<Rightarrow> nat \<Rightarrow> nat \<Rightarrow> nat" where
  "scan rd p result sz =
    (if sz \<ge> 32 then (if rd p \<noteq> 0 then result + ffs0 (rd p) else scan rd (p + 1) (result + 32) (sz - 32))
     else if sz = 0 then result else found_first (rd p) result sz)"
  by pat_completeness auto
termination
  by (relation "measure (\<lambda>(rd, p, result, sz). sz)") auto

declare scan.simps [simp del]

definition scan_from :: "(nat \<Rightarrow> ulong) \<Rightarrow> nat \<Rightarrow> nat \<Rightarrow> nat" where
  "scan_from rd sz offset =
    (let p = offset div 32; lo = offset mod 32; n = sz - 32 * p; tmp = rd p AND push_bit lo (NOT 0)
     in if offset \<ge> sz then sz
        else if lo = 0 then scan rd p (32 * p) n
        else if n < 32 then found_first tmp (32 * p) n
        else if tmp \<noteq> 0 then 32 * p + ffs0 tmp
        else scan rd (p + 1) (32 * p + 32) (n - 32))"

locale word_source =
  fixes rd :: "nat \<Rightarrow> ulong" and P :: "nat \<Rightarrow> bool"
  assumes hit_bit: "j < 32 \<Longrightarrow> P (32 * p + j) \<longleftrightarrow> bit (rd p) j"
begin

lemma word_hits_rd: "lo \<le> 32 \<Longrightarrow> word_hits P p lo 32 (rd p AND push_bit lo (NOT 0))"
  by (auto simp: word_hits_def bit_word_simps hit_bit)

lemma word_hits_rd0: "word_hits P p 0 32 (rd p)"
  by (auto simp: word_hits_def hit_bit)

lemma found_first_next:
  assumes "word_hits P p lo 32 tmp" "0 < n" "n < 32"
  shows "is_next P (32 * p + n) (32 * p + lo) (found_first tmp (32 * p) n)"
proof -
  have "word_hits P p lo n (tmp AND drop_bit (32 - n) (NOT 0))"
    using assms by (auto simp: word_hits_def bit_word_simps)
  with is_next_found [OF this] is_next_none [of P p lo n] show ?thesis
    by (auto simp: found_first_def Let_def)
qed

lemma scan_next: "is_next P (32 * p + n) (32 * p) (scan rd p (32 * p) n)"
proof (induction n arbitrary: p rule: less_induct)
  case (less n)
  note hits = word_hits_rd0 [of p]
  consider "n < 32" | "32 \<le> n" "rd p \<noteq> 0" | "32 \<le> n" "rd p = 0" by linarith
  then show ?case
  proof cases
    case 1
    with found_first_next [OF hits, of n] show ?thesis
      by (cases "n = 0") (simp_all add: scan.simps [of rd p] is_next_past)
  next
    case 2
    with is_next_found [OF hits, of "32 * p + n"] show ?thesis by (simp add: scan.simps [of rd p])
  next
    case 3
    with less [of "n - 32" "p + 1"]
    have "is_next P (32 * p + n) (32 * (p + 1)) (scan rd (p + 1) (32 * (p + 1)) (n - 32))" by simp
    from is_next_skip [OF hits [unfolded 3(2)] this] show ?thesis
      using 3 by (simp add: scan.simps [of rd p] add.commute)
  qed
qed

lemma scan_from_next: "is_next P sz off (scan_from rd sz off)"
proof (cases "sz \<le> off")
  case True
  then show ?thesis by (simp add: scan_from_def is_next_past)
next
  case False
  let ?p = "off div 32" let ?lo = "off mod 32" let ?n = "sz - 32 * ?p"
  have off: "32 * ?p + ?lo = off" by simp
  have sz: "32 * ?p + ?n = sz" "0 < ?n" using False off by linarith+
  let ?tmp = "rd ?p AND push_bit ?lo (NOT 0)"
  have hits: "word_hits P ?p ?lo 32 ?tmp" by (rule word_hits_rd) simp
  consider "?lo = 0" | "?lo \<noteq> 0" "?n < 32" | "?lo \<noteq> 0" "32 \<le> ?n" "?tmp \<noteq> 0"
    | "?lo \<noteq> 0" "32 \<le> ?n" "?tmp = 0" by linarith
  then show ?thesis
  proof cases
    case 1
    with scan_next [of ?p ?n] show ?thesis using False off sz by (simp add: scan_from_def Let_def)
  next
    case 2
    with found_first_next [OF hits sz(2)] show ?thesis
      using False off sz by (simp add: scan_from_def Let_def)
  next
    case 3
    with is_next_found [OF hits 3(3), of sz] show ?thesis
      using False off sz by (simp add: scan_from_def Let_def)
  next
    case 4
    have "is_next P sz (32 * (?p + 1)) (scan rd (?p + 1) (32 * ?p + 32) (?n - 32))"
      using scan_next [of "?p + 1" "?n - 32"] 4 sz by (simp add: algebra_simps)
    with is_next_skip [OF hits [unfolded 4(3)]] show ?thesis
      using False off sz 4 by (simp add: scan_from_def Let_def)
  qed
qed

end

interpretation set_source: word_source "\<lambda>p. addr ! p" "\<lambda>i. test_bit i addr" for addr
  by unfold_locales (rule test_bit_word)

interpretation zero_source: word_source "\<lambda>p. NOT (addr ! p)" "\<lambda>i. \<not> test_bit i addr" for addr
  by unfold_locales (simp add: test_bit_word bit_word_simps)

lemma find_bit_loop_scan: "find_bit_loop addr p r n = scan (\<lambda>p. addr ! p) p r n"
  by (induction addr p r n rule: find_bit_loop.induct)
    (subst find_bit_loop.simps, subst scan.simps, simp add: Let_def)

lemma found_first_zero_scan: "n < 32 \<Longrightarrow> found_first_zero tmp r n = found_first (NOT tmp) r n"
proof -
  assume n: "n < 32"
  have "NOT (tmp OR push_bit n (NOT 0)) = NOT tmp AND drop_bit (32 - n) (NOT 0)"
    using n by (auto simp: ulong_eq_iff bit_word_simps)
  moreover have "tmp OR push_bit n (NOT 0) = NOT 0 \<longleftrightarrow> NOT (tmp OR push_bit n (NOT 0)) = 0"
    by (metis bit.double_compl bit.compl_zero)
  ultimately show ?thesis unfolding found_first_zero_def found_first_def Let_def ffz_def by metis
qed

lemma find_zero_loop_scan: "find_zero_loop addr p r n = scan (\<lambda>p. NOT (addr ! p)) p r n"
  by (induction addr p r n rule: find_zero_loop.induct)
    (subst find_zero_loop.simps, subst scan.simps, simp add: Let_def found_first_zero_scan ffz_def)

lemma find_next_bit_scan: "find_next_bit addr sz off = scan_from (\<lambda>p. addr ! p) sz off"
  by (simp add: find_next_bit_def scan_from_def Let_def find_bit_loop_scan minus_mod_eq_mult_div)

lemma find_next_zero_bit_scan: "find_next_zero_bit addr sz off = scan_from (\<lambda>p. NOT (addr ! p)) sz off"
proof -
  have m: "NOT (w OR drop_bit (32 - lo) (NOT 0)) = NOT w AND push_bit lo (NOT 0)" if "lo < 32" for w :: ulong and lo
    using that by (auto simp: ulong_eq_iff bit_word_simps)
  show ?thesis
    unfolding find_next_zero_bit_def scan_from_def Let_def find_zero_loop_scan ffz_def minus_mod_eq_mult_div
    using m [of "off mod 32"] by (auto simp: found_first_zero_scan)
qed

lemma find_next_bit_next: "is_next (\<lambda>i. test_bit i addr) sz off (find_next_bit addr sz off)"
  unfolding find_next_bit_scan by (rule set_source.scan_from_next)

lemma find_next_zero_bit_next: "is_next (\<lambda>i. \<not> test_bit i addr) sz off (find_next_zero_bit addr sz off)"
  unfolding find_next_zero_bit_scan by (rule zero_source.scan_from_next)

lemma find_first_bit_eq: "find_first_bit addr sz = find_next_bit addr sz 0"
  by (cases "sz = 0") (simp_all add: find_first_bit_def find_bit_loop_scan find_next_bit_scan scan_from_def scan.simps)

lemma find_first_zero_bit_eq: "find_first_zero_bit addr sz = find_next_zero_bit addr sz 0"
  by (cases "sz = 0") (simp_all add: find_first_zero_bit_def find_zero_loop_scan find_next_zero_bit_scan scan_from_def scan.simps)

text \<open>\<open>is_last P sz r\<close>: \<open>r\<close> is the last position below \<open>sz\<close> that satisfies \<open>P\<close>, or \<open>sz\<close> if none does.\<close>

definition is_last :: "(nat \<Rightarrow> bool) \<Rightarrow> nat \<Rightarrow> nat \<Rightarrow> bool" where
  "is_last P sz r \<longleftrightarrow> (r = sz \<and> (\<forall>i. i < sz \<longrightarrow> \<not> P i)) \<or> (r < sz \<and> P r \<and> (\<forall>i. r < i \<and> i < sz \<longrightarrow> \<not> P i))"

lemma last_in_word:
  assumes "word_hits P p 0 n tmp" "tmp \<noteq> 0" "\<forall>i. 32 * p + n \<le> i \<and> i < sz \<longrightarrow> \<not> P i" "32 * p + n \<le> sz"
  shows "is_last P sz (p * 32 + fls0 tmp)"
proof -
  from fls0_correct [OF assms(2)] have f: "bit tmp (fls0 tmp)" "\<And>j. fls0 tmp < j \<Longrightarrow> \<not> bit tmp j"
    "fls0 tmp < 32" by auto
  with assms(1) have h: "fls0 tmp < n" "P (32 * p + fls0 tmp)" by (auto simp: word_hits_def)
  have "\<not> P i" if "32 * p + fls0 tmp < i" "i < sz" for i
  proof (cases "32 * p + n \<le> i")
    case False
    then have "\<not> bit tmp (i - 32 * p)" using f(2) that by auto
    then show ?thesis using assms(1) that False by (auto simp: word_hits_def)
  qed (use assms(3) that in blast)
  with h assms(4) show ?thesis by (auto simp: is_last_def mult.commute)
qed

lemma find_last_loop_last:
  "\<forall>i. 32 * words \<le> i \<and> i < sz \<longrightarrow> \<not> test_bit i addr \<Longrightarrow> 32 * words \<le> sz \<Longrightarrow>
    is_last (\<lambda>i. test_bit i addr) sz (find_last_loop addr words sz)"
proof (induction words)
  case 0
  then show ?case by (simp add: is_last_def)
next
  case (Suc p)
  show ?case
  proof (cases "addr ! p = 0")
    case True
    have "\<not> test_bit i addr" if "32 * p \<le> i" "i < 32 * Suc p" for i
      using test_bit_word [of "i - 32 * p" p addr] that True by simp
    then have "\<forall>i. 32 * p \<le> i \<and> i < sz \<longrightarrow> \<not> test_bit i addr"
      using Suc.prems by (metis not_le)
    with Suc True show ?thesis by simp
  next
    case False
    with last_in_word [OF set_source.word_hits_rd0 False] Suc.prems show ?thesis by simp
  qed
qed

lemma find_last_bit_last: "is_last (\<lambda>i. test_bit i addr) sz (find_last_bit addr sz)"
proof -
  let ?p = "sz div 32" let ?n = "sz mod 32"
  let ?tmp = "addr ! ?p AND drop_bit (32 - ?n) (NOT 0)"
  have sz: "32 * ?p + ?n = sz" by simp
  have hits: "word_hits (\<lambda>i. test_bit i addr) ?p 0 ?n ?tmp" if "?n \<noteq> 0"
    using that by (auto simp: word_hits_def bit_word_simps test_bit_word)
  show ?thesis
  proof (cases "?n \<noteq> 0 \<and> ?tmp \<noteq> 0")
    case True
    have "\<forall>i. 32 * ?p + ?n \<le> i \<and> i < sz \<longrightarrow> \<not> test_bit i addr" by auto
    with last_in_word [OF hits, of sz] True show ?thesis by (simp add: find_last_bit_def Let_def)
  next
    case False
    have none: "\<forall>i. 32 * ?p \<le> i \<and> i < sz \<longrightarrow> \<not> test_bit i addr"
    proof (cases "?n = 0")
      case nz: False
      with False have "?tmp = 0" by blast
      with is_next_none [OF hits [OF nz, unfolded this] sz [symmetric]] show ?thesis
        by (simp add: is_next_def)
    qed (use sz in auto)
    have "find_last_bit addr sz = find_last_loop addr ?p sz"
      using False by (auto simp: find_last_bit_def Let_def)
    then show ?thesis using find_last_loop_last [OF none] by simp
  qed
qed

section \<open>Iterating over the set bits\<close>

text \<open>
  What the clients of the searches rely on, whichever bits they look for: \<open>next_hit bm sz off\<close> is the
  next hit.  The library facts below follow from that contract alone.
\<close>

locale bit_search =
  fixes hit :: "ulong list \<Rightarrow> nat \<Rightarrow> bool" and next_hit :: "ulong list \<Rightarrow> nat \<Rightarrow> nat \<Rightarrow> nat"
  assumes next_hit: "is_next (hit bm) sz off (next_hit bm sz off)"
begin

lemma next_hit_le: "next_hit bm sz off \<le> sz"
  using next_hit [of bm sz off] by (simp add: is_next_def)

lemma next_hit_ge: "off \<le> sz \<Longrightarrow> off \<le> next_hit bm sz off"
  using next_hit [of bm sz off] by (fastforce simp: is_next_def)

lemma next_hit_progress: "b < sz \<Longrightarrow> b < next_hit bm sz (b + 1)"
  using next_hit_ge [of "b + 1" sz bm] by simp

lemma hit_next_hit: "next_hit bm sz off < sz \<Longrightarrow> hit bm (next_hit bm sz off)"
  using next_hit [of bm sz off] by (simp add: is_next_def)

lemma no_hit_before: "off \<le> i \<Longrightarrow> i < next_hit bm sz off \<Longrightarrow> \<not> hit bm i"
  using next_hit [of bm sz off] by (simp add: is_next_def)

lemma next_hit_eq_size: "off \<le> sz \<Longrightarrow> next_hit bm sz off = sz \<longleftrightarrow> (\<forall>i. off \<le> i \<and> i < sz \<longrightarrow> \<not> hit bm i)"
  by (metis hit_next_hit next_hit_ge next_hit_le no_hit_before order_le_less)

lemma next_hit_cong:
  assumes "\<And>i. i < sz \<Longrightarrow> hit bm i = hit bm' i"
  shows "next_hit bm sz off = next_hit bm' sz off"
proof -
  have "is_next (hit bm) sz off (next_hit bm' sz off)"
    using next_hit [of bm' sz off] assms unfolding is_next_def by (meson order.strict_trans2)
  then show ?thesis using is_next_unique [OF next_hit] by blast
qed

text \<open>The hits from the next hit on are that hit and those after it.\<close>

lemma hits_from_next:
  assumes "off \<le> sz"
  shows "filter (hit bm) [off..<sz] =
    (if next_hit bm sz off < sz
     then next_hit bm sz off # filter (hit bm) [Suc (next_hit bm sz off)..<sz] else [])"
proof -
  let ?r = "next_hit bm sz off"
  have r: "off \<le> ?r" "?r \<le> sz" using next_hit_ge [OF assms] next_hit_le by auto
  have split: "[off..<sz] = [off..<?r] @ [?r..<sz]"
    using r by (metis upt_add_eq_append le_Suc_ex)
  have none: "filter (hit bm) [off..<?r] = []" using no_hit_before by (auto simp: filter_empty_conv)
  show ?thesis
  proof (cases "?r < sz")
    case True
    then have "[?r..<sz] = ?r # [Suc ?r..<sz]" by (simp add: upt_conv_Cons)
    with True none hit_next_hit [OF True] show ?thesis unfolding split by simp
  next
    case False
    with none show ?thesis unfolding split by simp
  qed
qed

end

interpretation set_search: bit_search "\<lambda>bm i. test_bit i bm" find_next_bit
  by unfold_locales (rule find_next_bit_next)

interpretation zero_search: bit_search "\<lambda>bm i. \<not> test_bit i bm" find_next_zero_bit
  by unfold_locales (rule find_next_zero_bit_next)

text \<open>The bits that \<^verbatim>\<open>for_each_set_bit\<close> visits, in order.\<close>

function for_each_from :: "ulong list \<Rightarrow> nat \<Rightarrow> nat \<Rightarrow> nat list" where
  "for_each_from addr sz b =
    (if b < sz then b # for_each_from addr sz (find_next_bit addr sz (b + 1)) else [])"
  by pat_completeness auto
termination
proof (relation "measure (\<lambda>(addr, sz, b). sz - b)", simp)
  fix addr :: "ulong list" and sz b :: nat
  assume "b < sz"
  then show "((addr, sz, find_next_bit addr sz (b + 1)), addr, sz, b) \<in> measure (\<lambda>(addr, sz, b). sz - b)"
    using set_search.next_hit_progress [of b sz addr] by simp
qed

declare for_each_from.simps [simp del]

definition for_each_set_bit :: "ulong list \<Rightarrow> nat \<Rightarrow> nat list" where
  "for_each_set_bit addr sz = for_each_from addr sz (find_first_bit addr sz)"

lemma for_each_from_next:
  "off \<le> sz \<Longrightarrow> for_each_from addr sz (find_next_bit addr sz off) = filter (\<lambda>i. test_bit i addr) [off..<sz]"
proof (induction "sz - off" arbitrary: off rule: less_induct)
  case less
  let ?r = "find_next_bit addr sz off"
  have "off \<le> ?r" using set_search.next_hit_ge [OF less.prems] .
  then show ?case
    using less(1) [of "Suc ?r"] set_search.hits_from_next [OF less.prems, of addr]
    by (subst for_each_from.simps) auto
qed

lemma for_each_set_bit_eq: "for_each_set_bit addr sz = filter (\<lambda>i. test_bit i addr) [0..<sz]"
  by (simp add: for_each_set_bit_def find_first_bit_eq for_each_from_next)

lemma set_for_each_set_bit: "set (for_each_set_bit addr sz) = bits_of addr sz"
  by (auto simp: for_each_set_bit_eq bits_of_def)

section \<open>Properties\<close>

text \<open>C22: \<^verbatim>\<open>find_next_bit\<close> and \<^verbatim>\<open>find_next_zero_bit\<close> return the least position from \<open>off\<close> on, below
  \<open>sz\<close>, whose bit is set (is clear), and \<open>sz\<close> when there is none; \<^verbatim>\<open>find_first_bit\<close> and
  \<^verbatim>\<open>find_first_zero_bit\<close> do so from position 0, and \<^verbatim>\<open>find_last_bit\<close> returns the greatest one.\<close>

theorem find_bit_correct:
  "(find_next_bit addr sz off = r \<longleftrightarrow> is_next (\<lambda>i. test_bit i addr) sz off r)
   \<and> (find_next_zero_bit addr sz off = r \<longleftrightarrow> is_next (\<lambda>i. \<not> test_bit i addr) sz off r)
   \<and> (find_first_bit addr sz = r \<longleftrightarrow> is_next (\<lambda>i. test_bit i addr) sz 0 r)
   \<and> (find_first_zero_bit addr sz = r \<longleftrightarrow> is_next (\<lambda>i. \<not> test_bit i addr) sz 0 r)
   \<and> is_last (\<lambda>i. test_bit i addr) sz (find_last_bit addr sz)"
proof -
  have "find_next_bit addr sz k = r \<longleftrightarrow> is_next (\<lambda>i. test_bit i addr) sz k r" for k
    using find_next_bit_next [of addr sz k] is_next_unique by blast
  moreover have "find_next_zero_bit addr sz k = r \<longleftrightarrow> is_next (\<lambda>i. \<not> test_bit i addr) sz k r" for k
    using find_next_zero_bit_next [of addr sz k] is_next_unique by blast
  ultimately show ?thesis by (simp add: find_first_bit_eq find_first_zero_bit_eq find_last_bit_last)
qed

end
