(* ===== verification/Bitmap.thy ===== *)
theory Bitmap
  imports Bitops
begin

text \<open>
  The bitmap library: \<^verbatim>\<open>lib/bitmap.c\<close> up to \<^verbatim>\<open>bitmap_clear\<close>, and the size and mask macros of
  \<^verbatim>\<open>include/linux/bitops.h\<close> and \<^verbatim>\<open>include/linux/bitmap.h\<close>. A bitmap is a list of 32-bit words. The
  functions of the source whose name begins with two underscores have the prefix \<open>lib_\<close> here.

  Every operation is refined to one on the set \<open>bits_of bm n\<close> of the bit numbers below \<open>n\<close> that are set.
  The operations that write need a destination of at least \<open>n\<close> bits.
\<close>

unbundle bit_operations_syntax

section \<open>Sizes and masks\<close>

definition BITS_TO_LONGS :: "nat \<Rightarrow> nat" where
  "BITS_TO_LONGS nr = (nr + BITS_PER_LONG - 1) div BITS_PER_LONG"

definition BITMAP_LAST_WORD_MASK :: "nat \<Rightarrow> ulong" where
  "BITMAP_LAST_WORD_MASK nbits =
    (if nbits mod BITS_PER_LONG \<noteq> 0 then push_bit (nbits mod BITS_PER_LONG) 1 - 1 else NOT 0)"

definition BITMAP_FIRST_WORD_MASK :: "nat \<Rightarrow> ulong" where
  "BITMAP_FIRST_WORD_MASK start = push_bit (start mod BITS_PER_LONG) (NOT 0)"

section \<open>Operations of lib/bitmap.c on whole bitmaps\<close>

definition lib_bitmap_empty :: "ulong list \<Rightarrow> nat \<Rightarrow> bool" where
  "lib_bitmap_empty bitmap bits =
    (let lim = bits div BITS_PER_LONG in
     list_all (\<lambda>k. bitmap ! k = 0) [0..<lim]
     \<and> (bits mod BITS_PER_LONG \<noteq> 0 \<longrightarrow> bitmap ! lim AND BITMAP_LAST_WORD_MASK bits = 0))"

definition lib_bitmap_full :: "ulong list \<Rightarrow> nat \<Rightarrow> bool" where
  "lib_bitmap_full bitmap bits =
    (let lim = bits div BITS_PER_LONG in
     list_all (\<lambda>k. NOT (bitmap ! k) = 0) [0..<lim]
     \<and> (bits mod BITS_PER_LONG \<noteq> 0 \<longrightarrow> NOT (bitmap ! lim) AND BITMAP_LAST_WORD_MASK bits = 0))"

definition lib_bitmap_equal :: "ulong list \<Rightarrow> ulong list \<Rightarrow> nat \<Rightarrow> bool" where
  "lib_bitmap_equal bitmap1 bitmap2 bits =
    (let lim = bits div BITS_PER_LONG in
     list_all (\<lambda>k. bitmap1 ! k = bitmap2 ! k) [0..<lim]
     \<and> (bits mod BITS_PER_LONG \<noteq> 0 \<longrightarrow>
          (bitmap1 ! lim XOR bitmap2 ! lim) AND BITMAP_LAST_WORD_MASK bits = 0))"

definition lib_bitmap_intersects :: "ulong list \<Rightarrow> ulong list \<Rightarrow> nat \<Rightarrow> bool" where
  "lib_bitmap_intersects bitmap1 bitmap2 bits =
    (let lim = bits div BITS_PER_LONG in
     list_ex (\<lambda>k. bitmap1 ! k AND bitmap2 ! k \<noteq> 0) [0..<lim]
     \<or> (bits mod BITS_PER_LONG \<noteq> 0 \<and>
          (bitmap1 ! lim AND bitmap2 ! lim) AND BITMAP_LAST_WORD_MASK bits \<noteq> 0))"

definition lib_bitmap_subset :: "ulong list \<Rightarrow> ulong list \<Rightarrow> nat \<Rightarrow> bool" where
  "lib_bitmap_subset bitmap1 bitmap2 bits =
    (let lim = bits div BITS_PER_LONG in
     list_all (\<lambda>k. bitmap1 ! k AND NOT (bitmap2 ! k) = 0) [0..<lim]
     \<and> (bits mod BITS_PER_LONG \<noteq> 0 \<longrightarrow>
          (bitmap1 ! lim AND NOT (bitmap2 ! lim)) AND BITMAP_LAST_WORD_MASK bits = 0))"

definition hweight_long :: "ulong \<Rightarrow> nat" where
  "hweight_long w = unat (sw_hweight32 w)"

definition lib_bitmap_weight :: "ulong list \<Rightarrow> nat \<Rightarrow> nat" where
  "lib_bitmap_weight bitmap bits =
    (let lim = bits div BITS_PER_LONG;
         w = fold (\<lambda>k w. w + hweight_long (bitmap ! k)) [0..<lim] 0
     in if bits mod BITS_PER_LONG \<noteq> 0
        then w + hweight_long (bitmap ! lim AND BITMAP_LAST_WORD_MASK bits) else w)"

definition lib_bitmap_complement :: "ulong list \<Rightarrow> ulong list \<Rightarrow> nat \<Rightarrow> ulong list" where
  "lib_bitmap_complement dst src bits =
    (let lim = bits div BITS_PER_LONG;
         dst = fold (\<lambda>k d. d[k := NOT (src ! k)]) [0..<lim] dst
     in if bits mod BITS_PER_LONG \<noteq> 0
        then dst[lim := NOT (src ! lim) AND BITMAP_LAST_WORD_MASK bits] else dst)"

definition lib_bitmap_and :: "ulong list \<Rightarrow> ulong list \<Rightarrow> ulong list \<Rightarrow> nat \<Rightarrow> bool \<times> ulong list" where
  "lib_bitmap_and dst bitmap1 bitmap2 bits =
    (let nr = BITS_TO_LONGS bits;
         (result, dst) = fold (\<lambda>k (result, d).
           let v = bitmap1 ! k AND bitmap2 ! k in (result OR v, d[k := v])) [0..<nr] (0, dst)
     in (result \<noteq> 0, dst))"

definition lib_bitmap_or :: "ulong list \<Rightarrow> ulong list \<Rightarrow> ulong list \<Rightarrow> nat \<Rightarrow> ulong list" where
  "lib_bitmap_or dst bitmap1 bitmap2 bits =
    fold (\<lambda>k d. d[k := bitmap1 ! k OR bitmap2 ! k]) [0..<BITS_TO_LONGS bits] dst"

definition lib_bitmap_xor :: "ulong list \<Rightarrow> ulong list \<Rightarrow> ulong list \<Rightarrow> nat \<Rightarrow> ulong list" where
  "lib_bitmap_xor dst bitmap1 bitmap2 bits =
    fold (\<lambda>k d. d[k := bitmap1 ! k XOR bitmap2 ! k]) [0..<BITS_TO_LONGS bits] dst"

definition lib_bitmap_andnot :: "ulong list \<Rightarrow> ulong list \<Rightarrow> ulong list \<Rightarrow> nat \<Rightarrow> bool \<times> ulong list" where
  "lib_bitmap_andnot dst bitmap1 bitmap2 bits =
    (let nr = BITS_TO_LONGS bits;
         (result, dst) = fold (\<lambda>k (result, d).
           let v = bitmap1 ! k AND NOT (bitmap2 ! k) in (result OR v, d[k := v])) [0..<nr] (0, dst)
     in (result \<noteq> 0, dst))"

text \<open>
  The shifts may be called with \<open>dst\<close> and \<open>src\<close> the same array (\<^verbatim>\<open>__bitmap_parse\<close> does): with
  \<open>inplace\<close> each iteration reads what the earlier ones have left in \<open>dst\<close>.
\<close>

definition shift_src :: "bool \<Rightarrow> ulong list \<Rightarrow> ulong list \<Rightarrow> ulong list" where
  "shift_src inplace dst src = (if inplace then dst else src)"

definition shift_right_word :: "nat \<Rightarrow> nat \<Rightarrow> ulong list \<Rightarrow> nat \<Rightarrow> ulong" where
  "shift_right_word shift bits src k =
    (let lim = BITS_TO_LONGS bits; left = bits mod BITS_PER_LONG;
         off = shift div BITS_PER_LONG; rem = shift mod BITS_PER_LONG;
         mask = push_bit left 1 - 1;
         upper = (if rem = 0 \<or> off + k + 1 \<ge> lim then 0
                  else if off + k + 1 = lim - 1 \<and> left \<noteq> 0 then src ! (off + k + 1) AND mask
                  else src ! (off + k + 1));
         lower = (if left \<noteq> 0 \<and> off + k = lim - 1 then src ! (off + k) AND mask else src ! (off + k));
         w = push_bit (BITS_PER_LONG - rem) upper OR drop_bit rem lower
     in if left \<noteq> 0 \<and> k = lim - 1 then w AND mask else w)"

definition lib_bitmap_shift_right :: "bool \<Rightarrow> ulong list \<Rightarrow> ulong list \<Rightarrow> nat \<Rightarrow> nat \<Rightarrow> ulong list" where
  "lib_bitmap_shift_right inplace dst src shift bits =
    (let lim = BITS_TO_LONGS bits; off = shift div BITS_PER_LONG;
         dst = fold (\<lambda>k d. d[k := shift_right_word shift bits (shift_src inplace d src) k])
                 [0..<lim - off] dst
     in fold (\<lambda>k d. d[k := 0]) [lim - off..<lim] dst)"

definition shift_left_word :: "nat \<Rightarrow> nat \<Rightarrow> ulong list \<Rightarrow> nat \<Rightarrow> ulong" where
  "shift_left_word shift bits src k =
    (let lim = BITS_TO_LONGS bits; left = bits mod BITS_PER_LONG;
         off = shift div BITS_PER_LONG; rem = shift mod BITS_PER_LONG;
         lower = (if rem \<noteq> 0 \<and> k > 0 then src ! (k - 1) else 0);
         upper = (if left \<noteq> 0 \<and> k = lim - 1 then src ! k AND (push_bit left 1 - 1) else src ! k);
         w = drop_bit (BITS_PER_LONG - rem) lower OR push_bit rem upper
     in if left \<noteq> 0 \<and> k + off = lim - 1 then w AND (push_bit left 1 - 1) else w)"

definition lib_bitmap_shift_left :: "bool \<Rightarrow> ulong list \<Rightarrow> ulong list \<Rightarrow> nat \<Rightarrow> nat \<Rightarrow> ulong list" where
  "lib_bitmap_shift_left inplace dst src shift bits =
    (let lim = BITS_TO_LONGS bits; off = shift div BITS_PER_LONG;
         dst = fold (\<lambda>k d. d[k + off := shift_left_word shift bits (shift_src inplace d src) k])
                 (rev [0..<lim - off]) dst
     in fold (\<lambda>k d. d[k := 0]) [0..<off] dst)"

text \<open>The loop of \<^verbatim>\<open>bitmap_set\<close>: words to set in full, then the rest of the last word.\<close>

function bitmap_set_loop :: "ulong list \<Rightarrow> nat \<Rightarrow> nat \<Rightarrow> nat \<Rightarrow> nat \<Rightarrow> ulong \<Rightarrow> ulong list" where
  "bitmap_set_loop bm p sz nr bits_to_set mask_to_set =
    (if bits_to_set \<le> nr \<and> 0 < bits_to_set then
       bitmap_set_loop (bm[p := bm ! p OR mask_to_set]) (p + 1) sz (nr - bits_to_set)
         BITS_PER_LONG (NOT 0)
     else if nr \<noteq> 0 then
       bm[p := bm ! p OR (mask_to_set AND BITMAP_LAST_WORD_MASK sz)]
     else bm)"
  by pat_completeness auto
termination
  by (relation "measure (\<lambda>(bm, p, sz, nr, b, m). nr)") auto

definition bitmap_set :: "ulong list \<Rightarrow> nat \<Rightarrow> nat \<Rightarrow> ulong list" where
  "bitmap_set bm start nr =
    bitmap_set_loop bm (BIT_WORD start) (start + nr) nr
      (BITS_PER_LONG - start mod BITS_PER_LONG) (BITMAP_FIRST_WORD_MASK start)"

function bitmap_clear_loop :: "ulong list \<Rightarrow> nat \<Rightarrow> nat \<Rightarrow> nat \<Rightarrow> nat \<Rightarrow> ulong \<Rightarrow> ulong list" where
  "bitmap_clear_loop bm p sz nr bits_to_clear mask_to_clear =
    (if bits_to_clear \<le> nr \<and> 0 < bits_to_clear then
       bitmap_clear_loop (bm[p := bm ! p AND NOT mask_to_clear]) (p + 1) sz (nr - bits_to_clear)
         BITS_PER_LONG (NOT 0)
     else if nr \<noteq> 0 then
       bm[p := bm ! p AND NOT (mask_to_clear AND BITMAP_LAST_WORD_MASK sz)]
     else bm)"
  by pat_completeness auto
termination
  by (relation "measure (\<lambda>(bm, p, sz, nr, b, m). nr)") auto

definition bitmap_clear :: "ulong list \<Rightarrow> nat \<Rightarrow> nat \<Rightarrow> ulong list" where
  "bitmap_clear bm start nr =
    bitmap_clear_loop bm (BIT_WORD start) (start + nr) nr
      (BITS_PER_LONG - start mod BITS_PER_LONG) (BITMAP_FIRST_WORD_MASK start)"

declare bitmap_set_loop.simps [simp del] bitmap_clear_loop.simps [simp del]

section \<open>Refinement to sets of bit numbers\<close>

lemma bit_last_mask [bit_word_simps]:
  "bit (BITMAP_LAST_WORD_MASK n) j \<longleftrightarrow> j < 32 \<and> (n mod 32 \<noteq> 0 \<longrightarrow> j < n mod 32)"
proof -
  have "n mod 32 < 32" by simp
  then show ?thesis by (auto simp: BITMAP_LAST_WORD_MASK_def bit_word_simps)
qed

lemma bit_first_mask [bit_word_simps]:
  "bit (BITMAP_FIRST_WORD_MASK s) j \<longleftrightarrow> s mod 32 \<le> j \<and> j < 32"
  by (auto simp: BITMAP_FIRST_WORD_MASK_def bit_word_simps)

lemma BITS_TO_LONGS_le: "BITS_TO_LONGS n \<le> m \<longleftrightarrow> n \<le> 32 * m"
  unfolding BITS_TO_LONGS_def by (simp; arith)

lemma BITS_TO_LONGS_ge: "n \<le> 32 * BITS_TO_LONGS n"
  using BITS_TO_LONGS_le by blast

lemma word_lt_BITS_TO_LONGS: "i < n \<Longrightarrow> i div 32 < BITS_TO_LONGS n"
  using BITS_TO_LONGS_ge [of n] by (simp add: less_mult_imp_div_less mult.commute)

lemma word_cases: "i < n \<Longrightarrow> i div 32 < n div 32 \<or> i div 32 = n div 32 \<and> i mod 32 < n mod (32 :: nat)"
  using div_le_mono [of i n 32] mult_div_mod_eq [of 32 i] mult_div_mod_eq [of 32 n]
  by (metis le_neq_implies_less less_imp_le nat_add_left_cancel_less)

text \<open>Full words and the masked last word together cover exactly the valid bits.\<close>

lemma words_zero_iff:
  fixes f :: "nat \<Rightarrow> ulong"
  shows "(\<forall>k<n div 32. f k = 0) \<and> (n mod 32 \<noteq> 0 \<longrightarrow> f (n div 32) AND BITMAP_LAST_WORD_MASK n = 0)
    \<longleftrightarrow> (\<forall>i<n. \<not> bit (f (i div 32)) (i mod 32))" (is "?L \<longleftrightarrow> ?R")
proof
  assume L: ?L
  show ?R
  proof (intro allI impI)
    fix i assume i: "i < n"
    show "\<not> bit (f (i div 32)) (i mod 32)"
      using word_cases [OF i] L by (auto simp: ulong_eq_0_iff bit_word_simps)
  qed
next
  assume R: ?R
  have "f k = 0" if "k < n div 32" for k
    unfolding ulong_eq_0_iff
  proof (intro allI impI)
    fix j :: nat assume j: "j < 32"
    have "32 * k + j < n" using that j by (simp; arith)
    with R [rule_format, of "32 * k + j"] j show "\<not> bit (f k) j" by simp
  qed
  moreover have "f (n div 32) AND BITMAP_LAST_WORD_MASK n = 0" if "n mod 32 \<noteq> 0"
    unfolding ulong_eq_0_iff
  proof (intro allI impI)
    fix j :: nat assume j: "j < 32"
    show "\<not> bit (f (n div 32) AND BITMAP_LAST_WORD_MASK n) j"
    proof (cases "j < n mod 32")
      case True
      then have "32 * (n div 32) + j < n" by (metis mult_div_mod_eq nat_add_left_cancel_less)
      with R [rule_format, of "32 * (n div 32) + j"] j show ?thesis by (simp add: bit_word_simps)
    qed (use that in \<open>simp add: bit_word_simps\<close>)
  qed
  ultimately show ?L by blast
qed

lemma Ball_below [loop_simps]: "(\<forall>k\<in>{0..<m :: nat}. P k) \<longleftrightarrow> (\<forall>k<m. P k)"
  by auto

lemma Bex_below [loop_simps]: "(\<exists>k\<in>{0..<m :: nat}. P k) \<longleftrightarrow> (\<exists>k<m. P k)"
  by auto

lemma xor_eq_0_iff: "(x :: ulong) XOR y = 0 \<longleftrightarrow> x = y"
  by (simp add: ulong_eq_iff ulong_eq_0_iff bit_word_simps)

lemma xor_mask_eq_0_iff: "((x :: ulong) XOR y) AND m = 0 \<longleftrightarrow> x AND m = y AND m"
  by (auto simp: ulong_eq_iff bit_word_simps)

lemma lib_bitmap_empty_iff: "lib_bitmap_empty bm n \<longleftrightarrow> bits_of bm n = {}"
proof -
  have "lib_bitmap_empty bm n \<longleftrightarrow> (\<forall>i<n. \<not> bit (bm ! (i div 32)) (i mod 32))"
    unfolding words_zero_iff [of n "\<lambda>k. bm ! k", symmetric]
    by (simp add: lib_bitmap_empty_def Let_def list_all_iff list_ex_iff loop_simps)
  then show ?thesis by (auto simp: bits_of_def test_bit_iff bit_word_simps)
qed

lemma lib_bitmap_full_iff: "lib_bitmap_full bm n \<longleftrightarrow> bits_of bm n = {..<n}"
proof -
  have "lib_bitmap_full bm n \<longleftrightarrow> (\<forall>i<n. \<not> bit (NOT (bm ! (i div 32))) (i mod 32))"
    unfolding words_zero_iff [of n "\<lambda>k. NOT (bm ! k)", symmetric]
    by (simp add: lib_bitmap_full_def Let_def list_all_iff list_ex_iff loop_simps)
  then show ?thesis by (auto simp: bits_of_def test_bit_iff bit_word_simps)
qed

lemma lib_bitmap_equal_iff: "lib_bitmap_equal bm1 bm2 n \<longleftrightarrow> bits_of bm1 n = bits_of bm2 n"
proof -
  have "lib_bitmap_equal bm1 bm2 n \<longleftrightarrow> (\<forall>i<n. \<not> bit (bm1 ! (i div 32) XOR bm2 ! (i div 32)) (i mod 32))"
    unfolding words_zero_iff [of n "\<lambda>k. bm1 ! k XOR bm2 ! k", symmetric]
    by (simp add: lib_bitmap_equal_def Let_def list_all_iff list_ex_iff loop_simps xor_eq_0_iff xor_mask_eq_0_iff)
  then show ?thesis by (auto simp: bits_of_def test_bit_iff bit_word_simps)
qed

lemma lib_bitmap_intersects_iff: "lib_bitmap_intersects bm1 bm2 n \<longleftrightarrow> bits_of bm1 n \<inter> bits_of bm2 n \<noteq> {}"
proof -
  have "lib_bitmap_intersects bm1 bm2 n \<longleftrightarrow> \<not> (\<forall>i<n. \<not> bit (bm1 ! (i div 32) AND bm2 ! (i div 32)) (i mod 32))"
    unfolding words_zero_iff [of n "\<lambda>k. bm1 ! k AND bm2 ! k", symmetric]
    by (simp add: lib_bitmap_intersects_def Let_def list_all_iff list_ex_iff loop_simps)
  then show ?thesis by (auto simp: bits_of_def test_bit_iff bit_word_simps)
qed

lemma lib_bitmap_subset_iff: "lib_bitmap_subset bm1 bm2 n \<longleftrightarrow> bits_of bm1 n \<subseteq> bits_of bm2 n"
proof -
  have "lib_bitmap_subset bm1 bm2 n \<longleftrightarrow> (\<forall>i<n. \<not> bit (bm1 ! (i div 32) AND NOT (bm2 ! (i div 32))) (i mod 32))"
    unfolding words_zero_iff [of n "\<lambda>k. bm1 ! k AND NOT (bm2 ! k)", symmetric]
    by (simp add: lib_bitmap_subset_def Let_def list_all_iff list_ex_iff loop_simps)
  then show ?thesis by (auto simp: bits_of_def test_bit_iff bit_word_simps)
qed

lemma card_bits_of_word:
  assumes "m \<le> 32"
  shows "card (bits_of bm (32 * k + m)) = card (bits_of bm (32 * k)) + card {j. j < m \<and> bit (bm ! k) j}"
proof -
  let ?W = "{j. j < m \<and> bit (bm ! k) j}"
  have "i \<in> (+) (32 * k) ` ?W" if "32 * k \<le> i" "i < 32 * k + m" "test_bit i bm" for i
    using that assms test_bit_word [of "i - 32 * k" k bm] by (auto intro!: image_eqI [of _ _ "i - 32 * k"])
  then have "bits_of bm (32 * k + m) \<subseteq> bits_of bm (32 * k) \<union> (+) (32 * k) ` ?W"
    unfolding bits_of_def by (intro subsetI) (simp, meson not_le)
  then have "bits_of bm (32 * k + m) = bits_of bm (32 * k) \<union> (+) (32 * k) ` ?W"
    using assms by (auto simp: bits_of_def test_bit_word)
  moreover have "bits_of bm (32 * k) \<inter> (+) (32 * k) ` ?W = {}" by (auto simp: bits_of_def)
  moreover have "finite (bits_of bm (32 * k))" by (simp add: bits_of_def)
  ultimately show ?thesis by (simp add: card_Un_disjoint card_image)
qed

lemma hweight_long_card: "hweight_long w = card {j. bit w j}"
  by (simp add: hweight_long_def sw_hweight32_correct popcount_def)

lemma weight_words: "fold (\<lambda>k w. w + hweight_long (bm ! k)) [0..<m] 0 = card (bits_of bm (32 * m))"
proof (induction m)
  case 0
  then show ?case by (simp add: bits_of_def)
next
  case (Suc m)
  have "{j. j < 32 \<and> bit (bm ! m) j} = {j. bit (bm ! m) j}" by (auto dest: bit_ulong_lt)
  with Suc card_bits_of_word [of 32 bm m] show ?case by (simp add: hweight_long_card add.commute)
qed

lemma lib_bitmap_weight_card: "lib_bitmap_weight bm n = card (bits_of bm n)"
proof -
  have "{j. j < n mod 32 \<and> bit (bm ! (n div 32)) j} = {j. bit (bm ! (n div 32) AND BITMAP_LAST_WORD_MASK n) j}"
    if "n mod 32 \<noteq> 0" using that by (auto simp: bit_word_simps dest: bit_ulong_lt)
  note last = this
  show ?thesis
  proof (cases "n mod 32 = 0")
    case True
    then have "32 * (n div 32) = n" by auto
    with True show ?thesis by (simp add: lib_bitmap_weight_def Let_def weight_words)
  next
    case False
    have "card (bits_of bm n) = card (bits_of bm (32 * (n div 32))) + card {j. j < n mod 32 \<and> bit (bm ! (n div 32)) j}"
      using card_bits_of_word [of "n mod 32" bm "n div 32"] by simp
    also note last [OF False]
    finally show ?thesis
      using False by (simp add: lib_bitmap_weight_def Let_def weight_words hweight_long_card [of "_ AND _"])
  qed
qed

subsection \<open>Complement and the set operations\<close>

text \<open>A destination of \<open>n\<close> bits has at least \<open>BITS_TO_LONGS n\<close> words.\<close>

lemma word_in_dst: "n \<le> 32 * length dst \<Longrightarrow> i < n \<Longrightarrow> i div 32 < length dst"
  by (simp add: less_mult_imp_div_less mult.commute)

lemma test_bit_fold_words:
  assumes "i < n" "n \<le> 32 * length dst" "BITS_TO_LONGS n \<le> m"
  shows "test_bit i (fold (\<lambda>k d. d[k := g k]) [0..<m] dst) \<longleftrightarrow> bit (g (i div 32)) (i mod 32)"
  using assms word_in_dst [of n dst i] word_lt_BITS_TO_LONGS [of i n]
  by (simp add: test_bit_iff nth_fold_upd)

lemma bits_of_complement:
  assumes "n \<le> 32 * length dst"
  shows "bits_of (lib_bitmap_complement dst src n) n = {..<n} - bits_of src n"
proof -
  have "test_bit i (lib_bitmap_complement dst src n) \<longleftrightarrow> \<not> test_bit i src" if "i < n" for i
  proof -
    have len: "i div 32 < length dst" using word_in_dst [OF assms that] .
    from word_cases [OF that] show ?thesis
    proof
      assume "i div 32 < n div 32"
      with len show ?thesis
        by (simp add: lib_bitmap_complement_def Let_def test_bit_iff nth_fold_upd bit_word_simps)
    next
      assume "i div 32 = n div 32 \<and> i mod 32 < n mod 32"
      with len show ?thesis
        by (simp add: lib_bitmap_complement_def Let_def test_bit_iff bit_word_simps)
    qed
  qed
  then show ?thesis by (auto simp: bits_of_def)
qed

lemma fold_or_result:
  "fold (\<lambda>k (r, d). let v = g k in (r OR v, d[k := v])) ks (r, d)
    = (fold (\<lambda>k r. r OR g k) ks r, fold (\<lambda>k d. d[k := g k]) ks d)"
  by (induction ks arbitrary: r d) (simp_all add: Let_def)

lemma fold_or_eq_0: "fold (\<lambda>k r. r OR g k) ks r = (0 :: ulong) \<longleftrightarrow> r = 0 \<and> (\<forall>k\<in>set ks. g k = 0)"
proof -
  have "x OR y = 0 \<longleftrightarrow> x = 0 \<and> y = 0" for x y :: ulong by (auto simp: ulong_eq_0_iff bit_word_simps)
  then show ?thesis by (induction ks arbitrary: r) auto
qed

lemma bits_of_or:
  assumes "n \<le> 32 * length dst"
  shows "bits_of (lib_bitmap_or dst b1 b2 n) n = bits_of b1 n \<union> bits_of b2 n"
proof -
  have "test_bit i (lib_bitmap_or dst b1 b2 n) \<longleftrightarrow> test_bit i b1 \<or> test_bit i b2" if "i < n" for i
    unfolding lib_bitmap_or_def test_bit_fold_words [OF that assms order_refl]
    using bit_ulong_lt by (auto simp: test_bit_iff bit_word_simps)
  then show ?thesis by (auto simp: bits_of_def)
qed

lemma bits_of_xor:
  assumes "n \<le> 32 * length dst"
  shows "bits_of (lib_bitmap_xor dst b1 b2 n) n = (bits_of b1 n - bits_of b2 n) \<union> (bits_of b2 n - bits_of b1 n)"
proof -
  have "test_bit i (lib_bitmap_xor dst b1 b2 n) \<longleftrightarrow> test_bit i b1 \<noteq> test_bit i b2" if "i < n" for i
    unfolding lib_bitmap_xor_def test_bit_fold_words [OF that assms order_refl]
    using bit_ulong_lt by (auto simp: test_bit_iff bit_word_simps)
  then show ?thesis by (auto simp: bits_of_def)
qed

lemma lib_bitmap_and_eq:
  "lib_bitmap_and dst b1 b2 n = (\<exists>k\<in>set [0..<BITS_TO_LONGS n]. b1 ! k AND b2 ! k \<noteq> 0,
    fold (\<lambda>k d. d[k := b1 ! k AND b2 ! k]) [0..<BITS_TO_LONGS n] dst)"
  unfolding lib_bitmap_and_def fold_or_result Let_def [of "BITS_TO_LONGS n"] prod.case
  by (subst Let_def, simp only: prod.case fold_or_eq_0) simp

lemma lib_bitmap_andnot_eq:
  "lib_bitmap_andnot dst b1 b2 n = (\<exists>k\<in>set [0..<BITS_TO_LONGS n]. b1 ! k AND NOT (b2 ! k) \<noteq> 0,
    fold (\<lambda>k d. d[k := b1 ! k AND NOT (b2 ! k)]) [0..<BITS_TO_LONGS n] dst)"
  unfolding lib_bitmap_andnot_def fold_or_result Let_def [of "BITS_TO_LONGS n"] prod.case
  by (subst Let_def, simp only: prod.case fold_or_eq_0) simp

lemma bits_of_and:
  assumes "n \<le> 32 * length dst"
  shows "bits_of (snd (lib_bitmap_and dst b1 b2 n)) n = bits_of b1 n \<inter> bits_of b2 n"
proof -
  have "test_bit i (snd (lib_bitmap_and dst b1 b2 n)) \<longleftrightarrow> test_bit i b1 \<and> test_bit i b2" if "i < n" for i
    unfolding lib_bitmap_and_eq snd_conv test_bit_fold_words [OF that assms order_refl]
    using bit_ulong_lt by (auto simp: test_bit_iff bit_word_simps)
  then show ?thesis by (auto simp: bits_of_def)
qed

lemma bits_of_andnot:
  assumes "n \<le> 32 * length dst"
  shows "bits_of (snd (lib_bitmap_andnot dst b1 b2 n)) n = bits_of b1 n - bits_of b2 n"
proof -
  have "test_bit i (snd (lib_bitmap_andnot dst b1 b2 n)) \<longleftrightarrow> test_bit i b1 \<and> \<not> test_bit i b2" if "i < n" for i
    unfolding lib_bitmap_andnot_eq snd_conv test_bit_fold_words [OF that assms order_refl]
    using bit_ulong_lt by (auto simp: test_bit_iff bit_word_simps)
  then show ?thesis by (auto simp: bits_of_def)
qed

text \<open>
  The value that \<^verbatim>\<open>__bitmap_and\<close> returns is computed from whole words: it covers the unused bits of
  the last word as well.
\<close>

lemma words_zero_all: "(\<forall>k<m. f k = (0 :: ulong)) \<longleftrightarrow> (\<forall>i<32 * m. \<not> bit (f (i div 32)) (i mod 32))"
proof
  assume "\<forall>k<m. f k = 0"
  then show "\<forall>i<32 * m. \<not> bit (f (i div 32)) (i mod 32)" by (simp add: less_mult_imp_div_less mult.commute)
next
  assume *: "\<forall>i<32 * m. \<not> bit (f (i div 32)) (i mod 32)"
  have "\<not> bit (f k) j" if "k < m" "j < 32" for k j
    using * [rule_format, of "32 * k + j"] that by simp
  then show "\<forall>k<m. f k = 0" by (simp add: ulong_eq_0_iff)
qed

lemma lib_bitmap_and_result:
  "fst (lib_bitmap_and dst b1 b2 n) \<longleftrightarrow>
    bits_of b1 (32 * BITS_TO_LONGS n) \<inter> bits_of b2 (32 * BITS_TO_LONGS n) \<noteq> {}"
proof -
  have "fst (lib_bitmap_and dst b1 b2 n) \<longleftrightarrow> \<not> (\<forall>k<BITS_TO_LONGS n. b1 ! k AND b2 ! k = 0)"
    by (simp add: lib_bitmap_and_eq loop_simps)
  then show ?thesis
    unfolding words_zero_all by (simp add: bits_of_def test_bit_iff bit_word_simps set_eq_iff subset_iff)
qed

lemma lib_bitmap_andnot_result:
  "fst (lib_bitmap_andnot dst b1 b2 n) \<longleftrightarrow>
    \<not> bits_of b1 (32 * BITS_TO_LONGS n) \<subseteq> bits_of b2 (32 * BITS_TO_LONGS n)"
proof -
  have "fst (lib_bitmap_andnot dst b1 b2 n) \<longleftrightarrow> \<not> (\<forall>k<BITS_TO_LONGS n. b1 ! k AND NOT (b2 ! k) = 0)"
    by (simp add: lib_bitmap_andnot_eq loop_simps)
  then show ?thesis
    unfolding words_zero_all by (simp add: bits_of_def test_bit_iff bit_word_simps set_eq_iff subset_iff)
qed


subsection \<open>Shifts\<close>

lemma nth_fold_upd_other: "j \<notin> set ks \<Longrightarrow> fold (\<lambda>k d. d[k := g k]) ks d ! j = d ! j"
  by (induction ks arbitrary: d) simp_all

lemma fold_upd_up_cong:
  assumes "\<And>d d' k. (\<And>j. k \<le> j \<Longrightarrow> d ! j = d' ! j) \<Longrightarrow> g d k = g d' k"
  shows "fold (\<lambda>k d. d[k := g d k]) [0..<m] dst = fold (\<lambda>k d. d[k := g dst k]) [0..<m] dst"
proof (induction m)
  case (Suc m)
  have "g (fold (\<lambda>k d. d[k := g dst k]) [0..<m] dst) m = g dst m"
    by (rule assms) (simp add: nth_fold_upd_other)
  with Suc show ?case by simp
qed simp

lemma fold_upd_down_cong:
  assumes "\<And>d d' k. (\<And>j. j \<le> k \<Longrightarrow> d ! j = d' ! j) \<Longrightarrow> g d k = g d' k"
    and "\<And>j. j < m \<Longrightarrow> d ! j = dst ! j"
  shows "fold (\<lambda>k d. d[k + off := g d k]) (rev [0..<m]) d = fold (\<lambda>k d. d[k + off := g dst k]) (rev [0..<m]) d"
  using assms(2)
proof (induction m arbitrary: d)
  case (Suc m)
  have "g d m = g dst m" by (rule assms(1)) (simp add: Suc.prems)
  with Suc show ?case by (simp add: nth_list_update_neq)
qed simp

lemma length_fold_upd_down [simp]: "length (fold (\<lambda>k d. d[k + off := g k]) ks d) = length d"
  by (induction ks arbitrary: d) simp_all

lemma nth_fold_upd_down:
  "j < length d \<Longrightarrow> fold (\<lambda>k d. d[k + off := g k]) (rev [0..<m]) d ! j
    = (if off \<le> j \<and> j < m + off then g (j - off) else d ! j)"
  by (induction m arbitrary: d) (auto simp: nth_list_update less_Suc_eq)

definition masked_word :: "nat \<Rightarrow> nat \<Rightarrow> ulong \<Rightarrow> ulong" where
  "masked_word n k w = (if n mod 32 \<noteq> 0 \<and> k = BITS_TO_LONGS n - 1 then w AND (push_bit (n mod 32) 1 - 1) else w)"

lemma bit_masked_word:
  assumes "k < BITS_TO_LONGS n" "j < 32"
  shows "bit (masked_word n k w) j \<longleftrightarrow> bit w j \<and> 32 * k + j < n"
proof -
  define q r where "q = n div 32" and "r = n mod 32"
  have n: "n = 32 * q + r" and r: "r < 32" by (simp_all add: q_def r_def)
  have "BITS_TO_LONGS n = (if r = 0 then q else q + 1)"
    unfolding BITS_TO_LONGS_def n using r by auto
  with assms show ?thesis unfolding masked_word_def r_def [symmetric]
    unfolding n using r by (auto simp: bit_word_simps bit_mask_below)
qed


lemma shift_right_inplace:
  "lib_bitmap_shift_right True dst src shift bits = lib_bitmap_shift_right False dst dst shift bits"
proof -
  have "shift_right_word shift bits d k = shift_right_word shift bits d' k"
    if "\<And>j. k \<le> j \<Longrightarrow> d ! j = d' ! j" for d d' :: "ulong list" and k
    using that [of "shift div 32 + k"] that [of "shift div 32 + k + 1"]
    unfolding shift_right_word_def Let_def add.assoc by (simp only: le_add2 trans_le_add2 le_add1)
  from fold_upd_up_cong [of "shift_right_word shift bits", OF this] show ?thesis
    by (simp add: lib_bitmap_shift_right_def Let_def shift_src_def)
qed

lemma shift_left_inplace:
  "lib_bitmap_shift_left True dst src shift bits = lib_bitmap_shift_left False dst dst shift bits"
proof -
  have "shift_left_word shift bits d k = shift_left_word shift bits d' k"
    if "\<And>j. j \<le> k \<Longrightarrow> d ! j = d' ! j" for d d' :: "ulong list" and k
    using that [of k] that [of "k - 1"] unfolding shift_left_word_def Let_def by (simp only: le_refl diff_le_self)
  from fold_upd_down_cong [of "shift_left_word shift bits" _ dst dst, OF this refl] show ?thesis
    by (simp add: lib_bitmap_shift_left_def Let_def shift_src_def)
qed

lemma bit_two_words:
  assumes "j < 32" "rem < 32"
  shows "bit (push_bit (32 - rem) u OR drop_bit rem (l :: ulong)) j
    \<longleftrightarrow> (if j + rem < 32 then bit l (j + rem) else bit u (j + rem - 32))"
  using assms by (auto simp: bit_word_simps add.commute dest: bit_ulong_lt)

lemma bit_shift_right_word:
  assumes "shift div 32 + k < BITS_TO_LONGS n" "j < 32"
  shows "bit (shift_right_word shift n src k) j \<longleftrightarrow> 32 * k + j + shift < n \<and> test_bit (32 * k + j + shift) src"
proof -
  define off rem where "off = shift div 32" and "rem = shift mod 32"
  have shift: "shift = 32 * off + rem" and rem: "rem < 32" by (simp_all add: off_def rem_def)
  define u where "u = (if rem = 0 \<or> off + k + 1 \<ge> BITS_TO_LONGS n then 0 else masked_word n (off + k + 1) (src ! (off + k + 1)))"
  define w where "w = push_bit (32 - rem) u OR drop_bit rem (masked_word n (off + k) (src ! (off + k)))"
  have "shift_right_word shift n src k = masked_word n k w"
    unfolding shift_right_word_def Let_def off_def [symmetric] rem_def [symmetric] w_def u_def masked_word_def
    by (simp only: conj_commute [of "n mod 32 \<noteq> 0"])
  moreover have "bit (masked_word n k w) j \<longleftrightarrow> bit w j \<and> 32 * k + j < n"
    using assms by (intro bit_masked_word) simp_all
  moreover have "bit w j \<longleftrightarrow> 32 * k + j + shift < n \<and> test_bit (32 * k + j + shift) src"
  proof (cases "j + rem < 32")
    case True
    then have "bit w j \<longleftrightarrow> bit (src ! (off + k)) (j + rem) \<and> 32 * (off + k) + (j + rem) < n"
      unfolding w_def using assms rem by (simp add: bit_two_words bit_masked_word off_def)
    moreover have "32 * k + j + shift = 32 * (off + k) + (j + rem)" by (simp add: shift)
    ultimately show ?thesis using True by (simp only: test_bit_word conj_commute)
  next
    case False
    then have eq: "32 * k + j + shift = 32 * (off + k + 1) + (j + rem - 32)" and lt: "j + rem - 32 < 32" and r0: "rem \<noteq> 0"
      using rem assms by (auto simp: shift)
    from False have w: "bit w j \<longleftrightarrow> bit u (j + rem - 32)"
      unfolding w_def using assms rem by (simp add: bit_two_words)
    show ?thesis
    proof (cases "off + k + 1 < BITS_TO_LONGS n")
      case True
      then have "u = masked_word n (off + k + 1) (src ! (off + k + 1))" using r0 by (simp add: u_def)
      with True lt have "bit u (j + rem - 32) \<longleftrightarrow> bit (src ! (off + k + 1)) (j + rem - 32) \<and> 32 * (off + k + 1) + (j + rem - 32) < n"
        by (simp only: bit_masked_word)
      then show ?thesis unfolding w eq using lt by (simp only: test_bit_word conj_commute)
    next
      case F: False
      then have "n \<le> 32 * (off + k + 1)" using BITS_TO_LONGS_le by (metis not_less)
      with F show ?thesis unfolding w eq u_def by simp
    qed
  qed
  ultimately show ?thesis by auto
qed


lemma bit_shift_left_word:
  assumes "k + shift div 32 < BITS_TO_LONGS n" "j < 32"
  shows "bit (shift_left_word shift n src k) j \<longleftrightarrow> 32 * (k + shift div 32) + j < n \<and> shift \<le> 32 * (k + shift div 32) + j
    \<and> test_bit (32 * (k + shift div 32) + j - shift) src"
proof -
  define off rem where "off = shift div 32" and "rem = shift mod 32"
  have shift: "shift = 32 * off + rem" and rem: "rem < 32" by (simp_all add: off_def rem_def)
  define l where "l = (if rem \<noteq> 0 \<and> k > 0 then src ! (k - 1) else 0)"
  define w where "w = drop_bit (32 - rem) l OR push_bit rem (masked_word n k (src ! k))"
  have "shift_left_word shift n src k = masked_word n (k + off) w"
    unfolding shift_left_word_def Let_def off_def [symmetric] rem_def [symmetric] w_def l_def masked_word_def ..
  moreover have "bit (masked_word n (k + off) w) j \<longleftrightarrow> bit w j \<and> 32 * (k + off) + j < n"
    using assms by (intro bit_masked_word) (simp_all add: off_def)
  moreover have "bit w j \<longleftrightarrow> shift \<le> 32 * (k + off) + j \<and> test_bit (32 * (k + off) + j - shift) src"
    if n: "32 * (k + off) + j < n"
  proof (cases "rem \<le> j")
    case True
    have "bit (masked_word n k (src ! k)) (j - rem) \<longleftrightarrow> bit (src ! k) (j - rem) \<and> 32 * k + (j - rem) < n"
      using assms by (intro bit_masked_word) simp_all
    then have "bit w j \<longleftrightarrow> bit (src ! k) (j - rem)"
      unfolding w_def using True assms n by (auto simp: bit_word_simps l_def dest: bit_ulong_lt)
    moreover have "32 * (k + off) + j - shift = 32 * k + (j - rem)" "shift \<le> 32 * (k + off) + j" using True by (simp_all add: shift)
    ultimately show ?thesis using assms by (simp add: test_bit_word)
  next
    case False
    then have w: "bit w j \<longleftrightarrow> bit l (j + (32 - rem))" unfolding w_def by (simp add: bit_word_simps add.commute)
    show ?thesis
    proof (cases k)
      case 0
      with False w show ?thesis by (simp add: l_def shift)
    next
      case (Suc k')
      have "32 * (k + off) + j - shift = 32 * k' + (j + (32 - rem))" "shift \<le> 32 * (k + off) + j" "j + (32 - rem) < 32"
        using False rem by (simp_all add: shift Suc)
      with w False Suc show ?thesis by (simp add: l_def test_bit_word)
    qed
  qed
  ultimately show ?thesis unfolding off_def [symmetric] by auto
qed

lemma test_bit_shift_right:
  assumes "shift div 32 \<le> BITS_TO_LONGS n" "n \<le> 32 * length dst" "i < 32 * BITS_TO_LONGS n"
  shows "test_bit i (lib_bitmap_shift_right False dst src shift n) \<longleftrightarrow> i + shift < n \<and> test_bit (i + shift) src"
proof -
  let ?k = "i div 32" and ?j = "i mod 32"
  have len: "?k < length dst" and lim: "?k < BITS_TO_LONGS n"
    using assms BITS_TO_LONGS_le [of n "length dst"] by (auto simp: less_mult_imp_div_less mult.commute)
  have i: "32 * ?k + ?j = i" by simp
  show ?thesis
  proof (cases "shift div 32 + ?k < BITS_TO_LONGS n")
    case True
    then have "?k < BITS_TO_LONGS n - shift div 32" by simp
    with len have "lib_bitmap_shift_right False dst src shift n ! ?k = shift_right_word shift n src ?k"
      by (auto simp: lib_bitmap_shift_right_def Let_def shift_src_def nth_fold_upd)
    with bit_shift_right_word [OF True, of ?j src] show ?thesis unfolding i by (simp add: test_bit_iff)
  next
    case False
    then have "lib_bitmap_shift_right False dst src shift n ! ?k = 0"
      using len lim by (auto simp: lib_bitmap_shift_right_def Let_def shift_src_def nth_fold_upd)
    moreover have "n \<le> i + shift"
    proof -
      have "n \<le> 32 * (shift div 32 + ?k)" using False by (simp only: not_less BITS_TO_LONGS_le)
      also have "\<dots> \<le> i + shift"
        using add_mono [OF times_div_less_eq_dividend [of 32 shift] times_div_less_eq_dividend [of 32 i]]
        by (simp only: distrib_left add.commute)
      finally show ?thesis .
    qed
    ultimately show ?thesis by (simp add: test_bit_iff)
  qed
qed

lemma test_bit_shift_left:
  assumes "shift div 32 \<le> BITS_TO_LONGS n" "n \<le> 32 * length dst" "i < 32 * BITS_TO_LONGS n"
  shows "test_bit i (lib_bitmap_shift_left False dst src shift n) \<longleftrightarrow> i < n \<and> shift \<le> i \<and> test_bit (i - shift) src"
proof -
  let ?k = "i div 32" and ?j = "i mod 32" and ?off = "shift div 32"
  have len: "?k < length dst" and lim: "?k < BITS_TO_LONGS n"
    using assms BITS_TO_LONGS_le [of n "length dst"] by (auto simp: less_mult_imp_div_less mult.commute)
  have i: "32 * ?k + ?j = i" by simp
  show ?thesis
  proof (cases "?off \<le> ?k")
    case True
    with len lim have "lib_bitmap_shift_left False dst src shift n ! ?k = shift_left_word shift n src (?k - ?off)"
      by (simp add: lib_bitmap_shift_left_def Let_def shift_src_def nth_fold_upd nth_fold_upd_down less_diff_conv)
    with True lim bit_shift_left_word [of "?k - ?off" shift n ?j src] show ?thesis by (simp add: test_bit_iff)
  next
    case False
    then have "lib_bitmap_shift_left False dst src shift n ! ?k = 0"
      using len by (simp add: lib_bitmap_shift_left_def Let_def shift_src_def nth_fold_upd)
    moreover have "i < shift" using False by (metis div_le_mono not_less)
    ultimately show ?thesis by (simp add: test_bit_iff)
  qed
qed


subsection \<open>Setting and clearing ranges\<close>

lemma test_bit_upd_word:
  "i < 32 * length bm \<Longrightarrow> test_bit i (bm[p := w]) \<longleftrightarrow> (if i div 32 = p then bit w (i mod 32) else test_bit i bm)"
  by (auto simp: test_bit_iff nth_list_update less_mult_imp_div_less mult.commute)

lemma word_position: "32 * p \<le> i \<and> i < 32 * p + 32 \<longleftrightarrow> i div 32 = (p :: nat)"
  by auto

text \<open>The bits of word \<open>p\<close> between two offsets are the bit numbers of an interval.\<close>

lemma in_word_interval:
  assumes "a < 32" "b \<le> 32"
  shows "i div 32 = p \<and> a \<le> i mod 32 \<and> i mod 32 < b \<longleftrightarrow> 32 * p + a \<le> i \<and> i < 32 * p + (b :: nat)"
proof -
  define q r where "q = i div 32" and "r = i mod 32"
  have i: "i = 32 * q + r" and "r < 32" by (simp_all add: q_def r_def)
  have "q = p" if "32 * p + a \<le> i" "i < 32 * p + b"
    using that assms word_position [of p i] by (simp add: q_def)
  then show ?thesis unfolding q_def [symmetric] r_def [symmetric] unfolding i by auto
qed

lemma test_bit_set_loop:
  assumes "0 < b" "b \<le> 32" "\<And>j. bit m j \<longleftrightarrow> 32 - b \<le> j \<and> j < 32" "sz = 32 * p + (32 - b) + nr" "i < 32 * length bm"
  shows "test_bit i (bitmap_set_loop bm p sz nr b m) \<longleftrightarrow> test_bit i bm \<or> 32 * p + (32 - b) \<le> i \<and> i < sz"
  using assms
proof (induction bm p sz nr b m rule: bitmap_set_loop.induct)
  case (1 bm p sz nr b m)
  have word: "i div 32 = p \<and> bit m (i mod 32) \<longleftrightarrow> 32 * p + (32 - b) \<le> i \<and> i < 32 * p + 32"
    using 1(2,3,4) in_word_interval [of "32 - b" 32 i p] by auto
  show ?case
  proof (cases "b \<le> nr")
    case True
    have "test_bit i (bitmap_set_loop (bm[p := bm ! p OR m]) (p + 1) sz (nr - b) 32 (NOT 0)) \<longleftrightarrow>
        test_bit i (bm[p := bm ! p OR m]) \<or> 32 * (p + 1) + (32 - 32) \<le> i \<and> i < sz"
      by (rule 1(1)) (use True 1 in \<open>auto simp: bit_word_simps\<close>)
    then have "test_bit i (bitmap_set_loop bm p sz nr b m) \<longleftrightarrow>
        test_bit i (bm[p := bm ! p OR m]) \<or> 32 * (p + 1) \<le> i \<and> i < sz"
      using True 1(2) by (subst bitmap_set_loop.simps) simp
    also have "test_bit i (bm[p := bm ! p OR m]) \<longleftrightarrow> test_bit i bm \<or> i div 32 = p \<and> bit m (i mod 32)"
      unfolding test_bit_upd_word [OF 1(6)] by (auto simp: test_bit_iff bit_word_simps)
    finally show ?thesis unfolding word using True 1(2,3,5) by auto
  next
    case False
    show ?thesis
    proof (cases "nr = 0")
      case True
      with False 1(2,5) show ?thesis by (subst bitmap_set_loop.simps) auto
    next
      case nr: False
      have sz: "sz = 32 * p + (32 - b + nr)" using 1(5) by simp
      moreover have "32 - b + nr < 32" using 1(2,3) False by simp
      ultimately have md: "sz mod 32 = 32 - b + nr" by simp
      have "bitmap_set_loop bm p sz nr b m = bm[p := bm ! p OR (m AND BITMAP_LAST_WORD_MASK sz)]"
        using False nr by (subst bitmap_set_loop.simps) simp
      then have "test_bit i (bitmap_set_loop bm p sz nr b m) \<longleftrightarrow>
          test_bit i bm \<or> i div 32 = p \<and> 32 - b \<le> i mod 32 \<and> i mod 32 < 32 - b + nr"
        using 1(2,3,4) False nr md by (auto simp: test_bit_upd_word [OF 1(6)] test_bit_iff [of _ bm] bit_word_simps)
      also have "i div 32 = p \<and> 32 - b \<le> i mod 32 \<and> i mod 32 < 32 - b + nr \<longleftrightarrow> 32 * p + (32 - b) \<le> i \<and> i < sz"
        unfolding sz using 1(2,3) False by (intro in_word_interval) auto
      finally show ?thesis .
    qed
  qed
qed

lemma test_bit_clear_loop:
  assumes "0 < b" "b \<le> 32" "\<And>j. bit m j \<longleftrightarrow> 32 - b \<le> j \<and> j < 32" "sz = 32 * p + (32 - b) + nr" "i < 32 * length bm"
  shows "test_bit i (bitmap_clear_loop bm p sz nr b m) \<longleftrightarrow> test_bit i bm \<and> \<not> (32 * p + (32 - b) \<le> i \<and> i < sz)"
  using assms
proof (induction bm p sz nr b m rule: bitmap_clear_loop.induct)
  case (1 bm p sz nr b m)
  have word: "i div 32 = p \<and> bit m (i mod 32) \<longleftrightarrow> 32 * p + (32 - b) \<le> i \<and> i < 32 * p + 32"
    using 1(2,3,4) in_word_interval [of "32 - b" 32 i p] by auto
  show ?case
  proof (cases "b \<le> nr")
    case True
    have "test_bit i (bitmap_clear_loop (bm[p := bm ! p AND NOT m]) (p + 1) sz (nr - b) 32 (NOT 0)) \<longleftrightarrow>
        test_bit i (bm[p := bm ! p AND NOT m]) \<and> \<not> (32 * (p + 1) + (32 - 32) \<le> i \<and> i < sz)"
      by (rule 1(1)) (use True 1 in \<open>auto simp: bit_word_simps\<close>)
    then have "test_bit i (bitmap_clear_loop bm p sz nr b m) \<longleftrightarrow>
        test_bit i (bm[p := bm ! p AND NOT m]) \<and> \<not> (32 * (p + 1) \<le> i \<and> i < sz)"
      using True 1(2) by (subst bitmap_clear_loop.simps) simp
    also have "test_bit i (bm[p := bm ! p AND NOT m]) \<longleftrightarrow> test_bit i bm \<and> \<not> (i div 32 = p \<and> bit m (i mod 32))"
      unfolding test_bit_upd_word [OF 1(6)] by (auto simp: test_bit_iff bit_word_simps)
    finally show ?thesis unfolding word using True 1(2,3,5) by auto
  next
    case False
    show ?thesis
    proof (cases "nr = 0")
      case True
      with False 1(2,5) show ?thesis by (subst bitmap_clear_loop.simps) auto
    next
      case nr: False
      have sz: "sz = 32 * p + (32 - b + nr)" using 1(5) by simp
      moreover have "32 - b + nr < 32" using 1(2,3) False by simp
      ultimately have md: "sz mod 32 = 32 - b + nr" by simp
      have "bitmap_clear_loop bm p sz nr b m = bm[p := bm ! p AND NOT (m AND BITMAP_LAST_WORD_MASK sz)]"
        using False nr by (subst bitmap_clear_loop.simps) simp
      then have "test_bit i (bitmap_clear_loop bm p sz nr b m) \<longleftrightarrow>
          test_bit i bm \<and> \<not> (i div 32 = p \<and> 32 - b \<le> i mod 32 \<and> i mod 32 < 32 - b + nr)"
        using 1(2,3,4) False nr md by (auto simp: test_bit_upd_word [OF 1(6)] test_bit_iff [of _ bm] bit_word_simps)
      also have "i div 32 = p \<and> 32 - b \<le> i mod 32 \<and> i mod 32 < 32 - b + nr \<longleftrightarrow> 32 * p + (32 - b) \<le> i \<and> i < sz"
        unfolding sz using 1(2,3) False by (intro in_word_interval) auto
      finally show ?thesis .
    qed
  qed
qed

lemma test_bit_bitmap_set:
  "i < 32 * length bm \<Longrightarrow> test_bit i (bitmap_set bm start nr) \<longleftrightarrow> test_bit i bm \<or> start \<le> i \<and> i < start + nr"
  unfolding bitmap_set_def by (subst test_bit_set_loop) (auto simp: bit_word_simps BIT_WORD_def)

lemma test_bit_bitmap_clear:
  "i < 32 * length bm \<Longrightarrow> test_bit i (bitmap_clear bm start nr) \<longleftrightarrow> test_bit i bm \<and> \<not> (start \<le> i \<and> i < start + nr)"
  unfolding bitmap_clear_def by (subst test_bit_clear_loop) (auto simp: bit_word_simps BIT_WORD_def)

lemma length_bitmap_set_loop [simp]: "length (bitmap_set_loop bm p sz nr b m) = length bm"
  by (induction bm p sz nr b m rule: bitmap_set_loop.induct) (subst bitmap_set_loop.simps, simp)

lemma length_bitmap_clear_loop [simp]: "length (bitmap_clear_loop bm p sz nr b m) = length bm"
  by (induction bm p sz nr b m rule: bitmap_clear_loop.induct) (subst bitmap_clear_loop.simps, simp)

lemma length_bitmap_set [simp]: "length (bitmap_set bm start nr) = length bm"
  by (simp add: bitmap_set_def)

lemma length_bitmap_clear [simp]: "length (bitmap_clear bm start nr) = length bm"
  by (simp add: bitmap_clear_def)

section \<open>Properties\<close>

text \<open>The comparisons of \<^verbatim>\<open>lib/bitmap.c\<close> decide the relations between the sets of valid bits:
  \<^verbatim>\<open>__bitmap_empty\<close>, \<^verbatim>\<open>__bitmap_full\<close>, \<^verbatim>\<open>__bitmap_equal\<close>, \<^verbatim>\<open>__bitmap_intersects\<close> and
  \<^verbatim>\<open>__bitmap_subset\<close> never depend on the unused bits of the last word, and \<^verbatim>\<open>__bitmap_weight\<close> counts
  the valid bits.\<close>

theorem bitmap_comparisons_correct:
  "(lib_bitmap_empty a n \<longleftrightarrow> bits_of a n = {}) \<and> (lib_bitmap_full a n \<longleftrightarrow> bits_of a n = {..<n})
   \<and> (lib_bitmap_equal a b n \<longleftrightarrow> bits_of a n = bits_of b n)
   \<and> (lib_bitmap_intersects a b n \<longleftrightarrow> bits_of a n \<inter> bits_of b n \<noteq> {})
   \<and> (lib_bitmap_subset a b n \<longleftrightarrow> bits_of a n \<subseteq> bits_of b n)
   \<and> lib_bitmap_weight a n = card (bits_of a n)"
  by (simp add: lib_bitmap_empty_iff lib_bitmap_full_iff lib_bitmap_equal_iff lib_bitmap_intersects_iff
      lib_bitmap_subset_iff lib_bitmap_weight_card)

text \<open>C19: The logical operations of \<^verbatim>\<open>lib/bitmap.c\<close> implement union, intersection, difference,
  symmetric difference and complement of the sets of valid bits, \<^verbatim>\<open>bitmap_set\<close> and
  \<^verbatim>\<open>bitmap_clear\<close> add and remove an interval; the value that \<^verbatim>\<open>__bitmap_and\<close> returns is about all bits of
  the words that \<open>n\<close> bits need, the unused ones included.\<close>

theorem bitmap_operations_correct:
  assumes "n \<le> 32 * length dst"
  shows "bits_of (lib_bitmap_or dst a b n) n = bits_of a n \<union> bits_of b n
    \<and> bits_of (snd (lib_bitmap_and dst a b n)) n = bits_of a n \<inter> bits_of b n
    \<and> bits_of (snd (lib_bitmap_andnot dst a b n)) n = bits_of a n - bits_of b n
    \<and> bits_of (lib_bitmap_xor dst a b n) n = (bits_of a n - bits_of b n) \<union> (bits_of b n - bits_of a n)
    \<and> bits_of (lib_bitmap_complement dst a n) n = {..<n} - bits_of a n
    \<and> bits_of (bitmap_set dst start nr) n = bits_of dst n \<union> ({start..<start + nr} \<inter> {..<n})
    \<and> bits_of (bitmap_clear dst start nr) n = bits_of dst n - {start..<start + nr}
    \<and> (fst (lib_bitmap_and dst a b n) \<longleftrightarrow> bits_of a (32 * BITS_TO_LONGS n) \<inter> bits_of b (32 * BITS_TO_LONGS n) \<noteq> {})"
proof -
  have "bits_of (bitmap_set dst start nr) n = bits_of dst n \<union> ({start..<start + nr} \<inter> {..<n})"
    and "bits_of (bitmap_clear dst start nr) n = bits_of dst n - {start..<start + nr}"
    using assms by (auto simp: bits_of_def test_bit_bitmap_set test_bit_bitmap_clear)
  with assms show ?thesis
    by (simp add: bits_of_or bits_of_and bits_of_andnot bits_of_xor bits_of_complement lib_bitmap_and_result)
qed

theorem bitmap_operations_correct_witness:
  "bits_of (lib_bitmap_or [0, 0] [5, 1] [2, 2] 40) 40 = bits_of [5, 1] 40 \<union> bits_of [2, 2] 40"
  using bitmap_operations_correct [of 40 "[0, 0]" "[5, 1]" "[2, 2]" 3 7] by simp

text \<open>C18: The bitmap shifts move every bit by \<open>shift\<close> positions, feed in zeros and drop what leaves the
  \<open>n\<close> valid bits, for every offset and width; this also holds when the destination is the source, where
  each iteration reads words that the loop is about to overwrite.\<close>

theorem bitmap_shift_correct:
  assumes "shift div 32 \<le> BITS_TO_LONGS n" "n \<le> 32 * length dst" "i < n"
  shows "(test_bit i (lib_bitmap_shift_right False dst src shift n) \<longleftrightarrow> i + shift < n \<and> test_bit (i + shift) src)
    \<and> (test_bit i (lib_bitmap_shift_left False dst src shift n) \<longleftrightarrow> shift \<le> i \<and> test_bit (i - shift) src)
    \<and> (test_bit i (lib_bitmap_shift_right True dst dst shift n) \<longleftrightarrow> i + shift < n \<and> test_bit (i + shift) dst)
    \<and> (test_bit i (lib_bitmap_shift_left True dst dst shift n) \<longleftrightarrow> shift \<le> i \<and> test_bit (i - shift) dst)"
proof -
  have "i < 32 * BITS_TO_LONGS n" using assms(3) BITS_TO_LONGS_ge [of n] by simp
  with assms show ?thesis
    by (simp add: shift_right_inplace shift_left_inplace test_bit_shift_right test_bit_shift_left)
qed

theorem bitmap_shift_correct_witness:
  "test_bit 35 (lib_bitmap_shift_left True [4, 0, 0] [4, 0, 0] 33 70)"
  using bitmap_shift_correct [of 33 70 "[4, 0, 0]" 35]
  by (simp add: BITS_TO_LONGS_def test_bit_iff)

end
