(* ===== verification/Bitmap_Inline.thy ===== *)
theory Bitmap_Inline
  imports Bitmap
begin

text \<open>
  The inline functions of \<^verbatim>\<open>include/linux/bitmap.h\<close>. Each has a one-word path that the compiler takes
  when the size is a constant of at most one word (\<^verbatim>\<open>small_const_nbits\<close>); that the size is a constant is
  the parameter \<open>cst\<close>.
\<close>

unbundle bit_operations_syntax

section \<open>The inline functions\<close>

definition small_const_nbits :: "bool \<Rightarrow> nat \<Rightarrow> bool" where
  "small_const_nbits cst nbits \<longleftrightarrow> cst \<and> nbits \<le> BITS_PER_LONG"

definition bitmap_zero :: "bool \<Rightarrow> ulong list \<Rightarrow> nat \<Rightarrow> ulong list" where
  "bitmap_zero cst dst nbits =
    (if small_const_nbits cst nbits then dst[0 := 0]
     else fold (\<lambda>k d. d[k := 0]) [0..<BITS_TO_LONGS nbits] dst)"

definition bitmap_fill :: "bool \<Rightarrow> ulong list \<Rightarrow> nat \<Rightarrow> ulong list" where
  "bitmap_fill cst dst nbits =
    (let nlongs = BITS_TO_LONGS nbits;
         dst = (if \<not> small_const_nbits cst nbits
                then fold (\<lambda>k d. d[k := NOT 0]) [0..<nlongs - 1] dst else dst)
     in dst[nlongs - 1 := BITMAP_LAST_WORD_MASK nbits])"

definition bitmap_copy :: "bool \<Rightarrow> ulong list \<Rightarrow> ulong list \<Rightarrow> nat \<Rightarrow> ulong list" where
  "bitmap_copy cst dst src nbits =
    (if small_const_nbits cst nbits then dst[0 := src ! 0]
     else fold (\<lambda>k d. d[k := src ! k]) [0..<BITS_TO_LONGS nbits] dst)"

definition bitmap_and :: "bool \<Rightarrow> ulong list \<Rightarrow> ulong list \<Rightarrow> ulong list \<Rightarrow> nat \<Rightarrow> bool \<times> ulong list" where
  "bitmap_and cst dst src1 src2 nbits =
    (if small_const_nbits cst nbits then let v = src1 ! 0 AND src2 ! 0 in (v \<noteq> 0, dst[0 := v])
     else lib_bitmap_and dst src1 src2 nbits)"

definition bitmap_or :: "bool \<Rightarrow> ulong list \<Rightarrow> ulong list \<Rightarrow> ulong list \<Rightarrow> nat \<Rightarrow> ulong list" where
  "bitmap_or cst dst src1 src2 nbits =
    (if small_const_nbits cst nbits then dst[0 := src1 ! 0 OR src2 ! 0]
     else lib_bitmap_or dst src1 src2 nbits)"

definition bitmap_xor :: "bool \<Rightarrow> ulong list \<Rightarrow> ulong list \<Rightarrow> ulong list \<Rightarrow> nat \<Rightarrow> ulong list" where
  "bitmap_xor cst dst src1 src2 nbits =
    (if small_const_nbits cst nbits then dst[0 := src1 ! 0 XOR src2 ! 0]
     else lib_bitmap_xor dst src1 src2 nbits)"

definition bitmap_andnot :: "bool \<Rightarrow> ulong list \<Rightarrow> ulong list \<Rightarrow> ulong list \<Rightarrow> nat \<Rightarrow> bool \<times> ulong list" where
  "bitmap_andnot cst dst src1 src2 nbits =
    (if small_const_nbits cst nbits then let v = src1 ! 0 AND NOT (src2 ! 0) in (v \<noteq> 0, dst[0 := v])
     else lib_bitmap_andnot dst src1 src2 nbits)"

definition bitmap_complement :: "bool \<Rightarrow> ulong list \<Rightarrow> ulong list \<Rightarrow> nat \<Rightarrow> ulong list" where
  "bitmap_complement cst dst src nbits =
    (if small_const_nbits cst nbits then dst[0 := NOT (src ! 0) AND BITMAP_LAST_WORD_MASK nbits]
     else lib_bitmap_complement dst src nbits)"

definition bitmap_equal :: "bool \<Rightarrow> ulong list \<Rightarrow> ulong list \<Rightarrow> nat \<Rightarrow> bool" where
  "bitmap_equal cst src1 src2 nbits =
    (if small_const_nbits cst nbits then (src1 ! 0 XOR src2 ! 0) AND BITMAP_LAST_WORD_MASK nbits = 0
     else lib_bitmap_equal src1 src2 nbits)"

definition bitmap_intersects :: "bool \<Rightarrow> ulong list \<Rightarrow> ulong list \<Rightarrow> nat \<Rightarrow> bool" where
  "bitmap_intersects cst src1 src2 nbits =
    (if small_const_nbits cst nbits then (src1 ! 0 AND src2 ! 0) AND BITMAP_LAST_WORD_MASK nbits \<noteq> 0
     else lib_bitmap_intersects src1 src2 nbits)"

definition bitmap_subset :: "bool \<Rightarrow> ulong list \<Rightarrow> ulong list \<Rightarrow> nat \<Rightarrow> bool" where
  "bitmap_subset cst src1 src2 nbits =
    (if small_const_nbits cst nbits then (src1 ! 0 AND NOT (src2 ! 0)) AND BITMAP_LAST_WORD_MASK nbits = 0
     else lib_bitmap_subset src1 src2 nbits)"

definition bitmap_empty :: "bool \<Rightarrow> ulong list \<Rightarrow> nat \<Rightarrow> bool" where
  "bitmap_empty cst src nbits =
    (if small_const_nbits cst nbits then src ! 0 AND BITMAP_LAST_WORD_MASK nbits = 0
     else lib_bitmap_empty src nbits)"

definition bitmap_full :: "bool \<Rightarrow> ulong list \<Rightarrow> nat \<Rightarrow> bool" where
  "bitmap_full cst src nbits =
    (if small_const_nbits cst nbits then NOT (src ! 0) AND BITMAP_LAST_WORD_MASK nbits = 0
     else lib_bitmap_full src nbits)"

definition bitmap_weight :: "bool \<Rightarrow> ulong list \<Rightarrow> nat \<Rightarrow> nat" where
  "bitmap_weight cst src nbits =
    (if small_const_nbits cst nbits then hweight_long (src ! 0 AND BITMAP_LAST_WORD_MASK nbits)
     else lib_bitmap_weight src nbits)"

definition bitmap_shift_right :: "bool \<Rightarrow> bool \<Rightarrow> ulong list \<Rightarrow> ulong list \<Rightarrow> nat \<Rightarrow> nat \<Rightarrow> ulong list" where
  "bitmap_shift_right cst inplace dst src n nbits =
    (if small_const_nbits cst nbits then dst[0 := drop_bit n (shift_src inplace dst src ! 0)]
     else lib_bitmap_shift_right inplace dst src n nbits)"

definition bitmap_shift_left :: "bool \<Rightarrow> bool \<Rightarrow> ulong list \<Rightarrow> ulong list \<Rightarrow> nat \<Rightarrow> nat \<Rightarrow> ulong list" where
  "bitmap_shift_left cst inplace dst src n nbits =
    (if small_const_nbits cst nbits
     then dst[0 := push_bit n (shift_src inplace dst src ! 0) AND BITMAP_LAST_WORD_MASK nbits]
     else lib_bitmap_shift_left inplace dst src n nbits)"

section \<open>Both paths compute the same sets\<close>

text \<open>The test that the compiler resolves is a parameter: each fact below holds for either outcome.\<close>

lemma small_test_bit: "i < 32 \<Longrightarrow> test_bit i bm \<longleftrightarrow> bit (bm ! 0) i"
  by (simp add: test_bit_iff)

lemma small_bits_of: "n \<le> 32 \<Longrightarrow> bits_of bm n = {i. i < n \<and> bit (bm ! 0) i}"
  by (auto simp: bits_of_def small_test_bit)

lemma small_last_mask: "0 < n \<Longrightarrow> n \<le> 32 \<Longrightarrow> bit (BITMAP_LAST_WORD_MASK n) i \<longleftrightarrow> i < n"
  by (cases "n = 32") (auto simp: bit_last_mask)

lemma small_masked_zero:
  "0 < n \<Longrightarrow> n \<le> 32 \<Longrightarrow> w AND BITMAP_LAST_WORD_MASK n = 0 \<longleftrightarrow> (\<forall>i<n. \<not> bit w i)"
  by (auto simp: ulong_eq_0_iff small_last_mask bit_and_iff dest: bit_ulong_lt)

lemma small_dst: "0 < n \<Longrightarrow> n \<le> 32 * length dst \<Longrightarrow> 0 < length (dst :: ulong list)"
  by (cases dst) auto

lemmas small_simps = small_const_nbits_def small_bits_of small_masked_zero small_last_mask
  bit_and_iff bit_or_iff bit_xor_iff bit_not_ulong bit_push_bit_ulong bit_drop_bit_ulong

lemma bits_of_zero: "n \<le> 32 * length dst \<Longrightarrow> bits_of (bitmap_zero cst dst n) n = {}"
  by (cases "0 < n")
    (use small_dst [of n dst] in \<open>auto simp: bitmap_zero_def small_simps bits_of_def [of "fold _ _ _"] test_bit_fold_words\<close>)

lemma bits_of_copy: "n \<le> 32 * length dst \<Longrightarrow> bits_of (bitmap_copy cst dst src n) n = bits_of src n"
proof (cases "small_const_nbits cst n")
  case True
  assume "n \<le> 32 * length dst"
  with True show ?thesis using small_dst [of n dst]
    by (cases "0 < n") (auto simp: bitmap_copy_def small_simps)
next
  case False
  assume "n \<le> 32 * length dst"
  with False show ?thesis by (auto simp: bitmap_copy_def bits_of_def test_bit_fold_words test_bit_iff [of _ src])
qed

lemma bits_of_fill:
  assumes "0 < n" "n \<le> 32 * length dst"
  shows "bits_of (bitmap_fill cst dst n) n = {..<n}"
proof -
  have len: "BITS_TO_LONGS n \<le> length dst" using assms BITS_TO_LONGS_le by simp
  have "test_bit i (bitmap_fill cst dst n)" if "i < n" for i
  proof (cases "i div 32 = BITS_TO_LONGS n - 1")
    case True
    have "n mod 32 = 0" if "i div 32 < n div 32"
    proof -
      have "BITS_TO_LONGS n \<le> n div 32" using True that by linarith
      then have "n \<le> 32 * (n div 32)" by (simp only: BITS_TO_LONGS_le)
      then show ?thesis using mult_div_mod_eq [of 32 n] by linarith
    qed
    then have "bit (BITMAP_LAST_WORD_MASK n) (i mod 32)"
      using word_cases [OF that] by (auto simp: bit_last_mask)
    with True len that word_lt_BITS_TO_LONGS [of i n] show ?thesis
      by (simp add: bitmap_fill_def Let_def test_bit_iff)
  next
    case False
    then have "i div 32 < BITS_TO_LONGS n - 1" using word_lt_BITS_TO_LONGS [OF that] by simp
    moreover from this have "\<not> n \<le> 32" using BITS_TO_LONGS_le [of n 1] by auto
    ultimately show ?thesis using len
      by (simp add: bitmap_fill_def Let_def small_const_nbits_def test_bit_iff nth_list_update nth_fold_upd bit_word_simps)
  qed
  then show ?thesis by (auto simp: bits_of_def)
qed

lemma bits_of_inline_and:
  "n \<le> 32 * length dst \<Longrightarrow> bits_of (snd (bitmap_and cst dst src1 src2 n)) n = bits_of src1 n \<inter> bits_of src2 n"
  by (cases "0 < n"; cases "small_const_nbits cst n")
    (use small_dst [of n dst] in \<open>auto simp: bitmap_and_def Let_def bits_of_and small_simps\<close>)

lemma bits_of_inline_or:
  "n \<le> 32 * length dst \<Longrightarrow> bits_of (bitmap_or cst dst src1 src2 n) n = bits_of src1 n \<union> bits_of src2 n"
  by (cases "0 < n"; cases "small_const_nbits cst n")
    (use small_dst [of n dst] in \<open>auto simp: bitmap_or_def Let_def bits_of_or small_simps\<close>)

lemma bits_of_inline_xor:
  "n \<le> 32 * length dst \<Longrightarrow> bits_of (bitmap_xor cst dst src1 src2 n) n = (bits_of src1 n - bits_of src2 n) \<union> (bits_of src2 n - bits_of src1 n)"
  by (cases "0 < n"; cases "small_const_nbits cst n")
    (use small_dst [of n dst] in \<open>auto simp: bitmap_xor_def Let_def bits_of_xor small_simps\<close>)

lemma bits_of_inline_andnot:
  "n \<le> 32 * length dst \<Longrightarrow> bits_of (snd (bitmap_andnot cst dst src1 src2 n)) n = bits_of src1 n - bits_of src2 n"
  by (cases "0 < n"; cases "small_const_nbits cst n")
    (use small_dst [of n dst] in \<open>auto simp: bitmap_andnot_def Let_def bits_of_andnot small_simps\<close>)

lemma bits_of_inline_complement:
  "n \<le> 32 * length dst \<Longrightarrow> bits_of (bitmap_complement cst dst src n) n = {..<n} - bits_of src n"
  by (cases "0 < n"; cases "small_const_nbits cst n")
    (use small_dst [of n dst] in \<open>auto simp: bitmap_complement_def bits_of_complement small_simps\<close>)

lemma bitmap_equal_iff: "0 < n \<Longrightarrow> bitmap_equal cst src1 src2 n \<longleftrightarrow> bits_of src1 n = bits_of src2 n"
  by (cases "small_const_nbits cst n") (auto simp: bitmap_equal_def lib_bitmap_equal_iff small_simps)

lemma bitmap_intersects_iff: "0 < n \<Longrightarrow> bitmap_intersects cst src1 src2 n \<longleftrightarrow> bits_of src1 n \<inter> bits_of src2 n \<noteq> {}"
  by (cases "small_const_nbits cst n") (auto simp: bitmap_intersects_def lib_bitmap_intersects_iff small_simps)

lemma bitmap_subset_iff: "0 < n \<Longrightarrow> bitmap_subset cst src1 src2 n \<longleftrightarrow> bits_of src1 n \<subseteq> bits_of src2 n"
  by (cases "small_const_nbits cst n") (auto simp: bitmap_subset_def lib_bitmap_subset_iff small_simps)

lemma bitmap_empty_iff: "0 < n \<Longrightarrow> bitmap_empty cst src n \<longleftrightarrow> bits_of src n = {}"
  by (cases "small_const_nbits cst n") (auto simp: bitmap_empty_def lib_bitmap_empty_iff small_simps)

lemma bitmap_full_iff: "0 < n \<Longrightarrow> bitmap_full cst src n \<longleftrightarrow> bits_of src n = {..<n}"
  by (cases "small_const_nbits cst n") (auto simp: bitmap_full_def lib_bitmap_full_iff small_simps)

lemma bitmap_weight_card: "0 < n \<Longrightarrow> bitmap_weight cst src n = card (bits_of src n)"
proof (cases "small_const_nbits cst n")
  case True
  assume "0 < n"
  with True have "{j. bit (src ! 0 AND BITMAP_LAST_WORD_MASK n) j} = bits_of src n"
    by (auto simp: small_simps)
  with True show ?thesis by (simp add: bitmap_weight_def hweight_long_card)
qed (simp add: bitmap_weight_def lib_bitmap_weight_card)

lemma bits_of_inline_shift_left:
  assumes "0 < n" "n \<le> 32 * length dst" "shift < n"
  shows "bits_of (bitmap_shift_left cst False dst src shift n) n = {i. i < n \<and> shift \<le> i \<and> test_bit (i - shift) src}"
proof (cases "small_const_nbits cst n")
  case True
  with assms small_dst [of n dst] show ?thesis
    by (auto simp: bitmap_shift_left_def shift_src_def small_simps small_test_bit)
next
  case False
  have "shift div 32 \<le> BITS_TO_LONGS n" using word_lt_BITS_TO_LONGS [OF assms(3)] by simp
  moreover have "i < 32 * BITS_TO_LONGS n" if "i < n" for i using BITS_TO_LONGS_ge [of n] that by simp
  ultimately show ?thesis using False assms
    by (auto simp: bitmap_shift_left_def bits_of_def test_bit_shift_left)
qed

text \<open>
  On the right shift the two paths differ: the library function discards the bits of \<open>src\<close> beyond
  \<open>nbits\<close>, the one-word path shifts them in.
\<close>

lemma bits_of_inline_shift_right:
  assumes "0 < n" "n \<le> 32 * length dst" "shift < n"
  shows "bits_of (bitmap_shift_right cst False dst src shift n) n
    = {i. i < n \<and> (if small_const_nbits cst n then i + shift < 32 else i + shift < n) \<and> test_bit (i + shift) src}"
proof (cases "small_const_nbits cst n")
  case True
  have "bit (src ! 0) j \<longleftrightarrow> j < 32 \<and> test_bit j src" for j
    using bit_ulong_lt [of "src ! 0" j] small_test_bit [of j src] by blast
  with True assms small_dst [of n dst] show ?thesis
    by (auto simp: bitmap_shift_right_def shift_src_def small_simps add.commute)
next
  case False
  have "shift div 32 \<le> BITS_TO_LONGS n" using word_lt_BITS_TO_LONGS [OF assms(3)] by simp
  moreover have "i < 32 * BITS_TO_LONGS n" if "i < n" for i using BITS_TO_LONGS_ge [of n] that by simp
  ultimately show ?thesis using False assms
    by (auto simp: bitmap_shift_right_def bits_of_def test_bit_shift_right)
qed

end
