(* ===== verification/Bitmap_Map.thy ===== *)
theory Bitmap_Map
  imports Bitmap_Inline
begin

text \<open>
  The maps between positions and ordinals of set bits in \<^verbatim>\<open>lib/bitmap.c\<close>, and the functions that
  rearrange bitmaps with them: \<^verbatim>\<open>bitmap_remap\<close>, \<^verbatim>\<open>bitmap_bitremap\<close>, \<^verbatim>\<open>bitmap_onto\<close>,
  \<^verbatim>\<open>bitmap_fold\<close> and \<^verbatim>\<open>bitmap_copy_le\<close> (on a little-endian machine).
\<close>

unbundle bit_operations_syntax

section \<open>Ordinals and positions\<close>

text \<open>The while loop of \<^verbatim>\<open>bitmap_pos_to_ord\<close>; the value \<open>None\<close> stands for a loop that does not end.\<close>

partial_function (option) pos_to_ord_loop :: "ulong list \<Rightarrow> nat \<Rightarrow> nat \<Rightarrow> nat \<Rightarrow> nat \<Rightarrow> (nat \<times> nat) option" where
  "pos_to_ord_loop buf pos bits i ord =
    (if i < pos then pos_to_ord_loop buf pos bits (find_next_bit buf bits (i + 1)) (ord + 1)
     else Some (i, ord))"

text \<open>The value \<open>None\<close> also stands for the stop of \<^verbatim>\<open>BUG_ON(i != pos)\<close>.\<close>

definition bitmap_pos_to_ord :: "ulong list \<Rightarrow> int \<Rightarrow> nat \<Rightarrow> int option" where
  "bitmap_pos_to_ord buf pos bits =
    (if pos < 0 \<or> pos \<ge> int bits \<or> \<not> test_bit (nat pos) buf then Some (- 1)
     else case pos_to_ord_loop buf (nat pos) bits (find_first_bit buf bits) 0 of
            None \<Rightarrow> None
          | Some (i, ord) \<Rightarrow> if i \<noteq> nat pos then None else Some (int ord))"

fun ord_to_pos_loop :: "ulong list \<Rightarrow> nat \<Rightarrow> nat \<Rightarrow> nat \<Rightarrow> nat \<times> nat" where
  "ord_to_pos_loop buf bits i 0 = (i, 0)"
| "ord_to_pos_loop buf bits i (Suc ord) =
    (if i < bits then ord_to_pos_loop buf bits (find_next_bit buf bits (i + 1)) ord else (i, Suc ord))"

definition bitmap_ord_to_pos :: "ulong list \<Rightarrow> int \<Rightarrow> nat \<Rightarrow> nat" where
  "bitmap_ord_to_pos buf ord bits =
    (if 0 \<le> ord \<and> ord < int bits then
       let (i, ord') = ord_to_pos_loop buf bits (find_first_bit buf bits) (nat ord)
       in if i < bits \<and> ord' = 0 then i else 0
     else 0)"

text \<open>The equality of the two pointers \<open>dst\<close> and \<open>src\<close> is the parameter \<open>same\<close>.\<close>

definition bitmap_bitremap :: "int \<Rightarrow> ulong list \<Rightarrow> ulong list \<Rightarrow> nat \<Rightarrow> int option" where
  "bitmap_bitremap oldbit old new bits =
    (let w = bitmap_weight False new bits in
     case bitmap_pos_to_ord old oldbit bits of
       None \<Rightarrow> None
     | Some n \<Rightarrow> if n < 0 \<or> w = 0 then Some oldbit
                 else Some (int (bitmap_ord_to_pos new (n mod int w) bits)))"

definition remap_step :: "ulong list \<Rightarrow> ulong list \<Rightarrow> nat \<Rightarrow> nat \<Rightarrow> nat \<Rightarrow> ulong list option \<Rightarrow> ulong list option" where
  "remap_step old new w bits oldbit dst =
    (case dst of None \<Rightarrow> None | Some dst \<Rightarrow>
     (case bitmap_pos_to_ord old (int oldbit) bits of None \<Rightarrow> None
      | Some n \<Rightarrow>
          Some (if n < 0 \<or> w = 0 then set_bit_bm oldbit dst
                else set_bit_bm (bitmap_ord_to_pos new (n mod int w) bits) dst)))"

definition bitmap_remap :: "bool \<Rightarrow> ulong list \<Rightarrow> ulong list \<Rightarrow> ulong list \<Rightarrow> ulong list \<Rightarrow> nat \<Rightarrow> ulong list option" where
  "bitmap_remap same dst src old new bits =
    (if same then Some dst
     else fold (remap_step old new (bitmap_weight False new bits) bits) (for_each_set_bit src bits)
            (Some (bitmap_zero False dst bits)))"

definition bitmap_onto :: "bool \<Rightarrow> ulong list \<Rightarrow> ulong list \<Rightarrow> ulong list \<Rightarrow> nat \<Rightarrow> ulong list" where
  "bitmap_onto same dst orig relmap bits =
    (if same then dst
     else fst (fold (\<lambda>n (dst, m). (if test_bit m orig then set_bit_bm n dst else dst, m + 1))
                 (for_each_set_bit relmap bits) (bitmap_zero False dst bits, 0 :: nat)))"

definition bitmap_fold :: "bool \<Rightarrow> ulong list \<Rightarrow> ulong list \<Rightarrow> nat \<Rightarrow> nat \<Rightarrow> ulong list" where
  "bitmap_fold same dst orig sz bits =
    (if same then dst
     else fold (\<lambda>oldbit dst. set_bit_bm (oldbit mod sz) dst) (for_each_set_bit orig bits)
            (bitmap_zero False dst bits))"

definition bitmap_copy_le :: "ulong list \<Rightarrow> ulong list \<Rightarrow> nat \<Rightarrow> ulong list" where
  "bitmap_copy_le dst src nbits = fold (\<lambda>i d. d[i := src ! i]) [0..<nbits div BITS_PER_LONG] dst"

section \<open>The list of set bits\<close>

lemma for_each_from_here:
  assumes "i < sz" "test_bit i bm"
  shows "filter (\<lambda>j. test_bit j bm) [i..<sz] = i # filter (\<lambda>j. test_bit j bm) [Suc i..<sz]"
  using assms by (simp add: upt_conv_Cons)

lemma sorted_set_bits: "sorted (for_each_set_bit bm sz)" "distinct (for_each_set_bit bm sz)"
  by (simp_all add: for_each_set_bit_eq sorted_wrt_filter)

lemma length_set_bits: "length (for_each_set_bit bm sz) = card (bits_of bm sz)"
  using distinct_card [OF sorted_set_bits(2), of bm sz] by (simp add: set_for_each_set_bit)

lemma hits_step:
  "i < sz \<Longrightarrow> filter (\<lambda>j. test_bit j bm) [Suc i..<sz] =
    (let r = find_next_bit bm sz (i + 1) in if r < sz then r # filter (\<lambda>j. test_bit j bm) [Suc r..<sz] else [])"
  using set_search.hits_from_next [of "Suc i" sz bm] by (simp add: Let_def)

lemma ord_to_pos_loop_nth:
  assumes "i < sz" "test_bit i bm"
  shows "ord_to_pos_loop bm sz i ord =
    (let l = filter (\<lambda>j. test_bit j bm) [i..<sz] in
     if ord < length l then (l ! ord, 0) else (sz, ord - length l))"
  using assms
proof (induction ord arbitrary: i)
  case 0
  then show ?case using for_each_from_here [of i sz bm] by simp
next
  case (Suc ord)
  let ?r = "find_next_bit bm sz (i + 1)"
  show ?case
  proof (cases "?r < sz")
    case True
    from Suc.IH [OF this set_search.hit_next_hit [OF this]] show ?thesis
      using True Suc.prems for_each_from_here [of i sz bm] hits_step [of i sz bm] for_each_from_here [OF True set_search.hit_next_hit [OF True]]
      by (simp add: Let_def)
  next
    case False
    then have r: "?r = sz" using set_search.next_hit_le [of bm sz "i + 1"] by simp
    have "ord_to_pos_loop bm sz sz k = (sz, k)" for k by (cases k) simp_all
    then show ?thesis using Suc.prems r for_each_from_here [of i sz bm] hits_step [of i sz bm] by (simp add: Let_def)
  qed
qed

lemma bitmap_ord_to_pos_nth:
  assumes "ord < card (bits_of bm sz)"
  shows "bitmap_ord_to_pos bm (int ord) sz = for_each_set_bit bm sz ! ord"
proof -
  let ?L = "for_each_set_bit bm sz" and ?f = "find_first_bit bm sz"
  have len: "ord < length ?L" using assms by (simp add: length_set_bits)
  have first: "?L = (if ?f < sz then ?f # filter (\<lambda>j. test_bit j bm) [Suc ?f..<sz] else [])"
    using set_search.hits_from_next [of 0 sz bm] by (simp add: for_each_set_bit_eq find_first_bit_eq)
  with len have f: "?f < sz" by (auto split: if_splits)
  have t: "test_bit ?f bm" using f unfolding find_first_bit_eq by (rule set_search.hit_next_hit)
  have "filter (\<lambda>j. test_bit j bm) [?f..<sz] = ?L" using first f for_each_from_here [OF f t] by simp
  with ord_to_pos_loop_nth [OF f t, of ord] len have "ord_to_pos_loop bm sz ?f ord = (?L ! ord, 0)" by (simp add: Let_def)
  moreover have "?L ! ord < sz" using nth_mem [OF len] by (simp add: set_for_each_set_bit bits_of_def)
  moreover have "length ?L \<le> sz" unfolding for_each_set_bit_eq by (rule order_trans [OF length_filter_le]) simp
  ultimately show ?thesis using len by (simp add: bitmap_ord_to_pos_def)
qed

lemma pos_to_ord_loop_count:
  assumes "i \<le> pos" "pos < sz" "test_bit i bm" "test_bit pos bm"
  shows "pos_to_ord_loop bm pos sz i ord = Some (pos, ord + card {j. i \<le> j \<and> j < pos \<and> test_bit j bm})"
  using assms
proof (induction "pos - i" arbitrary: i ord rule: less_induct)
  case less
  show ?case
  proof (cases "i < pos")
    case True
    let ?r = "find_next_bit bm sz (i + 1)"
    have i: "i < ?r" using set_search.next_hit_progress [of i sz bm] True less.prems by simp
    have r: "?r \<le> pos"
      using set_search.no_hit_before [of "i + 1" pos bm sz] True less.prems by (intro ccontr [of "_ \<le> _"]) simp
    have t: "test_bit ?r bm" using r less.prems by (intro set_search.hit_next_hit) simp
    have set: "{j. i \<le> j \<and> j < pos \<and> test_bit j bm} = insert i {j. ?r \<le> j \<and> j < pos \<and> test_bit j bm}"
      using set_search.no_hit_before [of "i + 1" _ bm sz] i True less.prems r by (auto simp: Suc_le_eq) (metis le_less_linear le_neq_implies_less)
    have "card {j. i \<le> j \<and> j < pos \<and> test_bit j bm} = Suc (card {j. ?r \<le> j \<and> j < pos \<and> test_bit j bm})"
      unfolding set using i by (subst card_insert_disjoint) auto
    with less.hyps [of ?r "ord + 1"] i r t less.prems True show ?thesis
      by (subst pos_to_ord_loop.simps) simp
  next
    case False
    with less.prems have "i = pos" by simp
    moreover have "{j. pos \<le> j \<and> j < pos \<and> test_bit j bm} = {}" by auto
    ultimately show ?thesis by (subst pos_to_ord_loop.simps) simp
  qed
qed

lemma bitmap_pos_to_ord_count:
  assumes "pos < sz" "test_bit pos bm"
  shows "bitmap_pos_to_ord bm (int pos) sz = Some (int (card (bits_of bm pos)))"
proof -
  let ?f = "find_first_bit bm sz"
  have f: "?f \<le> pos" unfolding find_first_bit_eq using set_search.no_hit_before [of 0 pos bm sz] assms by (meson le0 not_le)
  have t: "test_bit ?f bm" using f assms unfolding find_first_bit_eq by (intro set_search.hit_next_hit) simp
  have "{j. ?f \<le> j \<and> j < pos \<and> test_bit j bm} = bits_of bm pos"
    using set_search.no_hit_before [of 0 _ bm sz] by (auto simp: bits_of_def find_first_bit_eq) (meson le0 not_le)
  with pos_to_ord_loop_count [OF f assms(1) t assms(2), of 0] assms show ?thesis
    by (simp add: bitmap_pos_to_ord_def)
qed

lemma bitmap_pos_to_ord_unset:
  "pos < 0 \<or> pos \<ge> int sz \<or> \<not> test_bit (nat pos) bm \<Longrightarrow> bitmap_pos_to_ord bm pos sz = Some (- 1)"
  by (simp add: bitmap_pos_to_ord_def)


section \<open>Remapping\<close>

lemma for_each_set_bit_sorted: "for_each_set_bit bm n = sorted_list_of_set (bits_of bm n)"
  using sorted_list_of_set.idem_if_sorted_distinct [OF sorted_set_bits, of bm n] by (simp add: set_for_each_set_bit)

lemma weight_card: "bitmap_weight False bm n = card (bits_of bm n)"
  by (simp add: bitmap_weight_def small_const_nbits_def lib_bitmap_weight_card)

text \<open>The map of positions that \<open>old\<close> and \<open>new\<close> define, on sets of positions.\<close>

definition map_bit :: "nat set \<Rightarrow> nat set \<Rightarrow> nat \<Rightarrow> nat" where
  "map_bit old new p =
    (if p \<in> old \<and> new \<noteq> {} then sorted_list_of_set new ! (card {j \<in> old. j < p} mod card new) else p)"

lemma finite_bits_of [simp]: "finite (bits_of bm n)"
  by (simp add: bits_of_def)

lemma bits_below: "p \<le> n \<Longrightarrow> {j \<in> bits_of bm n. j < p} = bits_of bm p"
  by (auto simp: bits_of_def)

lemma remap_target:
  assumes "p < n"
  shows "\<exists>k. bitmap_pos_to_ord old (int p) n = Some k
    \<and> (if k < 0 \<or> card (bits_of new n) = 0 then p
       else bitmap_ord_to_pos new (k mod int (card (bits_of new n))) n) = map_bit (bits_of old n) (bits_of new n) p"
proof (cases "test_bit p old \<and> bits_of new n \<noteq> {}")
  case True
  then have pos: "0 < card (bits_of new n)" by (simp add: card_gt_0_iff)
  let ?c = "card (bits_of old p)" and ?w = "card (bits_of new n)"
  have "bitmap_ord_to_pos new (int (?c mod ?w)) n = for_each_set_bit new n ! (?c mod ?w)"
    using pos by (intro bitmap_ord_to_pos_nth) simp
  moreover have "p \<in> bits_of old n" using True assms by (simp add: bits_of_def)
  ultimately show ?thesis using True pos bitmap_pos_to_ord_count [OF assms, of old] assms
    by (simp add: map_bit_def for_each_set_bit_sorted bits_below zmod_int)
next
  case False
  then show ?thesis
  proof (cases "test_bit p old")
    case True
    with False bitmap_pos_to_ord_count [OF assms True] show ?thesis by (simp add: map_bit_def)
  next
    case F: False
    then have "p \<notin> bits_of old n" by (simp add: bits_of_def)
    with F bitmap_pos_to_ord_unset [of "int p" n old] show ?thesis by (simp add: map_bit_def)
  qed
qed

lemma map_bit_below:
  assumes "p < n"
  shows "map_bit (bits_of old n) (bits_of new n) p < n"
proof (cases "p \<in> bits_of old n \<and> bits_of new n \<noteq> {}")
  case True
  then have "0 < card (bits_of new n)" by (simp add: card_gt_0_iff)
  then have "sorted_list_of_set (bits_of new n) ! (card {j \<in> bits_of old n. j < p} mod card (bits_of new n)) \<in> bits_of new n"
    by (metis finite_bits_of length_sorted_list_of_set mod_less_divisor nth_mem set_sorted_list_of_set)
  with True show ?thesis by (simp add: map_bit_def bits_of_def)
next
  case False
  then show ?thesis using assms by (simp only: map_bit_def if_False)
qed

lemma bits_of_fold_set_bit:
  assumes "n \<le> 32 * length dst" "\<And>x. x \<in> set xs \<Longrightarrow> f x < n"
  shows "bits_of (fold (\<lambda>x d. set_bit_bm (f x) d) xs dst) n = bits_of dst n \<union> f ` set xs"
  using assms
proof (induction xs arbitrary: dst)
  case (Cons x xs)
  then have "f x div 32 < length dst" using word_in_dst [of n dst "f x"] by simp
  with Cons show ?case by (auto simp: bits_of_def test_bit_set_bit)
qed simp

lemma length_bitmap_zero [simp]: "length (bitmap_zero cst dst n) = length dst"
  by (simp add: bitmap_zero_def)

lemma remap_fold:
  assumes "set xs \<subseteq> {..<n}"
  shows "fold (remap_step old new (card (bits_of new n)) n) xs (Some dst)
    = Some (fold (\<lambda>p d. set_bit_bm (map_bit (bits_of old n) (bits_of new n) p) d) xs dst)"
  using assms
proof (induction xs arbitrary: dst)
  case (Cons p xs)
  then have "p < n" by simp
  from remap_target [OF this, of old new] have
    "remap_step old new (card (bits_of new n)) n p (Some dst) = Some (set_bit_bm (map_bit (bits_of old n) (bits_of new n) p) dst)"
    by (auto simp: remap_step_def split: if_splits)
  with Cons show ?case by simp
qed simp

lemma remap_result:
  assumes "n \<le> 32 * length dst"
  shows "\<exists>dst'. bitmap_remap False dst src old new n = Some dst'
    \<and> bits_of dst' n = map_bit (bits_of old n) (bits_of new n) ` bits_of src n"
proof -
  have sub: "set (for_each_set_bit src n) \<subseteq> {..<n}" by (auto simp: set_for_each_set_bit bits_of_def)
  have "map_bit (bits_of old n) (bits_of new n) p < n" if "p \<in> set (for_each_set_bit src n)" for p
    using that sub by (intro map_bit_below) auto
  from bits_of_fold_set_bit [of n "bitmap_zero False dst n" "for_each_set_bit src n", OF _ this] assms
  show ?thesis
    by (simp add: bitmap_remap_def weight_card remap_fold [OF sub] bits_of_zero set_for_each_set_bit)
qed

lemma bitremap_result: "p < n \<Longrightarrow> bitmap_bitremap (int p) old new n = Some (int (map_bit (bits_of old n) (bits_of new n) p))"
  using remap_target [of p n old new] by (auto simp: bitmap_bitremap_def weight_card Let_def split: if_splits)

lemma fold_result:
  assumes "n \<le> 32 * length dst" "0 < sz" "sz \<le> n"
  shows "bits_of (bitmap_fold False dst orig sz n) n = (\<lambda>p. p mod sz) ` bits_of orig n"
proof -
  have "p mod sz < n" for p using assms(2,3) by (meson mod_less_divisor less_le_trans)
  then show ?thesis using bits_of_fold_set_bit [of n "bitmap_zero False dst n" _ "\<lambda>p. p mod sz"] assms(1)
    by (simp add: bitmap_fold_def bits_of_zero set_for_each_set_bit)
qed

lemma onto_fold:
  "fst (fold (\<lambda>n (dst, m). (if test_bit m orig then set_bit_bm n dst else dst, m + 1)) xs (dst, m))
    = fold (\<lambda>n d. set_bit_bm n d) (map (\<lambda>k. xs ! k) (filter (\<lambda>k. test_bit (m + k) orig) [0..<length xs])) dst"
proof (induction xs arbitrary: dst m)
  case (Cons x xs)
  have "[0..<length (x # xs)] = 0 # map Suc [0..<length xs]" by (simp add: map_Suc_upt upt_conv_Cons del: upt_Suc)
  then show ?case using Cons [of _ "m + 1"] by (simp add: filter_map o_def del: upt_Suc)
qed simp

lemma onto_result:
  assumes "n \<le> 32 * length dst"
  shows "bits_of (bitmap_onto False dst orig relmap n) n
    = {sorted_list_of_set (bits_of relmap n) ! m | m. m < card (bits_of relmap n) \<and> test_bit m orig}"
proof -
  let ?L = "for_each_set_bit relmap n"
  let ?xs = "map (\<lambda>k. ?L ! k) (filter (\<lambda>k. test_bit k orig) [0..<length ?L])"
  have "x < n" if "x \<in> set ?xs" for x
    using that nth_mem [of _ ?L] by (auto simp: set_for_each_set_bit bits_of_def)
  then have "bits_of (fold (\<lambda>n d. set_bit_bm n d) ?xs (bitmap_zero False dst n)) n = set ?xs"
    using bits_of_fold_set_bit [of n "bitmap_zero False dst n" ?xs "\<lambda>x. x"] assms by (simp add: bits_of_zero)
  then show ?thesis unfolding bitmap_onto_def using onto_fold [of orig ?L _ 0]
    by (auto simp: length_set_bits for_each_set_bit_sorted)
qed

section \<open>Properties\<close>

text \<open>C20: \<^verbatim>\<open>bitmap_remap\<close> sends the position of the \<open>k\<close>-th set bit of \<open>old\<close> to that of the \<open>k mod w\<close>-th
  set bit of \<open>new\<close>, where \<open>w\<close> is the weight of \<open>new\<close>, and every other position to itself;
  \<^verbatim>\<open>bitmap_bitremap\<close> does the same for one position. Both return: the \<^verbatim>\<open>BUG_ON\<close> of
  \<^verbatim>\<open>bitmap_pos_to_ord\<close> never fires.\<close>

theorem bitmap_remap_correct:
  assumes "n \<le> 32 * length dst" "p < n"
  shows "(\<exists>dst'. bitmap_remap False dst src old new n = Some dst'
      \<and> bits_of dst' n = map_bit (bits_of old n) (bits_of new n) ` bits_of src n)
    \<and> bitmap_bitremap (int p) old new n = Some (int (map_bit (bits_of old n) (bits_of new n) p))"
  using remap_result [OF assms(1)] bitremap_result [OF assms(2)] by blast

theorem bitmap_remap_correct_witness:
  "\<exists>dst'. bitmap_remap False [0] [0xA2] [0xF0] [0xF000] 32 = Some dst'
      \<and> bits_of dst' 32 = map_bit (bits_of [0xF0] 32) (bits_of [0xF000] 32) ` bits_of [0xA2] 32"
  using bitmap_remap_correct [of 32 "[0]" 5 "[0xA2]" "[0xF0]" "[0xF000]"] by simp

text \<open>Folding \<open>orig\<close> over the weight \<open>w\<close> of \<open>relmap\<close> and translating the result onto \<open>relmap\<close>, as the
  source's comment recommends, sets exactly the \<open>p mod w\<close>-th set bits of \<open>relmap\<close> for the bits \<open>p\<close> of
  \<open>orig\<close>: the result is empty only when \<open>orig\<close> is.\<close>

theorem bitmap_fold_onto_correct:
  assumes "n \<le> 32 * length tmp" "n \<le> 32 * length dst" "bits_of relmap n \<noteq> {}"
  shows "bits_of (bitmap_onto False dst (bitmap_fold False tmp orig (bitmap_weight False relmap n) n) relmap n) n
    = (\<lambda>p. sorted_list_of_set (bits_of relmap n) ! (p mod card (bits_of relmap n))) ` bits_of orig n"
proof -
  let ?w = "card (bits_of relmap n)" and ?t = "bitmap_fold False tmp orig (card (bits_of relmap n)) n"
  have w: "0 < ?w" "?w \<le> n"
    using assms(3) card_mono [of "{..<n}" "bits_of relmap n"] by (auto simp: card_gt_0_iff bits_of_def)
  then have fold: "bits_of ?t n = (\<lambda>p. p mod ?w) ` bits_of orig n" using fold_result [OF assms(1)] by simp
  have "m < ?w \<and> test_bit m ?t \<longleftrightarrow> m \<in> (\<lambda>p. p mod ?w) ` bits_of orig n" for m
  proof -
    have "m \<in> bits_of ?t n \<longleftrightarrow> m < n \<and> test_bit m ?t" by (simp add: bits_of_def)
    moreover have "m < ?w" if "m \<in> (\<lambda>p. p mod ?w) ` bits_of orig n" using that w(1) by auto
    ultimately show ?thesis using fold w(2) by auto
  qed
  then show ?thesis unfolding weight_card onto_result [OF assms(2)] by (simp only:) blast
qed

theorem bitmap_fold_onto_correct_witness:
  "bits_of (bitmap_onto False [0] (bitmap_fold False [0] [0x900] (bitmap_weight False [0xF0] 32) 32) [0xF0] 32) 32
    = (\<lambda>p. sorted_list_of_set (bits_of [0xF0] 32) ! (p mod card (bits_of [0xF0] 32))) ` bits_of [0x900] 32"
proof -
  have "4 \<in> bits_of [0xF0] 32" by (simp add: bits_of_def test_bit_iff)
  then show ?thesis by (intro bitmap_fold_onto_correct) auto
qed

end
