(* ===== verification/Bitmap_Region.thy ===== *)
theory Bitmap_Region
  imports Bitmap
begin

text \<open>
  Allocation in bitmaps: \<^verbatim>\<open>bitmap_find_next_zero_area\<close> and the power-of-two regions of
  \<^verbatim>\<open>lib/bitmap.c\<close> (\<^verbatim>\<open>__reg_op\<close> is \<open>lib_reg_op\<close> here).

  \<^verbatim>\<open>bitmap_find_next_zero_area\<close> computes in unsigned 32-bit arithmetic, and its loop need not end when a
  sum wraps around: it is a partial function, shown to return whenever the bitmap, the area and the
  alignment together stay below \<open>2 ^ 32\<close>. In the region functions an \<open>int\<close> that the callers keep
  non-negative is a \<open>nat\<close>; \<open>1 << order\<close> is \<open>2 ^ order\<close>, which needs an order below 31 in the source.
  \<^verbatim>\<open>bitmap_find_free_region\<close>, which adds up region sizes itself, has the overflow of that sum as \<open>None\<close>;
  the other callers of \<^verbatim>\<open>__reg_op\<close> name a region inside the bitmap.
\<close>

unbundle bit_operations_syntax

section \<open>Aligned free areas\<close>

definition ALIGN_MASK :: "ulong \<Rightarrow> ulong \<Rightarrow> ulong" where
  "ALIGN_MASK x msk = (x + msk) AND NOT msk"

partial_function (option) bitmap_find_next_zero_area :: "ulong list \<Rightarrow> ulong \<Rightarrow> ulong \<Rightarrow> ulong \<Rightarrow> ulong \<Rightarrow> ulong option" where
  "bitmap_find_next_zero_area bm sz start nr align_mask =
    (let index = of_nat (find_next_zero_bit bm (unat sz) (unat start));
         index = ALIGN_MASK index align_mask;
         stop = index + nr
     in if stop > sz then Some stop
        else let i = of_nat (find_next_bit bm (unat stop) (unat index))
             in if i < stop then bitmap_find_next_zero_area bm sz (i + 1) nr align_mask
                else Some index)"

section \<open>Power-of-two regions\<close>

datatype reg_op = REG_OP_ISFREE | REG_OP_ALLOC | REG_OP_RELEASE

definition reg_mask :: "nat \<Rightarrow> nat \<Rightarrow> ulong" where
  "reg_mask pos order =
    (let nbits_reg = 2 ^ order;
         index = pos div BITS_PER_LONG;
         offset = pos - index * BITS_PER_LONG;
         nbitsinlong = min nbits_reg BITS_PER_LONG;
         m = push_bit (nbitsinlong - 1) 1;
         m = m + (m - 1)
     in push_bit offset m)"

text \<open>The result is the return value and the bitmap after the operation.\<close>

definition lib_reg_op :: "ulong list \<Rightarrow> nat \<Rightarrow> nat \<Rightarrow> reg_op \<Rightarrow> bool \<times> ulong list" where
  "lib_reg_op bm pos order reg_op =
    (let index = pos div BITS_PER_LONG;
         nlongs_reg = BITS_TO_LONGS (2 ^ order);
         msk = reg_mask pos order
     in case reg_op of
          REG_OP_ISFREE \<Rightarrow> (list_all (\<lambda>i. bm ! (index + i) AND msk = 0) [0..<nlongs_reg], bm)
        | REG_OP_ALLOC \<Rightarrow> (False, fold (\<lambda>i d. d[index + i := d ! (index + i) OR msk]) [0..<nlongs_reg] bm)
        | REG_OP_RELEASE \<Rightarrow> (False, fold (\<lambda>i d. d[index + i := d ! (index + i) AND NOT msk]) [0..<nlongs_reg] bm))"

lemma region_scan_decr: "pos + k \<le> bits \<Longrightarrow> 0 < k \<Longrightarrow> bits - (pos + k) < bits - (pos :: nat)"
  by simp

text \<open>\<open>None\<close> when \<open>1 << order\<close> or \<open>pos + (1 << order)\<close> overflows an \<open>int\<close>: the comparison with \<open>bits\<close> then
  succeeds on a negative number, and the scan goes on outside the bitmap.\<close>

function find_free_loop :: "ulong list \<Rightarrow> nat \<Rightarrow> nat \<Rightarrow> nat \<Rightarrow> (nat kresult \<times> ulong list) option" where
  "find_free_loop bm bits order pos =
    (let stop = pos + 2 ^ order
     in if order \<ge> 31 \<or> stop \<ge> 2 ^ 31 then None
        else if stop \<le> bits then
          (if \<not> fst (lib_reg_op bm pos order REG_OP_ISFREE) then find_free_loop bm bits order stop
           else Some (Inr pos, snd (lib_reg_op bm pos order REG_OP_ALLOC)))
        else Some (Inl ENOMEM, bm))"
  by pat_completeness auto
termination
  by (relation "measure (\<lambda>(bm, bits, order, pos). bits - pos)") (auto intro: region_scan_decr)

declare find_free_loop.simps [simp del]

definition bitmap_find_free_region :: "ulong list \<Rightarrow> nat \<Rightarrow> nat \<Rightarrow> (nat kresult \<times> ulong list) option" where
  "bitmap_find_free_region bm bits order = find_free_loop bm bits order 0"

definition bitmap_release_region :: "ulong list \<Rightarrow> nat \<Rightarrow> nat \<Rightarrow> ulong list" where
  "bitmap_release_region bm pos order = snd (lib_reg_op bm pos order REG_OP_RELEASE)"

definition bitmap_allocate_region :: "ulong list \<Rightarrow> nat \<Rightarrow> nat \<Rightarrow> unit kresult \<times> ulong list" where
  "bitmap_allocate_region bm pos order =
    (if \<not> fst (lib_reg_op bm pos order REG_OP_ISFREE) then (Inl EBUSY, bm)
     else (Inr (), snd (lib_reg_op bm pos order REG_OP_ALLOC)))"

section \<open>Regions are intervals\<close>

text \<open>A region of order \<open>order\<close> at a multiple of its size.\<close>

definition region :: "nat \<Rightarrow> nat \<Rightarrow> nat set" where
  "region pos order = {pos..<pos + 2 ^ order}"

lemma order_small:
  assumes "order < 5" "2 ^ order dvd pos"
  shows "pos mod 32 + 2 ^ order \<le> (32 :: nat)" "BITS_TO_LONGS (2 ^ order) = 1"
proof -
  have "(2 :: nat) ^ order dvd 2 ^ 5" using assms(1) by (intro le_imp_power_dvd) simp
  then have dvd: "2 ^ order dvd (32 :: nat)" by simp
  then have "2 ^ order dvd pos mod 32" using assms by (simp add: dvd_mod)
  with dvd obtain q r where q: "pos mod 32 = 2 ^ order * q" and r: "(32 :: nat) = 2 ^ order * r" unfolding dvd_def by blast
  have "2 ^ order * q < 2 ^ order * r" unfolding q [symmetric] r [symmetric] by simp
  then have "2 ^ order * Suc q \<le> 2 ^ order * r" by (intro mult_le_mono2) simp
  then show "pos mod 32 + 2 ^ order \<le> 32" unfolding q [symmetric] r [symmetric] mult_Suc_right by (simp add: add.commute)
  have "(2 :: nat) ^ order \<le> 32" using dvd by (simp add: dvd_imp_le)
  then have "BITS_TO_LONGS (2 ^ order) \<le> 1" "\<not> BITS_TO_LONGS (2 ^ order) \<le> 0"
    using BITS_TO_LONGS_le [of "2 ^ order" 1] BITS_TO_LONGS_le [of "2 ^ order" 0] by simp_all
  then show "BITS_TO_LONGS (2 ^ order) = 1" by linarith
qed

lemma order_large:
  assumes "\<not> order < 5" "2 ^ order dvd (pos :: nat)"
  shows "pos = 32 * (pos div 32)" "(2 :: nat) ^ order = 32 * BITS_TO_LONGS (2 ^ order)"
proof -
  have d: "(2 :: nat) ^ 5 dvd 2 ^ order" using assms(1) by (intro le_imp_power_dvd) simp
  from dvd_trans [OF this assms(2)] have "32 dvd pos" by simp
  then show "pos = 32 * (pos div 32)" by simp
  from d obtain m where m: "(2 :: nat) ^ order = 32 * m" unfolding dvd_def by auto
  have "BITS_TO_LONGS (32 * m) \<le> m" using BITS_TO_LONGS_le by simp
  moreover have "m \<le> BITS_TO_LONGS (32 * m)" using BITS_TO_LONGS_ge [of "32 * m"] by simp
  ultimately show "2 ^ order = 32 * BITS_TO_LONGS (2 ^ order)" unfolding m by simp
qed

lemma reg_mask_bits:
  assumes "2 ^ order dvd pos"
  shows "bit (reg_mask pos order) j \<longleftrightarrow> (if order < 5 then pos mod 32 \<le> j \<and> j < pos mod 32 + 2 ^ order else j < 32)"
proof (cases "order < 5")
  case True
  then have "pos mod 32 + 2 ^ order \<le> 32" using assms order_small(1) by blast
  moreover from this have "(2 :: nat) ^ order \<le> 32" by simp
  moreover have "push_bit (2 ^ order - 1) 1 + (push_bit (2 ^ order - 1) 1 - 1) = (2 ^ 2 ^ order - 1 :: ulong)"
  proof -
    have "(2 :: ulong) * 2 ^ (2 ^ order - 1) = 2 ^ 2 ^ order" by (simp flip: power_Suc)
    then show ?thesis by simp
  qed
  ultimately show ?thesis using True
    by (auto simp: reg_mask_def Let_def bit_push_bit_ulong bit_mask_below minus_mult_div_eq_mod [symmetric] mult.commute min_def)
next
  case False
  then have "pos mod 32 = 0" "\<not> (2 :: nat) ^ order < 32"
    using order_large [OF _ assms] power_increasing [of 5 order "2 :: nat"] by (metis mod_mult_self1_is_0, simp)
  then have "reg_mask pos order = - 1"
    by (auto simp: reg_mask_def Let_def min_def elim!: dvdE)
  then show ?thesis using False by simp
qed


lemma in_region_iff:
  assumes "2 ^ order dvd pos"
  shows "i \<in> region pos order \<longleftrightarrow>
    pos div 32 \<le> i div 32 \<and> i div 32 < pos div 32 + BITS_TO_LONGS (2 ^ order) \<and> bit (reg_mask pos order) (i mod 32)"
proof (cases "order < 5")
  case True
  note s = order_small [OF True assms]
  have "i \<in> region pos order \<longleftrightarrow> 32 * (pos div 32) + pos mod 32 \<le> i \<and> i < 32 * (pos div 32) + (pos mod 32 + 2 ^ order)"
    unfolding region_def by (simp add: add.assoc [symmetric])
  also have "\<dots> \<longleftrightarrow> i div 32 = pos div 32 \<and> pos mod 32 \<le> i mod 32 \<and> i mod 32 < pos mod 32 + 2 ^ order"
    using s(1) by (intro in_word_interval [symmetric]) simp_all
  finally show ?thesis using True by (auto simp: s(2) reg_mask_bits [OF assms])
next
  case False
  note s = order_large [OF False assms]
  have "i \<in> region pos order \<longleftrightarrow> 32 * (pos div 32) \<le> i \<and> i < 32 * (pos div 32 + BITS_TO_LONGS (2 ^ order))"
    unfolding region_def using s by simp
  also have "\<dots> \<longleftrightarrow> pos div 32 \<le> i div 32 \<and> i div 32 < pos div 32 + BITS_TO_LONGS (2 ^ order)"
    by (simp add: less_eq_div_iff_mult_less_eq div_less_iff_less_mult mult.commute)
  finally show ?thesis using False by (simp add: reg_mask_bits [OF assms])
qed


lemma isfree_iff:
  assumes "2 ^ order dvd pos"
  shows "fst (lib_reg_op bm pos order REG_OP_ISFREE) \<longleftrightarrow> (\<forall>i\<in>region pos order. \<not> test_bit i bm)"
proof -
  let ?m = "reg_mask pos order" and ?p = "pos div 32" and ?L = "BITS_TO_LONGS (2 ^ order)"
  have "fst (lib_reg_op bm pos order REG_OP_ISFREE) \<longleftrightarrow> (\<forall>k<?L. \<forall>j<32. \<not> (bit (bm ! (?p + k)) j \<and> bit ?m j))"
    by (simp add: lib_reg_op_def Let_def list_all_iff ulong_eq_0_iff bit_and_iff loop_simps)
  also have "\<dots> \<longleftrightarrow> (\<forall>i\<in>region pos order. \<not> test_bit i bm)"
  proof
    assume L: "\<forall>k<?L. \<forall>j<32. \<not> (bit (bm ! (?p + k)) j \<and> bit ?m j)"
    show "\<forall>i\<in>region pos order. \<not> test_bit i bm"
    proof
      fix i assume "i \<in> region pos order"
      then have i: "?p \<le> i div 32" "i div 32 - ?p < ?L" "bit ?m (i mod 32)" by (auto simp: in_region_iff [OF assms])
      with L [rule_format, of "i div 32 - ?p" "i mod 32"] show "\<not> test_bit i bm" by (simp add: test_bit_iff)
    qed
  next
    assume R: "\<forall>i\<in>region pos order. \<not> test_bit i bm"
    show "\<forall>k<?L. \<forall>j<32. \<not> (bit (bm ! (?p + k)) j \<and> bit ?m j)"
    proof (intro allI impI notI)
      fix k j :: nat assume kj: "k < ?L" "j < 32" "bit (bm ! (?p + k)) j \<and> bit ?m j"
      have "(32 * (?p + k) + j) div 32 = ?p + k" "(32 * (?p + k) + j) mod 32 = j" using kj(2) by (simp_all del: distrib_left_numeral)
      with kj have "32 * (?p + k) + j \<in> region pos order" unfolding in_region_iff [OF assms] by (simp only:) simp
      with R have "\<not> test_bit (32 * (?p + k) + j) bm" by blast
      with kj show False by (simp only: test_bit_word simp_thms)
    qed
  qed
  finally show ?thesis .
qed

lemma test_bit_alloc_region:
  assumes "2 ^ order dvd pos" "i < 32 * length bm"
  shows "test_bit i (snd (lib_reg_op bm pos order REG_OP_ALLOC)) \<longleftrightarrow> test_bit i bm \<or> i \<in> region pos order"
proof -
  have "i div 32 < length bm" using assms(2) by (simp add: less_mult_imp_div_less mult.commute)
  then show ?thesis
    by (auto simp: lib_reg_op_def Let_def test_bit_iff nth_fold_modify_off [where g = "\<lambda>w. w OR reg_mask pos order"]
        in_region_iff [OF assms(1)] bit_or_iff)
qed

lemma test_bit_release_region:
  assumes "2 ^ order dvd pos" "i < 32 * length bm"
  shows "test_bit i (snd (lib_reg_op bm pos order REG_OP_RELEASE)) \<longleftrightarrow> test_bit i bm \<and> i \<notin> region pos order"
proof -
  have "i div 32 < length bm" using assms(2) by (simp add: less_mult_imp_div_less mult.commute)
  then show ?thesis
    by (auto simp: lib_reg_op_def Let_def test_bit_iff nth_fold_modify_off [where g = "\<lambda>w. w AND NOT (reg_mask pos order)"]
        in_region_iff [OF assms(1)] bit_and_iff bit_not_ulong)
qed

lemma length_reg_op [simp]: "length (snd (lib_reg_op bm pos order op)) = length bm"
  by (cases op) (simp_all add: lib_reg_op_def Let_def)

definition free_region :: "ulong list \<Rightarrow> nat \<Rightarrow> nat \<Rightarrow> nat \<Rightarrow> bool" where
  "free_region bm bits order p \<longleftrightarrow>
    2 ^ order dvd p \<and> p + 2 ^ order \<le> bits \<and> (\<forall>i\<in>region p order. \<not> test_bit i bm)"

lemma region_end_bound:
  fixes pos bits :: nat
  assumes "2 ^ order dvd pos" "order < 31" "bits < pos + 2 ^ order" "pos + 2 ^ order < 2 ^ 31"
  shows "bits + 2 ^ order < 2 ^ 31"
proof -
  have "(2::nat) ^ order dvd 2 ^ 31" using assms(2) by (intro le_imp_power_dvd) simp
  then obtain k m where k: "pos = 2 ^ order * k" "(2::nat) ^ 31 = 2 ^ order * m" using assms(1) by (auto elim!: dvdE)
  have "2 ^ order * (k + 1) < 2 ^ order * m" using assms(4) k by simp
  then have "k + 1 < m" by (simp only: mult_less_cancel1)
  then have "2 ^ order * (k + 1 + 1) \<le> 2 ^ order * m" by (intro mult_le_mono) simp_all
  then show ?thesis using assms(3) k by simp
qed

lemma find_free_loop_result:
  assumes "2 ^ order dvd pos" "pos \<le> bits" "bits < 2 ^ 31"
  shows "case find_free_loop bm bits order pos of
      None \<Rightarrow> order \<ge> 31 \<or> 2 ^ 31 \<le> bits + 2 ^ order \<and> (\<forall>q\<ge>pos. \<not> free_region bm bits order q)
    | Some (Inr p, bm') \<Rightarrow> order < 31 \<and> pos \<le> p \<and> free_region bm bits order p \<and> (\<forall>q. pos \<le> q \<and> q < p \<longrightarrow> \<not> free_region bm bits order q)
        \<and> bm' = snd (lib_reg_op bm p order REG_OP_ALLOC)
    | Some (Inl e, bm') \<Rightarrow> order < 31 \<and> bits + 2 ^ order < 2 ^ 31 \<and> e = ENOMEM \<and> bm' = bm \<and> (\<forall>q\<ge>pos. \<not> free_region bm bits order q)"
  using assms
proof (induction bm bits order pos rule: find_free_loop.induct)
  case (1 bm bits order pos)
  let ?e = "pos + 2 ^ order"
  note unf = find_free_loop.simps [of bm bits order pos, unfolded Let_def]
  consider (over) "order \<ge> 31 \<or> ?e \<ge> 2 ^ 31" | (stop) "order < 31" "?e < 2 ^ 31" "bits < ?e" | (scan) "order < 31" "?e < 2 ^ 31" "?e \<le> bits"
    by linarith
  then show ?case
  proof cases
    case over
    have "\<not> free_region bm bits order q" if "pos \<le> q" "?e \<ge> 2 ^ 31" for q using that 1(4) by (simp add: free_region_def)
    moreover have "2 ^ 31 \<le> bits + 2 ^ order" if "?e \<ge> 2 ^ 31" using that 1(3) by linarith
    moreover have "find_free_loop bm bits order pos = None" unfolding unf using over by simp
    ultimately show ?thesis using over by auto
  next
    case stop
    then have "\<not> free_region bm bits order q" if "pos \<le> q" for q using that by (simp add: free_region_def)
    moreover have "find_free_loop bm bits order pos = Some (Inl ENOMEM, bm)" unfolding unf using stop by simp
    ultimately show ?thesis using stop region_end_bound [OF 1(2) stop(1,3,2)] by simp
  next
    case scan
    show ?thesis
    proof (cases "fst (lib_reg_op bm pos order REG_OP_ISFREE)")
      case free: True
      then have "free_region bm bits order pos" using scan 1(2) by (simp add: free_region_def isfree_iff)
      moreover have "find_free_loop bm bits order pos = Some (Inr pos, snd (lib_reg_op bm pos order REG_OP_ALLOC))"
        unfolding unf using scan free by simp
      ultimately show ?thesis using scan by auto
    next
      case nfree: False
      have step: "find_free_loop bm bits order pos = find_free_loop bm bits order ?e" unfolding unf using scan nfree by simp
      have skip: "\<not> free_region bm bits order q" if q: "pos \<le> q" "q < ?e" for q
      proof
        assume f: "free_region bm bits order q"
        then have "2 ^ order dvd q - pos" using 1(2) by (simp add: free_region_def)
        moreover have "q - pos < 2 ^ order" using q by simp
        ultimately have "q = pos" using q(1) dvd_imp_le [of "2 ^ order" "q - pos"] by (cases "q = pos") auto
        with f nfree 1(2) show False by (simp add: free_region_def isfree_iff)
      qed
      have e: "2 ^ order dvd ?e" using 1(2) by simp
      have ih: "\<not> (order \<ge> 31 \<or> ?e \<ge> 2 ^ 31)" using scan by simp
      from 1(1) [OF refl ih scan(3) nfree e scan(3) 1(4)] skip show ?thesis unfolding step
        by (auto split: option.splits prod.splits sum.splits) (meson not_le add_leD1 order_trans)+
    qed
  qed
qed

section \<open>The aligned search\<close>

lemma unat_ALIGN_MASK:
  assumes "a < 32" "unat x + (2 ^ a - 1) < 2 ^ 32"
  shows "unat (ALIGN_MASK x (2 ^ a - 1)) = (unat x + (2 ^ a - 1)) div 2 ^ a * 2 ^ a"
proof -
  have m: "unat (2 ^ a - 1 :: ulong) = 2 ^ a - 1"
    using assms(1) by (rule unat_mask_ulong)
  have "ALIGN_MASK x (2 ^ a - 1) = (x + (2 ^ a - 1)) AND NOT (mask a)"
    by (simp add: ALIGN_MASK_def mask_eq_exp_minus_1)
  also have "\<dots> = push_bit a (drop_bit a (x + (2 ^ a - 1)))"
    by (rule bit_word_eqI) (auto simp: bit_word_simps)
  finally have "unat (ALIGN_MASK x (2 ^ a - 1)) = unat (push_bit a (drop_bit a (x + (2 ^ a - 1))))" by simp
  also have "\<dots> = (unat x + (2 ^ a - 1)) div 2 ^ a * 2 ^ a"
  proof -
    have s: "unat (x + (2 ^ a - 1)) = unat x + (2 ^ a - 1)"
      using assms(2) m by (simp add: unat_add_ulong)
    have "unat (drop_bit a (x + (2 ^ a - 1))) = (unat x + (2 ^ a - 1)) div 2 ^ a"
      unfolding unat_drop_bit_div s ..
    moreover have "(unat x + (2 ^ a - 1)) div 2 ^ a * 2 ^ a < 2 ^ 32"
      using assms(2) by (rule le_less_trans [OF div_times_less_eq_dividend])
    ultimately show ?thesis
      by (simp add: push_bit_eq_mult unat_word_ariths unat_pow2_ulong assms(1))
  qed
  finally show ?thesis .
qed

definition align_up :: "nat \<Rightarrow> nat \<Rightarrow> nat" where
  "align_up x k = (x + (k - 1)) div k * k"

lemma align_up_props:
  assumes "0 < k"
  shows "x \<le> align_up x k" "k dvd align_up x k" "align_up x k \<le> x + (k - 1)" "k dvd y \<Longrightarrow> x \<le> y \<Longrightarrow> align_up x k \<le> y"
proof -
  have "x + (k - 1) < align_up x k + k"
    unfolding align_up_def using assms dividend_less_div_times [of k "x + (k - 1)"] by simp
  then show "x \<le> align_up x k" using assms by simp
  show "k dvd align_up x k" by (simp add: align_up_def)
  show "align_up x k \<le> x + (k - 1)" by (simp add: align_up_def)
  show "align_up x k \<le> y" if d: "k dvd y" and xy: "x \<le> y"
  proof -
    obtain m where m: "y = m * k" using d by (auto simp: dvd_def mult.commute)
    have "x + (k - 1) < m * k + k" using xy assms m by linarith
    then have "x + (k - 1) < (m + 1) * k" by (simp add: distrib_right)
    then have "(x + (k - 1)) div k < m + 1" using assms by (simp only: div_less_iff_less_mult)
    then have "(x + (k - 1)) div k * k \<le> m * k" by (intro mult_le_mono1) simp
    then show ?thesis by (simp only: align_up_def m)
  qed
qed

text \<open>An area of \<open>nr\<close> zero bits at a multiple of \<open>k\<close>, from \<open>start\<close> on and inside \<open>sz\<close>.\<close>

definition zero_area :: "ulong list \<Rightarrow> nat \<Rightarrow> nat \<Rightarrow> nat \<Rightarrow> nat \<Rightarrow> nat \<Rightarrow> bool" where
  "zero_area bm sz start nr k p \<longleftrightarrow>
    start \<le> p \<and> k dvd p \<and> p + nr \<le> sz \<and> (\<forall>i. p \<le> i \<and> i < p + nr \<longrightarrow> \<not> test_bit i bm)"

lemma find_next_zero_area_result:
  assumes "a < 32" "0 < nr" "unat sz + unat nr + 2 ^ a \<le> 2 ^ 32"
  shows "\<exists>r. bitmap_find_next_zero_area bm sz start nr (2 ^ a - 1) = Some r
    \<and> (if unat r \<le> unat sz
       then zero_area bm (unat sz) (unat start) (unat nr) (2 ^ a) (unat r)
         \<and> (\<forall>q. zero_area bm (unat sz) (unat start) (unat nr) (2 ^ a) q \<longrightarrow> unat r \<le> q)
       else \<forall>q. \<not> zero_area bm (unat sz) (unat start) (unat nr) (2 ^ a) q)"
proof (induction "unat sz - unat start" arbitrary: start rule: less_induct)
  case less
  let ?za = "zero_area bm (unat sz) (unat start) (unat nr) (2 ^ a)"
  define z where "z = find_next_zero_bit bm (unat sz) (unat start)"
  define x where "x = align_up z (2 ^ a)"
  have zle: "z \<le> unat sz" unfolding z_def by (rule zero_search.next_hit_le)
  have xb: "x + unat nr < 2 ^ 32" "z + (2 ^ a - 1) < 2 ^ 32"
    using assms(2,3) zle align_up_props(3) [of "2 ^ a" z] zero_less_power [of "2 :: nat" a]
    unfolding x_def ulong_pos_iff by linarith+
  have uz: "unat (of_nat z :: ulong) = z" using zle unat_ulong_lt [of sz] by (simp add: unat_of_nat_ulong)
  define index :: ulong where "index = ALIGN_MASK (of_nat z) (2 ^ a - 1)"
  have ui: "unat index = x" unfolding index_def x_def align_up_def
    using unat_ALIGN_MASK [of a "of_nat z"] assms(1) xb(2) uz by simp
  have ue: "unat (index + nr) = x + unat nr" using xb(1) by (simp add: unat_add_ulong ui)
  have cand: "x \<le> q" if "?za q" for q
  proof -
    have "z \<le> q" proof (rule ccontr)
      assume "\<not> z \<le> q"
      then have "test_bit q bm" using that zero_search.no_hit_before [of "unat start" q bm "unat sz"]
        by (auto simp: z_def zero_area_def)
      with that assms(2) show False by (auto simp: zero_area_def ulong_pos_iff)
    qed
    with that show ?thesis unfolding x_def by (intro align_up_props) (auto simp: zero_area_def)
  qed
  show ?case
  proof (cases "index + nr > sz")
    case True
    then have "unat sz < x + unat nr" by (simp add: word_less_nat_alt ue)
    then have "\<not> ?za q" for q using cand [of q] by (auto simp: zero_area_def)
    with True show ?thesis
      by (subst bitmap_find_next_zero_area.simps) (simp add: Let_def z_def [symmetric] index_def [symmetric] word_less_nat_alt ue)
  next
    case False
    then have le: "x + unat nr \<le> unat sz" by (simp add: word_less_nat_alt ue)
    define b where "b = find_next_bit bm (x + unat nr) x"
    have ble: "b \<le> x + unat nr" "x \<le> b" unfolding b_def
      by (rule set_search.next_hit_le) (rule set_search.next_hit_ge, simp)
    have ub: "unat (of_nat b :: ulong) = b" using ble xb(1) by (simp add: unat_of_nat_ulong)
    have "z < unat sz" using le align_up_props(1) [of "2 ^ a" z] assms(2) unfolding x_def ulong_pos_iff by simp
    then have zst: "unat start \<le> z"
      using find_next_zero_bit_next [of bm "unat sz" "unat start"] by (simp add: is_next_def z_def)
    show ?thesis
    proof (cases "b < x + unat nr")
      case True
      then have set: "test_bit b bm" unfolding b_def by (rule set_search.hit_next_hit)
      have us: "unat (of_nat b + 1 :: ulong) = b + 1" using unat_add_ulong [of "of_nat b" 1] ub True xb(1) by simp
      have zx: "z \<le> x" unfolding x_def by (rule align_up_props) simp
      have iff: "?za q \<longleftrightarrow> zero_area bm (unat sz) (b + 1) (unat nr) (2 ^ a) q" for q
      proof
        assume q: "?za q"
        have "\<not> (q \<le> b \<and> b < q + unat nr)" using q set by (auto simp: zero_area_def)
        then have "b + 1 \<le> q" using cand [OF q] True by linarith
        with q show "zero_area bm (unat sz) (b + 1) (unat nr) (2 ^ a) q" by (simp add: zero_area_def)
      next
        assume "zero_area bm (unat sz) (b + 1) (unat nr) (2 ^ a) q"
        then show "?za q" using zst zx ble(2) by (auto simp: zero_area_def)
      qed
      have "unat sz - unat (of_nat b + 1 :: ulong) < unat sz - unat start"
        unfolding us using True le zst zx ble(2) by simp
      from less [OF this] have "\<exists>r. bitmap_find_next_zero_area bm sz (of_nat b + 1) nr (2 ^ a - 1) = Some r
        \<and> (if unat r \<le> unat sz then ?za (unat r) \<and> (\<forall>q. ?za q \<longrightarrow> unat r \<le> q) else \<forall>q. \<not> ?za q)"
        unfolding us iff .
      then show ?thesis using False True
        by (subst bitmap_find_next_zero_area.simps)
          (simp add: Let_def z_def [symmetric] index_def [symmetric] ui ue b_def [symmetric] word_less_nat_alt ub)
    next
      case nb: False
      then have "b = x + unat nr" using ble(1) by simp
      then have "?za x" using set_search.no_hit_before [of x _ bm "x + unat nr"] le zst align_up_props(1,2) [of "2 ^ a" z]
        by (auto simp: zero_area_def x_def [symmetric] b_def [symmetric])
      then show ?thesis using False nb cand le
        by (subst bitmap_find_next_zero_area.simps)
          (simp add: Let_def z_def [symmetric] index_def [symmetric] ui ue b_def [symmetric] word_less_nat_alt ub)
    qed
  qed
qed

section \<open>Properties\<close>

text \<open>C8: Where no sum wraps around, \<^verbatim>\<open>bitmap_find_next_zero_area\<close> returns: its result is the least
  multiple of the alignment from \<open>start\<close> on at which \<open>nr\<close> zero bits lie inside the bitmap, and a value
  above the size exactly when there is no such place.\<close>

theorem bitmap_find_next_zero_area_correct:
  assumes "a < 32" "0 < nr" "unat sz + unat nr + 2 ^ a \<le> 2 ^ 32"
  shows "\<exists>r. bitmap_find_next_zero_area bm sz start nr (2 ^ a - 1) = Some r
    \<and> (if unat r \<le> unat sz
       then zero_area bm (unat sz) (unat start) (unat nr) (2 ^ a) (unat r)
         \<and> (\<forall>q. zero_area bm (unat sz) (unat start) (unat nr) (2 ^ a) q \<longrightarrow> unat r \<le> q)
       else \<forall>q. \<not> zero_area bm (unat sz) (unat start) (unat nr) (2 ^ a) q)"
  using assms by (rule find_next_zero_area_result)

theorem bitmap_find_next_zero_area_witness:
  "\<exists>r. bitmap_find_next_zero_area [3, 0] 64 0 8 (2 ^ 2 - 1) = Some r \<and> unat r mod 4 = 0 \<and> unat r + 8 \<le> 64"
proof -
  have "zero_area [3, 0] 64 0 8 (2 ^ 2) 40"
    unfolding zero_area_def by (auto simp: test_bit_iff dest!: div_le_mono [of 40 _ 32])
  then have "\<not> (\<forall>q. \<not> zero_area [3, 0] 64 0 8 (2 ^ 2) q)" by blast
  then have "\<exists>r. bitmap_find_next_zero_area [3, 0] 64 0 8 (2 ^ 2 - 1) = Some r \<and> zero_area [3, 0] 64 0 8 (2 ^ 2) (unat r)"
    using bitmap_find_next_zero_area_correct [of 2 8 64 "[3, 0]" 0] by (auto simp del: power2_eq_square split: if_splits)
  then show ?thesis by (auto simp: zero_area_def)
qed

text \<open>C16: \<^verbatim>\<open>bitmap_find_free_region\<close> allocates the first aligned free region of the given order: on success
  it sets exactly the bits of that region, and it fails with \<^verbatim>\<open>-ENOMEM\<close>, leaving the bitmap as it was,
  only when no aligned region of that order is free. It returns one of the two whenever the order is
  below 31 and a region is free or the size of the bitmap plus that of a region is below \<open>2 ^ 31\<close>; otherwise the
  \<open>int\<close> that holds the end of the region overflows.\<close>

theorem bitmap_find_free_region_correct:
  assumes "bits \<le> 32 * length bm" "bits < 2 ^ 31"
  shows "case bitmap_find_free_region bm bits order of
      Some (Inr p, bm') \<Rightarrow> order < 31 \<and> free_region bm bits order p \<and> (\<forall>q<p. \<not> free_region bm bits order q)
        \<and> bits_of bm' bits = bits_of bm bits \<union> region p order
    | Some (Inl e, bm') \<Rightarrow> order < 31 \<and> bits + 2 ^ order < 2 ^ 31 \<and> e = ENOMEM \<and> bm' = bm \<and> (\<forall>q. \<not> free_region bm bits order q)
    | None \<Rightarrow> order \<ge> 31 \<or> 2 ^ 31 \<le> bits + 2 ^ order \<and> (\<forall>q. \<not> free_region bm bits order q)"
proof -
  have "bits_of (snd (lib_reg_op bm p order REG_OP_ALLOC)) bits = bits_of bm bits \<union> region p order"
    if "free_region bm bits order p" for p
  proof -
    have "test_bit i (snd (lib_reg_op bm p order REG_OP_ALLOC)) \<longleftrightarrow> test_bit i bm \<or> i \<in> region p order" if "i < bits" for i
      using that assms \<open>free_region bm bits order p\<close> by (intro test_bit_alloc_region) (auto simp: free_region_def)
    moreover have "region p order \<subseteq> {..<bits}" using that by (auto simp: free_region_def region_def)
    ultimately show ?thesis by (auto simp: bits_of_def)
  qed
  then show ?thesis using find_free_loop_result [of order 0 bits bm] assms(2)
    by (auto simp: bitmap_find_free_region_def split: option.splits prod.splits sum.splits)
qed

theorem bitmap_find_free_region_witness:
  "bitmap_find_free_region [0xF] 8 3 = Some (Inl ENOMEM, [0xF])"
proof -
  have "\<not> free_region [0xF] 8 3 p" for p
  proof
    assume "free_region [0xF] 8 3 p"
    then have "\<not> test_bit 0 [0xF]" by (auto simp: free_region_def region_def)
    then show False by (simp add: test_bit_iff)
  qed
  then show ?thesis
    using bitmap_find_free_region_correct [of 8 "[0xF]" 3] by (auto split: option.splits prod.splits sum.splits)
qed

text \<open>C17: Releasing an aligned region undoes its allocation: after \<^verbatim>\<open>bitmap_allocate_region\<close> succeeded,
  \<^verbatim>\<open>bitmap_release_region\<close> restores the set of allocated bits; the allocation fails with \<^verbatim>\<open>-EBUSY\<close> exactly
  when a bit of the region is set.\<close>

theorem bitmap_region_roundtrip:
  assumes "2 ^ order dvd pos" "n \<le> 32 * length bm"
  shows "case bitmap_allocate_region bm pos order of
      (Inr u, bm') \<Rightarrow> (\<forall>i\<in>region pos order. \<not> test_bit i bm)
        \<and> bits_of (bitmap_release_region bm' pos order) n = bits_of bm n
    | (Inl e, bm') \<Rightarrow> e = EBUSY \<and> bm' = bm \<and> (\<exists>i\<in>region pos order. test_bit i bm)"
proof (cases "fst (lib_reg_op bm pos order REG_OP_ISFREE)")
  case True
  then have free: "\<forall>i\<in>region pos order. \<not> test_bit i bm" using isfree_iff [OF assms(1)] by simp
  have "test_bit i (bitmap_release_region (snd (lib_reg_op bm pos order REG_OP_ALLOC)) pos order) \<longleftrightarrow> test_bit i bm"
    if "i < n" for i
    using that assms free by (auto simp: bitmap_release_region_def test_bit_release_region test_bit_alloc_region)
  with True free show ?thesis by (auto simp: bitmap_allocate_region_def bits_of_def)
next
  case False
  then show ?thesis using isfree_iff [OF assms(1), of bm] by (auto simp: bitmap_allocate_region_def)
qed

theorem bitmap_region_roundtrip_witness:
  "bits_of (bitmap_release_region (snd (bitmap_allocate_region [3] 4 2)) 4 2) 32 = bits_of [3] 32"
proof -
  have "fst (lib_reg_op [3] 4 2 REG_OP_ISFREE)"
    by (simp add: lib_reg_op_def Let_def reg_mask_def BITS_TO_LONGS_def)
  then have "fst (bitmap_allocate_region [3] 4 2) = Inr ()" by (simp add: bitmap_allocate_region_def)
  then show ?thesis using bitmap_region_roundtrip [of 2 4 32 "[3]"]
    by (auto split: prod.splits sum.splits)
qed

end
