(* ===== verification/Ctype.thy ===== *)
theory Ctype
  imports Kernel_Prelude
begin

unbundle bit_operations_syntax

text \<open>Character classes: the table of \<^verbatim>\<open>lib/ctype.c\<close> and the macros of \<^verbatim>\<open>include/linux/ctype.h\<close>. A character
  is an unsigned byte, as \<^verbatim>\<open>char\<close> is on ARM. The classes that the parsers use are characterised as ranges of
  characters.\<close>

section \<open>The table\<close>

definition CT_U :: u8 where "CT_U = 0x01"
definition CT_L :: u8 where "CT_L = 0x02"
definition CT_D :: u8 where "CT_D = 0x04"
definition CT_C :: u8 where "CT_C = 0x08"
definition CT_P :: u8 where "CT_P = 0x10"
definition CT_S :: u8 where "CT_S = 0x20"
definition CT_X :: u8 where "CT_X = 0x40"
definition CT_SP :: u8 where "CT_SP = 0x80"

definition ctype_table :: "u8 list" where
  "ctype_table =
    [CT_C, CT_C, CT_C, CT_C, CT_C, CT_C, CT_C, CT_C,
     CT_C, CT_C OR CT_S, CT_C OR CT_S, CT_C OR CT_S, CT_C OR CT_S, CT_C OR CT_S, CT_C, CT_C,
     CT_C, CT_C, CT_C, CT_C, CT_C, CT_C, CT_C, CT_C,
     CT_C, CT_C, CT_C, CT_C, CT_C, CT_C, CT_C, CT_C,
     CT_S OR CT_SP, CT_P, CT_P, CT_P, CT_P, CT_P, CT_P, CT_P,
     CT_P, CT_P, CT_P, CT_P, CT_P, CT_P, CT_P, CT_P,
     CT_D, CT_D, CT_D, CT_D, CT_D, CT_D, CT_D, CT_D,
     CT_D, CT_D, CT_P, CT_P, CT_P, CT_P, CT_P, CT_P,
     CT_P, CT_U OR CT_X, CT_U OR CT_X, CT_U OR CT_X, CT_U OR CT_X, CT_U OR CT_X, CT_U OR CT_X, CT_U,
     CT_U, CT_U, CT_U, CT_U, CT_U, CT_U, CT_U, CT_U,
     CT_U, CT_U, CT_U, CT_U, CT_U, CT_U, CT_U, CT_U,
     CT_U, CT_U, CT_U, CT_P, CT_P, CT_P, CT_P, CT_P,
     CT_P, CT_L OR CT_X, CT_L OR CT_X, CT_L OR CT_X, CT_L OR CT_X, CT_L OR CT_X, CT_L OR CT_X, CT_L,
     CT_L, CT_L, CT_L, CT_L, CT_L, CT_L, CT_L, CT_L,
     CT_L, CT_L, CT_L, CT_L, CT_L, CT_L, CT_L, CT_L,
     CT_L, CT_L, CT_L, CT_P, CT_P, CT_P, CT_P, CT_C,
     0, 0, 0, 0, 0, 0, 0, 0, 0, 0, 0, 0, 0, 0, 0, 0,
     0, 0, 0, 0, 0, 0, 0, 0, 0, 0, 0, 0, 0, 0, 0, 0,
     CT_S OR CT_SP, CT_P, CT_P, CT_P, CT_P, CT_P, CT_P, CT_P, CT_P, CT_P, CT_P, CT_P, CT_P, CT_P, CT_P, CT_P,
     CT_P, CT_P, CT_P, CT_P, CT_P, CT_P, CT_P, CT_P, CT_P, CT_P, CT_P, CT_P, CT_P, CT_P, CT_P, CT_P,
     CT_U, CT_U, CT_U, CT_U, CT_U, CT_U, CT_U, CT_U, CT_U, CT_U, CT_U, CT_U, CT_U, CT_U, CT_U, CT_U,
     CT_U, CT_U, CT_U, CT_U, CT_U, CT_U, CT_U, CT_P, CT_U, CT_U, CT_U, CT_U, CT_U, CT_U, CT_U, CT_L,
     CT_L, CT_L, CT_L, CT_L, CT_L, CT_L, CT_L, CT_L, CT_L, CT_L, CT_L, CT_L, CT_L, CT_L, CT_L, CT_L,
     CT_L, CT_L, CT_L, CT_L, CT_L, CT_L, CT_L, CT_P, CT_L, CT_L, CT_L, CT_L, CT_L, CT_L, CT_L, CT_L]"

definition ismask :: "u8 \<Rightarrow> u8" where
  "ismask c = ctype_table ! unat c"

definition isalnum :: "u8 \<Rightarrow> bool" where
  "isalnum c \<longleftrightarrow> ismask c AND (CT_U OR CT_L OR CT_D) \<noteq> 0"

definition isalpha :: "u8 \<Rightarrow> bool" where
  "isalpha c \<longleftrightarrow> ismask c AND (CT_U OR CT_L) \<noteq> 0"

definition iscntrl :: "u8 \<Rightarrow> bool" where
  "iscntrl c \<longleftrightarrow> ismask c AND CT_C \<noteq> 0"

definition isdigit :: "u8 \<Rightarrow> bool" where
  "isdigit c \<longleftrightarrow> ismask c AND CT_D \<noteq> 0"

definition isgraph :: "u8 \<Rightarrow> bool" where
  "isgraph c \<longleftrightarrow> ismask c AND (CT_P OR CT_U OR CT_L OR CT_D) \<noteq> 0"

definition islower :: "u8 \<Rightarrow> bool" where
  "islower c \<longleftrightarrow> ismask c AND CT_L \<noteq> 0"

definition isprint :: "u8 \<Rightarrow> bool" where
  "isprint c \<longleftrightarrow> ismask c AND (CT_P OR CT_U OR CT_L OR CT_D OR CT_SP) \<noteq> 0"

definition ispunct :: "u8 \<Rightarrow> bool" where
  "ispunct c \<longleftrightarrow> ismask c AND CT_P \<noteq> 0"

definition isspace :: "u8 \<Rightarrow> bool" where
  "isspace c \<longleftrightarrow> ismask c AND CT_S \<noteq> 0"

definition isupper :: "u8 \<Rightarrow> bool" where
  "isupper c \<longleftrightarrow> ismask c AND CT_U \<noteq> 0"

definition isxdigit :: "u8 \<Rightarrow> bool" where
  "isxdigit c \<longleftrightarrow> ismask c AND (CT_D OR CT_X) \<noteq> 0"

definition isascii :: "u8 \<Rightarrow> bool" where
  "isascii c \<longleftrightarrow> c \<le> 0x7f"

definition toascii :: "u8 \<Rightarrow> u8" where
  "toascii c = c AND 0x7f"

text \<open>The characters \<^verbatim>\<open>'A'\<close> and \<^verbatim>\<open>'a'\<close> are 65 and 97.\<close>

definition tolower :: "u8 \<Rightarrow> u8" where
  "tolower c = (if isupper c then c - (65 - 97) else c)"

definition toupper :: "u8 \<Rightarrow> u8" where
  "toupper c = (if islower c then c - (97 - 65) else c)"

section \<open>The classes as ranges\<close>

lemmas CT_defs = CT_U_def CT_L_def CT_D_def CT_C_def CT_P_def CT_S_def CT_X_def CT_SP_def

text \<open>A class is read off the table entry by entry.\<close>

lemma ismask_class:
  assumes "map p ctype_table = map q [0..<256]"
  shows "p (ismask c) \<longleftrightarrow> q (unat c)"
proof -
  have len: "length ctype_table = 256" using arg_cong [OF assms, of length] by simp
  have c: "unat c < 256" using unsigned_less [of c] by simp
  then have "p (ismask c) = map p ctype_table ! unat c" using len by (simp add: ismask_def)
  also have "\<dots> = q (unat c)" unfolding assms using c by simp
  finally show ?thesis .
qed

lemma upt_bytes: "[0..<256] = 0 # 1 # [2..<256]"
  by (simp add: upt_conv_Cons)

lemmas ctype_eval = ctype_table_def CT_defs upt_bytes upt_rec_numeral

lemma isdigit_iff: "isdigit c \<longleftrightarrow> 48 \<le> unat c \<and> unat c \<le> 57"
  unfolding isdigit_def by (rule ismask_class) (simp add: ctype_eval)

lemma isxdigit_iff:
  "isxdigit c \<longleftrightarrow> 48 \<le> unat c \<and> unat c \<le> 57 \<or> 65 \<le> unat c \<and> unat c \<le> 70 \<or> 97 \<le> unat c \<and> unat c \<le> 102"
  unfolding isxdigit_def by (rule ismask_class) (simp add: ctype_eval)

lemma isspace_iff: "isspace c \<longleftrightarrow> 9 \<le> unat c \<and> unat c \<le> 13 \<or> unat c = 32 \<or> unat c = 160"
  unfolding isspace_def by (rule ismask_class) (simp add: ctype_eval)

lemma isupper_iff: "isupper c \<longleftrightarrow> 65 \<le> unat c \<and> unat c \<le> 90 \<or> 192 \<le> unat c \<and> unat c \<le> 222 \<and> unat c \<noteq> 215"
  unfolding isupper_def by (rule ismask_class) (simp add: ctype_eval)

lemma islower_iff: "islower c \<longleftrightarrow> 97 \<le> unat c \<and> unat c \<le> 122 \<or> 223 \<le> unat c \<and> unat c \<noteq> 247"
  unfolding islower_def by (rule ismask_class) (simp add: ctype_eval)

lemma not_isspace_0 [simp]: "\<not> isspace 0"
  by (simp add: isspace_iff)

lemma unat_tolower: "unat (tolower c) = (if isupper c then unat c + 32 else unat c)"
proof (cases "isupper c")
  case True
  then have "unat c + unat (32 :: u8) < 2 ^ LENGTH(8)" by (auto simp: isupper_iff)
  then have "unat (c + 32) = unat c + 32" by (simp only: unat_add_lem [THEN iffD1]) simp
  moreover have "c - (65 - 97) = c + 32" by simp
  ultimately show ?thesis using True by (simp only: tolower_def if_True)
qed (simp add: tolower_def)

lemma tolower_eq_0 [simp]: "tolower c = 0 \<longleftrightarrow> c = 0"
proof -
  have "unat (tolower c) = 0 \<longleftrightarrow> unat c = 0" by (simp add: unat_tolower isupper_iff)
  then show ?thesis by (simp only: unat_eq_zero)
qed

lemma tolower_idem [simp]: "tolower (tolower c) = tolower c"
proof -
  have "\<not> isupper (tolower c)" by (auto simp: isupper_iff unat_tolower split: if_splits)
  then show ?thesis by (simp add: tolower_def)
qed

end
