(* ===== verification/Cstring.thy ===== *)
theory Cstring
  imports Kernel_Prelude Ctype "HOL-Library.Monad_Syntax" "HOL-Library.Sublist"
begin

text \<open>The string and memory functions of \<^verbatim>\<open>lib/string.c\<close>. A pointer to constant characters is the list of the
  bytes from it to the end of the object it points into, so that \<open>tl\<close> advances it and running off the list
  is an access outside the object: the result is then \<open>None\<close>. A function that writes takes the bytes of the
  destination object and returns them updated; where one object is read and written, pointers are offsets
  into its bytes. A pointer that may be \<^verbatim>\<open>NULL\<close> is again an option. A C string is a list that holds a zero byte; \<open>str_of\<close> is
  its contents. Sizes are natural numbers, except where the code lets a size wrap.\<close>

section \<open>C strings\<close>

definition is_cstr :: "u8 list \<Rightarrow> bool" where
  "is_cstr s \<longleftrightarrow> 0 \<in> set s"

definition str_of :: "u8 list \<Rightarrow> u8 list" where
  "str_of s = takeWhile (\<lambda>c. c \<noteq> 0) s"

section \<open>Comparison without case\<close>

text \<open>The argument \<open>n\<close> of the loop is \<^verbatim>\<open>len - 1\<close>.\<close>

fun strnicmp_loop :: "u8 list \<Rightarrow> u8 list \<Rightarrow> nat \<Rightarrow> int option" where
  "strnicmp_loop (c1 # s1) (c2 # s2) n =
    (if c1 = 0 \<or> c2 = 0 then Some (uint c1 - uint c2)
     else if c1 = c2 then (case n of 0 \<Rightarrow> Some (uint c1 - uint c2) | Suc m \<Rightarrow> strnicmp_loop s1 s2 m)
     else
       let c1 = tolower c1; c2 = tolower c2
       in if c1 \<noteq> c2 then Some (uint c1 - uint c2)
          else (case n of 0 \<Rightarrow> Some (uint c1 - uint c2) | Suc m \<Rightarrow> strnicmp_loop s1 s2 m))"
| "strnicmp_loop _ _ _ = None"

definition strnicmp :: "u8 list \<Rightarrow> u8 list \<Rightarrow> nat \<Rightarrow> int option" where
  "strnicmp s1 s2 len = (case len of 0 \<Rightarrow> Some 0 | Suc n \<Rightarrow> strnicmp_loop s1 s2 n)"

fun strcasecmp :: "u8 list \<Rightarrow> u8 list \<Rightarrow> int option" where
  "strcasecmp (a # s1) (b # s2) =
    (let c1 = tolower a; c2 = tolower b
     in if c1 = c2 \<and> c1 \<noteq> 0 then strcasecmp s1 s2 else Some (uint c1 - uint c2))"
| "strcasecmp _ _ = None"

fun strncasecmp :: "u8 list \<Rightarrow> u8 list \<Rightarrow> size_t \<Rightarrow> int option" where
  "strncasecmp (a # s1) (b # s2) n =
    (let c1 = tolower a; c2 = tolower b; n = n - 1
     in if 0 < n \<and> c1 = c2 \<and> c1 \<noteq> 0 then strncasecmp s1 s2 n else Some (uint c1 - uint c2))"
| "strncasecmp _ _ _ = None"

section \<open>Copying and appending\<close>

fun strcpy :: "u8 list \<Rightarrow> u8 list \<Rightarrow> u8 list option" where
  "strcpy (d # dest) (c # src) =
    (if c \<noteq> 0 then map_option ((#) c) (strcpy dest src) else Some (c # dest))"
| "strcpy _ _ = None"

fun strncpy :: "u8 list \<Rightarrow> u8 list \<Rightarrow> nat \<Rightarrow> u8 list option" where
  "strncpy dest src 0 = Some dest"
| "strncpy (d # dest) (c # src) (Suc count) =
    map_option ((#) c) (strncpy dest (if c \<noteq> 0 then src else c # src) count)"
| "strncpy _ _ (Suc count) = None"

fun cstrlen :: "u8 list \<Rightarrow> nat option" where
  "cstrlen (c # s) = (if c \<noteq> 0 then map_option Suc (cstrlen s) else Some 0)"
| "cstrlen [] = None"

text \<open>\<^verbatim>\<open>memcpy\<close> between two objects.\<close>

fun memcpy :: "u8 list \<Rightarrow> u8 list \<Rightarrow> nat \<Rightarrow> u8 list option" where
  "memcpy dest src 0 = Some dest"
| "memcpy (d # dest) (c # src) (Suc count) = map_option ((#) c) (memcpy dest src count)"
| "memcpy _ _ (Suc count) = None"

text \<open>A store through a pointer.\<close>

definition store :: "u8 list \<Rightarrow> nat \<Rightarrow> u8 \<Rightarrow> u8 list option" where
  "store m i c = (if i < length m then Some (m[i := c]) else None)"

definition strlcpy :: "u8 list \<Rightarrow> u8 list \<Rightarrow> nat \<Rightarrow> (nat \<times> u8 list) option" where
  "strlcpy dest src siz = do {
     ret \<leftarrow> cstrlen src;
     if siz \<noteq> 0 then do {
       let len = (if ret \<ge> siz then siz - 1 else ret);
       dest \<leftarrow> memcpy dest src len;
       dest \<leftarrow> store dest len 0;
       Some (ret, dest)
     } else Some (ret, dest)
   }"

fun strcat :: "u8 list \<Rightarrow> u8 list \<Rightarrow> u8 list option" where
  "strcat (d # dest) src = (if d \<noteq> 0 then map_option ((#) d) (strcat dest src) else strcpy (d # dest) src)"
| "strcat [] src = None"

fun strncat_copy :: "u8 list \<Rightarrow> u8 list \<Rightarrow> nat \<Rightarrow> u8 list option" where
  "strncat_copy (d # dest) (c # src) count =
    (if c \<noteq> 0 then
       if count - 1 = 0 then map_option ((#) c) (store dest 0 0)
       else map_option ((#) c) (strncat_copy dest src (count - 1))
     else Some (c # dest))"
| "strncat_copy _ _ _ = None"

fun strncat_seek :: "u8 list \<Rightarrow> u8 list \<Rightarrow> nat \<Rightarrow> u8 list option" where
  "strncat_seek (d # dest) src count =
    (if d \<noteq> 0 then map_option ((#) d) (strncat_seek dest src count) else strncat_copy (d # dest) src count)"
| "strncat_seek [] src count = None"

definition strncat :: "u8 list \<Rightarrow> u8 list \<Rightarrow> nat \<Rightarrow> u8 list option" where
  "strncat dest src count = (if count \<noteq> 0 then strncat_seek dest src count else Some dest)"

text \<open>The \<^verbatim>\<open>BUG_ON\<close> stops the kernel.\<close>

definition strlcat :: "u8 list \<Rightarrow> u8 list \<Rightarrow> nat \<Rightarrow> (nat \<times> u8 list) option" where
  "strlcat dest src count = do {
     dsize \<leftarrow> cstrlen dest;
     len \<leftarrow> cstrlen src;
     let res = dsize + len;
     if dsize \<ge> count then None
     else do {
       let count = count - dsize;
       let len = (if len \<ge> count then count - 1 else len);
       d \<leftarrow> memcpy (drop dsize dest) src len;
       d \<leftarrow> store d len 0;
       Some (res, take dsize dest @ d)
     }
   }"

section \<open>Comparison\<close>

fun strcmp :: "u8 list \<Rightarrow> u8 list \<Rightarrow> int option" where
  "strcmp (c1 # cs) (c2 # ct) =
    (if c1 \<noteq> c2 then Some (if c1 < c2 then -1 else 1) else if c1 = 0 then Some 0 else strcmp cs ct)"
| "strcmp _ _ = None"

fun strncmp :: "u8 list \<Rightarrow> u8 list \<Rightarrow> nat \<Rightarrow> int option" where
  "strncmp cs ct 0 = Some 0"
| "strncmp (c1 # cs) (c2 # ct) (Suc count) =
    (if c1 \<noteq> c2 then Some (if c1 < c2 then -1 else 1) else if c1 = 0 then Some 0 else strncmp cs ct count)"
| "strncmp _ _ (Suc count) = None"

section \<open>Searching\<close>

fun strchr :: "u8 list \<Rightarrow> u8 \<Rightarrow> u8 list option option" where
  "strchr (a # s) c = (if a \<noteq> c then if a = 0 then Some None else strchr s c else Some (Some (a # s)))"
| "strchr [] c = None"

text \<open>The pointer \<open>p\<close> of the loop as an offset from \<open>s\<close>.\<close>

fun strrchr_loop :: "u8 list \<Rightarrow> u8 \<Rightarrow> nat \<Rightarrow> nat option" where
  "strrchr_loop s c p = (if s ! p = c then Some p else case p of 0 \<Rightarrow> None | Suc q \<Rightarrow> strrchr_loop s c q)"

definition strrchr :: "u8 list \<Rightarrow> u8 \<Rightarrow> u8 list option option" where
  "strrchr s c = do { n \<leftarrow> cstrlen s; Some (map_option (\<lambda>p. drop p s) (strrchr_loop s c n)) }"

fun strnchr :: "u8 list \<Rightarrow> nat \<Rightarrow> u8 \<Rightarrow> u8 list option option" where
  "strnchr s 0 c = Some None"
| "strnchr (a # s) (Suc count) c =
    (if a \<noteq> 0 then if a = c then Some (Some (a # s)) else strnchr s count c else Some None)"
| "strnchr [] (Suc count) c = None"

fun skip_spaces :: "u8 list \<Rightarrow> u8 list option" where
  "skip_spaces (c # s) = (if isspace c then skip_spaces s else Some (c # s))"
| "skip_spaces [] = None"

text \<open>The loop of \<^verbatim>\<open>strim\<close>: \<open>n\<close> is \<^verbatim>\<open>end + 1\<close> as an offset from \<open>s\<close>.\<close>

fun strim_loop :: "u8 list \<Rightarrow> nat \<Rightarrow> nat" where
  "strim_loop s 0 = 0"
| "strim_loop s (Suc n) = (if isspace (s ! n) then strim_loop s n else Suc n)"

definition strim :: "u8 list \<Rightarrow> u8 list option" where
  "strim s = do {
     s \<leftarrow> skip_spaces s;
     siz \<leftarrow> cstrlen s;
     if siz = 0 then Some s else store s (strim_loop s siz) 0
   }"

fun strnlen :: "u8 list \<Rightarrow> nat \<Rightarrow> nat option" where
  "strnlen s 0 = Some 0"
| "strnlen (c # s) (Suc count) = (if c \<noteq> 0 then map_option Suc (strnlen s count) else Some 0)"
| "strnlen [] (Suc count) = None"

text \<open>The inner loops of \<^verbatim>\<open>strspn\<close>, \<^verbatim>\<open>strcspn\<close> and \<^verbatim>\<open>strpbrk\<close>: whether \<open>c\<close> is met before the terminator.\<close>

fun inner_scan :: "u8 \<Rightarrow> u8 list \<Rightarrow> bool option" where
  "inner_scan c (a # ct) = (if a \<noteq> 0 then if c = a then Some True else inner_scan c ct else Some False)"
| "inner_scan c [] = None"

fun strspn :: "u8 list \<Rightarrow> u8 list \<Rightarrow> nat option" where
  "strspn (c # p) accept =
    (if c \<noteq> 0 then do { met \<leftarrow> inner_scan c accept; if \<not> met then Some 0 else map_option Suc (strspn p accept) }
     else Some 0)"
| "strspn [] accept = None"

fun strcspn :: "u8 list \<Rightarrow> u8 list \<Rightarrow> nat option" where
  "strcspn (c # p) reject =
    (if c \<noteq> 0 then do { met \<leftarrow> inner_scan c reject; if met then Some 0 else map_option Suc (strcspn p reject) }
     else Some 0)"
| "strcspn [] reject = None"

text \<open>The pointers that \<^verbatim>\<open>strpbrk\<close> returns are offsets here, since \<^verbatim>\<open>strsep\<close> writes through them.\<close>

fun strpbrk :: "u8 list \<Rightarrow> u8 list \<Rightarrow> nat option option" where
  "strpbrk (c # cs) ct =
    (if c \<noteq> 0 then do { met \<leftarrow> inner_scan c ct; if met then Some (Some 0) else map_option (map_option Suc) (strpbrk cs ct) }
     else Some None)"
| "strpbrk [] ct = None"

text \<open>\<open>strsep m s ct\<close> returns the token, the memory and the new value of \<^verbatim>\<open>*s\<close>, as offsets into the memory \<open>m\<close>.\<close>

definition strsep :: "u8 list \<Rightarrow> nat option \<Rightarrow> u8 list \<Rightarrow> (nat option \<times> u8 list \<times> nat option) option" where
  "strsep m s ct = (case s of
     None \<Rightarrow> Some (None, m, s)
   | Some sbegin \<Rightarrow> do {
       e \<leftarrow> strpbrk (drop sbegin m) ct;
       case e of
         None \<Rightarrow> Some (Some sbegin, m, None)
       | Some k \<Rightarrow> do { m \<leftarrow> store m (sbegin + k) 0; Some (Some sbegin, m, Some (sbegin + k + 1)) }
     })"

definition rd :: "u8 list \<Rightarrow> nat \<Rightarrow> u8 option" where
  "rd s i = (if i < length s then Some (s ! i) else None)"

definition sysfs_streq_end :: "u8 list \<Rightarrow> u8 list \<Rightarrow> bool option" where
  "sysfs_streq_end s1 s2 = do {
     a \<leftarrow> rd s1 0; b \<leftarrow> rd s2 0;
     if a = b then Some True
     else if a = 0 \<and> b = 10 then do { b1 \<leftarrow> rd s2 1; Some (b1 = 0) }
     else if a = 10 then do { a1 \<leftarrow> rd s1 1; Some (a1 = 0 \<and> b = 0) }
     else Some False
   }"

fun sysfs_streq :: "u8 list \<Rightarrow> u8 list \<Rightarrow> bool option" where
  "sysfs_streq (a # s1) (b # s2) =
    (if a \<noteq> 0 \<and> a = b then sysfs_streq s1 s2 else sysfs_streq_end (a # s1) (b # s2))"
| "sysfs_streq _ _ = None"

section \<open>Memory areas\<close>

fun memset :: "u8 list \<Rightarrow> u8 \<Rightarrow> nat \<Rightarrow> u8 list option" where
  "memset s c 0 = Some s"
| "memset (a # s) c (Suc count) = map_option ((#) c) (memset s c count)"
| "memset [] c (Suc count) = None"

text \<open>\<^verbatim>\<open>memmove\<close> inside one object \<open>m\<close>, with the areas at the offsets \<open>dest\<close> and \<open>src\<close>.\<close>

fun copy_up :: "u8 list \<Rightarrow> nat \<Rightarrow> nat \<Rightarrow> nat \<Rightarrow> u8 list option" where
  "copy_up m tmp s 0 = Some m"
| "copy_up m tmp s (Suc count) = do { c \<leftarrow> rd m s; m \<leftarrow> store m tmp c; copy_up m (tmp + 1) (s + 1) count }"

fun copy_down :: "u8 list \<Rightarrow> nat \<Rightarrow> nat \<Rightarrow> nat \<Rightarrow> u8 list option" where
  "copy_down m tmp s 0 = Some m"
| "copy_down m tmp s (Suc count) =
    do { c \<leftarrow> rd m (s - 1); m \<leftarrow> store m (tmp - 1) c; copy_down m (tmp - 1) (s - 1) count }"

definition memmove :: "u8 list \<Rightarrow> nat \<Rightarrow> nat \<Rightarrow> nat \<Rightarrow> u8 list option" where
  "memmove m dest src count =
    (if dest \<le> src then copy_up m dest src count else copy_down m (dest + count) (src + count) count)"

fun memcmp :: "u8 list \<Rightarrow> u8 list \<Rightarrow> nat \<Rightarrow> int option" where
  "memcmp su1 su2 0 = Some 0"
| "memcmp (a # su1) (b # su2) (Suc count) =
    (let res = uint a - uint b in if res \<noteq> 0 then Some res else memcmp su1 su2 count)"
| "memcmp _ _ (Suc count) = None"

text \<open>\<^verbatim>\<open>memscan\<close> compares the bytes with an \<^verbatim>\<open>int\<close> that it does not convert.\<close>

fun memscan :: "u8 list \<Rightarrow> int \<Rightarrow> nat \<Rightarrow> u8 list option" where
  "memscan p c 0 = Some p"
| "memscan (a # p) c (Suc siz) = (if uint a = c then Some (a # p) else memscan p c siz)"
| "memscan [] c (Suc siz) = None"

text \<open>The loop of \<^verbatim>\<open>strstr\<close> and \<^verbatim>\<open>strnstr\<close>, which are the same but for where \<open>l1\<close> comes from; both
  call it with a positive \<open>l2\<close>.\<close>

function strstr_loop :: "u8 list \<Rightarrow> u8 list \<Rightarrow> nat \<Rightarrow> nat \<Rightarrow> u8 list option option" where
  "strstr_loop s1 s2 l1 l2 =
    (if l1 \<ge> l2 \<and> l2 \<noteq> 0 then do {
       r \<leftarrow> memcmp s1 s2 l2;
       if r = 0 then Some (Some s1) else strstr_loop (tl s1) s2 (l1 - 1) l2
     } else Some None)"
  by pat_completeness auto
termination by (relation "measure (\<lambda>(s1, s2, l1, l2). l1)") auto

definition strstr :: "u8 list \<Rightarrow> u8 list \<Rightarrow> u8 list option option" where
  "strstr s1 s2 = do {
     l2 \<leftarrow> cstrlen s2;
     if l2 = 0 then Some (Some s1) else do { l1 \<leftarrow> cstrlen s1; strstr_loop s1 s2 l1 l2 }
   }"

definition strnstr :: "u8 list \<Rightarrow> u8 list \<Rightarrow> nat \<Rightarrow> u8 list option option" where
  "strnstr s1 s2 len = do {
     l2 \<leftarrow> cstrlen s2;
     if l2 = 0 then Some (Some s1) else strstr_loop s1 s2 len l2
   }"

fun memchr :: "u8 list \<Rightarrow> u8 \<Rightarrow> nat \<Rightarrow> u8 list option option" where
  "memchr s c 0 = Some None"
| "memchr (a # p) c (Suc n) = (if c = a then Some (Some (a # p)) else memchr p c n)"
| "memchr [] c (Suc n) = None"

declare strrchr_loop.simps [simp del] strstr_loop.simps [simp del]

section \<open>Correctness\<close>

lemma uint_byte_eq [simp]: "uint a = uint b \<longleftrightarrow> a = b" for a :: u8
  by (simp add: word_uint_eq_iff)

lemma is_cstr_simps [simp]: "\<not> is_cstr []" "is_cstr (c # s) \<longleftrightarrow> c = 0 \<or> is_cstr s"
  by (auto simp: is_cstr_def)

lemma str_of_simps [simp]: "str_of [] = []" "str_of (c # s) = (if c = 0 then [] else c # str_of s)"
  by (auto simp: str_of_def)

lemma cstr_decomp: "is_cstr s \<Longrightarrow> s = str_of s @ 0 # drop (Suc (length (str_of s))) s"
  by (induction s) auto

lemma length_str_of: "is_cstr s \<Longrightarrow> length (str_of s) < length s"
  by (induction s) auto

lemma str_of_nonzero: "0 \<notin> set (str_of s)"
  by (induction s) auto

lemma str_of_app: "0 \<notin> set x \<Longrightarrow> str_of (x @ s) = x @ str_of s"
  by (induction x) auto

lemma nth_str_of: "is_cstr s \<Longrightarrow> s ! length (str_of s) = 0"
  by (induction s) auto

lemma take_str_of: "k \<le> length (str_of s) \<Longrightarrow> take k s = take k (str_of s)"
  by (induction s arbitrary: k) (auto simp: take_Cons split: nat.splits if_splits)

lemma drop_str_of: "is_cstr s \<Longrightarrow> k \<le> length (str_of s) \<Longrightarrow> is_cstr (drop k s) \<and> str_of (drop k s) = drop k (str_of s)"
  by (induction s arbitrary: k) (auto simp: drop_Cons split: nat.splits if_splits)

lemma cstrlen_cstr: "is_cstr s \<Longrightarrow> cstrlen s = Some (length (str_of s))"
  by (induction s) auto

lemma cstrlen_None: "\<not> is_cstr s \<Longrightarrow> cstrlen s = None"
  by (induction s) auto

lemma memcpy_app: "n \<le> length d \<Longrightarrow> n \<le> length s \<Longrightarrow> memcpy d s n = Some (take n s @ drop n d)"
  by (induction d s n rule: memcpy.induct) auto

lemma strnlen_cstr: "is_cstr s \<or> n \<le> length s \<Longrightarrow> strnlen s n = Some (min n (length (str_of s)))"
  by (induction s n rule: strnlen.induct) auto

subsection \<open>Bounded copies\<close>

lemma strcpy_cstr:
  "is_cstr s \<Longrightarrow> length (str_of s) < length d \<Longrightarrow> strcpy d s = Some (str_of s @ 0 # drop (Suc (length (str_of s))) d)"
  by (induction d s rule: strcpy.induct) auto

lemma strncpy_cstr:
  "is_cstr s \<Longrightarrow> n \<le> length d \<Longrightarrow>
    strncpy d s n = Some (take n (str_of s @ replicate n 0) @ drop n d)"
proof (induction d s n rule: strncpy.induct)
  case (2 d dest c src count)
  show ?case
  proof (cases "c = 0")
    case True
    then show ?thesis using 2 by (simp add: replicate_append_same)
  next
    case False
    moreover have "take count (str_of src @ replicate (Suc count) 0) = take count (str_of src @ replicate count 0)"
      by (simp add: replicate_append_same [symmetric])
    ultimately show ?thesis using 2 by simp
  qed
qed auto

lemma strcat_cstr:
  "is_cstr d \<Longrightarrow> is_cstr s \<Longrightarrow> length (str_of d) + length (str_of s) < length d \<Longrightarrow>
    strcat d s = Some (str_of d @ str_of s @ 0 # drop (Suc (length (str_of d) + length (str_of s))) d)"
  by (induction d s rule: strcat.induct) (auto simp: strcpy_cstr)

lemma strncat_copy_cstr:
  "is_cstr s \<Longrightarrow> 0 < n \<Longrightarrow> min n (length (str_of s)) < length d \<Longrightarrow>
    strncat_copy d s n = Some (take n (str_of s) @ 0 # drop (Suc (min n (length (str_of s)))) d)"
proof (induction d s n rule: strncat_copy.induct)
  case (1 d dest c src count)
  then show ?case
    by (cases count; cases dest) (auto simp: store_def split: if_splits)
qed auto

lemma strncat_cstr:
  assumes "is_cstr d" "is_cstr s" "length (str_of d) + min n (length (str_of s)) < length d"
  shows "strncat d s n = Some (if n = 0 then d else
    str_of d @ take n (str_of s) @ 0 # drop (Suc (length (str_of d) + min n (length (str_of s)))) d)"
proof (cases "n = 0")
  case False
  then have "strncat_seek d s n =
      Some (str_of d @ take n (str_of s) @ 0 # drop (Suc (length (str_of d) + min n (length (str_of s)))) d)"
    using assms by (induction d s n rule: strncat_seek.induct) (auto simp: strncat_copy_cstr)
  then show ?thesis using False by (simp add: strncat_def)
qed (simp add: strncat_def)

text \<open>The common end of \<^verbatim>\<open>strlcpy\<close> and \<^verbatim>\<open>strlcat\<close>: copy \<open>k\<close> characters and terminate.\<close>

lemma copy_terminate:
  assumes "is_cstr s" "k \<le> length (str_of s)" "k < length d"
  shows "Option.bind (memcpy d s k) (\<lambda>d. store d k 0) = Some (take k (str_of s) @ 0 # drop (Suc k) d)"
proof -
  have "k \<le> length s" using assms(2) length_str_of [OF assms(1)] by simp
  then have "memcpy d s k = Some (take k (str_of s) @ drop k d)"
    using assms by (simp add: memcpy_app take_str_of)
  moreover have "(take k (str_of s) @ drop k d)[k := 0] = take k (str_of s) @ 0 # drop (Suc k) d"
    using assms by (simp add: list_update_append Cons_nth_drop_Suc [symmetric])
  ultimately show ?thesis using assms by (simp add: store_def)
qed

lemma copy_terminate_obtain:
  assumes "is_cstr s" "k \<le> length (str_of s)" "k < length d"
  obtains d' where "memcpy d s k = Some d'" "store d' k 0 = Some (take k (str_of s) @ 0 # drop (Suc k) d)"
  using copy_terminate [OF assms] by (cases "memcpy d s k") auto

lemma strlcpy_cstr:
  assumes "is_cstr s" "n \<le> length d"
  shows "strlcpy d s n = Some (length (str_of s), if n = 0 then d else
    take (n - 1) (str_of s) @ 0 # drop (Suc (min (n - 1) (length (str_of s)))) d)"
proof (cases "n = 0")
  case False
  define l where "l = (if n \<le> length (str_of s) then n - 1 else length (str_of s))"
  have l: "l = min (n - 1) (length (str_of s))" "l < length d" "l \<le> length (str_of s)" "take l (str_of s) = take (n - 1) (str_of s)"
    using False assms length_str_of [OF assms(1)] by (auto simp: l_def)
  obtain d' where "memcpy d s l = Some d'" "store d' l 0 = Some (take l (str_of s) @ 0 # drop (Suc l) d)"
    using copy_terminate_obtain [OF assms(1) l(3,2)] .
  moreover have "strlcpy d s n = Option.bind (memcpy d s l) (\<lambda>d. Option.bind (store d l 0) (\<lambda>d. Some (length (str_of s), d)))"
    using False cstrlen_cstr [OF assms(1)] by (simp add: strlcpy_def l_def Let_def)
  ultimately show ?thesis using False l(4) unfolding l(1) [symmetric] by simp
qed (simp add: strlcpy_def cstrlen_cstr [OF assms(1)])

lemma strlcat_cstr:
  assumes "is_cstr s" "is_cstr d" "n \<le> length d" "length (str_of d) < n"
  shows "strlcat d s n = Some (length (str_of d) + length (str_of s),
    take (n - 1) (str_of d @ str_of s) @ 0 # drop (Suc (min (n - 1) (length (str_of d) + length (str_of s)))) d)"
proof -
  let ?D = "length (str_of d)"
  define l where "l = (if n - ?D \<le> length (str_of s) then n - ?D - 1 else length (str_of s))"
  have l: "?D + l = min (n - 1) (?D + length (str_of s))" "l < length (drop ?D d)" "l \<le> length (str_of s)"
    "take (n - 1) (str_of d @ str_of s) = str_of d @ take l (str_of s)"
    using assms by (auto simp: l_def)
  obtain d' where d': "memcpy (drop ?D d) s l = Some d'" "store d' l 0 = Some (take l (str_of s) @ 0 # drop (Suc l) (drop ?D d))"
    using copy_terminate_obtain [OF assms(1) l(3,2)] .
  have "take ?D d = str_of d" using take_str_of [of ?D d] by simp
  moreover have "drop (Suc l) (drop ?D d) = drop (Suc (?D + l)) d" by (simp add: add.commute)
  ultimately show ?thesis using d' assms(4) cstrlen_cstr [OF assms(1)] cstrlen_cstr [OF assms(2)] l(4)
    unfolding strlcat_def l(1) [symmetric] by (simp add: l_def [symmetric] Let_def)
qed

subsection \<open>Comparison and search\<close>

lemma strcmp_cstr:
  assumes "is_cstr s" "is_cstr t"
  shows "strcmp s t = Some (if str_of s = str_of t then 0
    else if (str_of s, str_of t) \<in> lexord {(a, b). a < b} then -1 else 1)"
  using assms
proof (induction s t rule: strcmp.induct)
  case (1 c1 cs c2 ct)
  show ?case
  proof (cases "c1 = c2")
    case True
    then show ?thesis using 1 by (cases "c1 = 0") auto
  next
    case False
    then show ?thesis by (cases "c1 = 0"; cases "c2 = 0") (auto simp: word_gt_0)
  qed
qed auto

lemma strncmp_take: "is_cstr s \<Longrightarrow> is_cstr t \<Longrightarrow> strncmp s t n = strcmp (take n (str_of s) @ [0]) (take n (str_of t) @ [0])"
  by (induction s t n rule: strncmp.induct) auto

lemma strcasecmp_cstr:
  assumes "is_cstr s" "is_cstr t"
  shows "\<exists>r. strcasecmp s t = Some r \<and> (r = 0 \<longleftrightarrow> map tolower (str_of s) = map tolower (str_of t))"
  using assms
proof (induction s t rule: strcasecmp.induct)
  case (1 a s1 b s2)
  show ?case
  proof (cases "tolower a = tolower b \<and> a \<noteq> 0")
    case True
    then have "b \<noteq> 0" by (metis tolower_eq_0)
    then show ?thesis using 1 True by (auto simp: Let_def)
  next
    case False
    show ?thesis
    proof (cases "tolower a = tolower b")
      case True
      then have "a = 0" "b = 0" using False by (metis tolower_eq_0)+
      then show ?thesis by simp
    qed (auto simp: Let_def)
  qed
qed auto

lemma strchr_cstr:
  assumes "is_cstr s"
  shows "strchr s c = Some (if c \<in> set (str_of s) \<or> c = 0
    then Some (drop (length (takeWhile (\<lambda>x. x \<noteq> c) (str_of s))) s) else None)"
  using assms by (induction s c rule: strchr.induct) auto

lemma memcmp_prefix:
  assumes "n \<le> length b"
  shows "memcmp a b n = Some r \<Longrightarrow> r = 0 \<longleftrightarrow> prefix (take n b) a"
    "n \<le> length a \<Longrightarrow> memcmp a b n \<noteq> None"
  using assms by (induction a b n rule: memcmp.induct) (auto simp: Let_def split: if_splits)

text \<open>The search for a substring looks only at positions where \<open>l2\<close> bytes follow.\<close>

lemma strstr_loop_eq:
  assumes "l2 = length p" "p \<noteq> []" "take l2 s2 = p" "l1 \<le> length s1"
  shows "strstr_loop s1 s2 l1 l2 = Some (if \<exists>k. k + l2 \<le> l1 \<and> prefix p (drop k s1)
    then Some (drop (LEAST k. k + l2 \<le> l1 \<and> prefix p (drop k s1)) s1) else None)"
  using assms(4)
proof (induction l1 arbitrary: s1)
  case (Suc l1)
  let ?P = "\<lambda>k. k + l2 \<le> Suc l1 \<and> prefix p (drop k s1)"
  have "length (take l2 s2) = l2" using assms(1,3) by simp
  then have l2: "0 < l2" "l2 \<le> length s2" using assms(1,2) by simp_all
  show ?case
  proof (cases "Suc l1 \<ge> l2")
    case ge: True
    then obtain r where r: "memcmp s1 s2 l2 = Some r" using memcmp_prefix(2) [of l2 s2 s1] l2 Suc.prems by auto
    then have r0: "r = 0 \<longleftrightarrow> prefix p s1" using memcmp_prefix(1) [OF l2(2) r] assms(3) by simp
    show ?thesis
    proof (cases "r = 0")
      case True
      then have P0: "?P 0" using r0 ge by simp
      then have "(LEAST k. ?P k) = 0" by (intro Least_eq_0)
      moreover have "\<exists>k. ?P k" using P0 by blast
      moreover have "strstr_loop s1 s2 (Suc l1) l2 = Some (Some s1)"
        using True r ge l2 by (subst strstr_loop.simps) simp
      ultimately show ?thesis by simp
    next
      case False
      then have n0: "\<not> ?P 0" using r0 by simp
      have shift: "?P (Suc k) \<longleftrightarrow> k + l2 \<le> l1 \<and> prefix p (drop k (tl s1))" for k by (simp add: drop_Suc)
      have "(\<exists>k. ?P k) \<longleftrightarrow> (\<exists>k. ?P (Suc k))" using n0 by (metis not0_implies_Suc)
      moreover have "(LEAST k. ?P k) = Suc (LEAST k. ?P (Suc k))" if "?P k" for k
        by (rule Least_Suc [OF that n0])
      moreover have "strstr_loop s1 s2 (Suc l1) l2 = strstr_loop (tl s1) s2 l1 l2"
        using r False ge l2 by (subst strstr_loop.simps) simp
      ultimately show ?thesis using Suc.IH [of "tl s1"] Suc.prems unfolding shift by (auto simp: drop_Suc)
    qed
  qed (subst strstr_loop.simps, auto)
qed (use assms(1,2) in \<open>subst strstr_loop.simps, auto\<close>)

lemma strstr_cstr:
  assumes "is_cstr s1" "is_cstr s2" "str_of s2 \<noteq> []"
  defines "P \<equiv> \<lambda>k. prefix (str_of s2) (drop k (str_of s1))"
  shows "strstr s1 s2 = Some (if \<exists>k. P k then Some (drop (LEAST k. P k) s1) else None)"
proof -
  let ?l1 = "length (str_of s1)" and ?l2 = "length (str_of s2)"
  have P: "k + ?l2 \<le> ?l1 \<and> prefix (str_of s2) (drop k s1) \<longleftrightarrow> P k" for k
  proof (cases "k + ?l2 \<le> ?l1")
    case True
    have "take ?l2 (drop k s1) = take ?l2 (drop k (str_of s1))"
      using drop_str_of [OF assms(1), of k] take_str_of [of ?l2 "drop k s1"] True by simp
    then have "str_of s2 = take ?l2 (drop k s1) \<longleftrightarrow> str_of s2 = take ?l2 (drop k (str_of s1))" by simp
    then show ?thesis using True unfolding P_def prefix_def
      by (metis append_take_drop_id append_eq_conv_conj)
  next
    case False
    then show ?thesis using prefix_length_le [of "str_of s2" "drop k (str_of s1)"] assms(3) unfolding P_def by auto
  qed
  have "strstr s1 s2 = strstr_loop s1 s2 ?l1 ?l2"
    using assms by (simp add: strstr_def cstrlen_cstr)
  also have "\<dots> = Some (if \<exists>k. P k then Some (drop (LEAST k. P k) s1) else None)"
    using strstr_loop_eq [of ?l2 "str_of s2" s2 ?l1 s1] assms length_str_of [OF assms(1)]
    by (simp add: P take_str_of)
  finally show ?thesis .
qed

text \<open>With a size of 0 the size wraps, and \<^verbatim>\<open>strncasecmp\<close> compares the strings although it was given no bytes to
  compare.\<close>

lemma strncasecmp_zero: "strncasecmp [97, 0] [98, 0] 0 = Some (-1)"
  by (simp add: Let_def tolower_def isupper_iff)

lemma inner_scan_cstr: "is_cstr ct \<Longrightarrow> inner_scan c ct = Some (c \<in> set (str_of ct))"
  by (induction ct) auto

lemma strspn_cstr:
  "is_cstr s \<Longrightarrow> is_cstr ct \<Longrightarrow> strspn s ct = Some (length (takeWhile (\<lambda>c. c \<in> set (str_of ct)) (str_of s)))"
  by (induction s) (auto simp: inner_scan_cstr)

lemma strcspn_cstr:
  "is_cstr s \<Longrightarrow> is_cstr ct \<Longrightarrow> strcspn s ct = Some (length (takeWhile (\<lambda>c. c \<notin> set (str_of ct)) (str_of s)))"
  by (induction s) (auto simp: inner_scan_cstr)

lemma strpbrk_cstr:
  "is_cstr s \<Longrightarrow> is_cstr ct \<Longrightarrow> strpbrk s ct = Some (if set (str_of s) \<inter> set (str_of ct) = {} then None
    else Some (length (takeWhile (\<lambda>c. c \<notin> set (str_of ct)) (str_of s))))"
proof (induction s)
  case (Cons a s)
  then show ?case by (cases "set (str_of s) \<inter> set (str_of ct) = {}") (auto simp: inner_scan_cstr)
qed simp

subsection \<open>Tokens and white space\<close>

lemma skip_spaces_cstr:
  assumes "is_cstr s"
  shows "\<exists>k. skip_spaces s = Some (drop k s) \<and> is_cstr (drop k s) \<and> str_of (drop k s) = dropWhile isspace (str_of s)"
  using assms
proof (induction s)
  case (Cons c s)
  show ?case
  proof (cases "isspace c")
    case True
    then have "c \<noteq> 0" by auto
    then obtain k where "skip_spaces s = Some (drop k s) \<and> is_cstr (drop k s) \<and> str_of (drop k s) = dropWhile isspace (str_of s)"
      using Cons by auto
    then show ?thesis using True \<open>c \<noteq> 0\<close> by (intro exI [of _ "Suc k"]) simp
  next
    case False
    then show ?thesis using Cons.prems by (intro exI [of _ 0]) simp
  qed
qed simp

lemma strim_loop_eq:
  "n \<le> length s \<Longrightarrow> take (strim_loop s n) s = rev (dropWhile isspace (rev (take n s))) \<and> strim_loop s n \<le> n"
  by (induction n) (auto simp: take_Suc_conv_app_nth)

lemma strim_cstr:
  assumes "is_cstr s"
  shows "\<exists>s'. strim s = Some s' \<and> str_of s' = rev (dropWhile isspace (rev (dropWhile isspace (str_of s))))"
proof -
  obtain k where k: "skip_spaces s = Some (drop k s)" "is_cstr (drop k s)" "str_of (drop k s) = dropWhile isspace (str_of s)"
    using skip_spaces_cstr [OF assms] by blast
  define t where "t = drop k s"
  define n where "n = strim_loop t (length (str_of t))"
  have l: "length (str_of t) < length t" using length_str_of [OF k(2)] by (simp add: t_def)
  have n: "take n t = rev (dropWhile isspace (rev (take (length (str_of t)) t)))" "n \<le> length (str_of t)"
    unfolding n_def using strim_loop_eq [of "length (str_of t)" t] l by simp_all
  have tk: "take (length (str_of t)) t = str_of t" "take n t = take n (str_of t)"
    using take_str_of [of "length (str_of t)" t] take_str_of [OF n(2)] by simp_all
  have "0 \<notin> set (take n (str_of t))" using str_of_nonzero in_set_takeD by metis
  moreover have "t[n := 0] = take n (str_of t) @ 0 # drop (Suc n) t"
    using n(2) l tk(2) by (simp add: upd_conv_take_nth_drop)
  ultimately have st: "str_of (t[n := 0]) = take n (str_of t)" by (simp add: str_of_app)
  show ?thesis
  proof (cases "str_of t = []")
    case True
    then have e: "dropWhile isspace (str_of s) = []" using k(3) by (simp add: t_def)
    then show ?thesis using k cstrlen_cstr [OF k(2)] unfolding e by (simp add: strim_def)
  next
    case False
    then have "strim s = Some (t[n := 0])"
      using k(1) cstrlen_cstr [OF k(2)] n(2) l by (simp add: strim_def t_def [symmetric] n_def store_def)
    then show ?thesis using st n(1) tk k(3) unfolding t_def by simp
  qed
qed

lemma strsep_cstr:
  assumes "is_cstr (drop b m)" "is_cstr ct"
  defines "D \<equiv> set (str_of ct)" and "x \<equiv> str_of (drop b m)"
  shows "\<exists>m' r. strsep m (Some b) ct = Some (Some b, m', r) \<and> str_of (drop b m') = takeWhile (\<lambda>c. c \<notin> D) x
    \<and> (case r of None \<Rightarrow> set x \<inter> D = {} \<and> m' = m
        | Some p \<Rightarrow> is_cstr (drop p m') \<and> (\<exists>d\<in>D. x = takeWhile (\<lambda>c. c \<notin> D) x @ d # str_of (drop p m')))"
proof (cases "set x \<inter> D = {}")
  case True
  then have e: "x = takeWhile (\<lambda>c. c \<notin> D) x" by (intro sym [OF takeWhile_eq_all_conv [THEN iffD2]]) auto
  show ?thesis using True strpbrk_cstr [OF assms(1,2)]
    by (simp add: strsep_def D_def [symmetric] x_def [symmetric] e [symmetric])
next
  case False
  define y where "y = takeWhile (\<lambda>c. c \<notin> D) x"
  obtain d z where z: "x = y @ d # z" "d \<in> D"
  proof -
    from False have "dropWhile (\<lambda>c. c \<notin> D) x \<noteq> []" by (auto simp: dropWhile_eq_Nil_conv)
    then obtain d z where "dropWhile (\<lambda>c. c \<notin> D) x = d # z" by (cases "dropWhile (\<lambda>c. c \<notin> D) x") auto
    moreover from this have "x = y @ d # z" unfolding y_def by (metis takeWhile_dropWhile_id)
    moreover have "d \<in> D" using hd_dropWhile [of "\<lambda>c. c \<notin> D" x] calculation(1) by simp
    ultimately show thesis using that [of d z] by simp
  qed
  have len: "length y < length x" "Suc (length y) \<le> length x" using z by simp_all
  have lx: "length x < length m - b" using length_str_of [OF assms(1)] by (simp add: x_def)
  define m' where "m' = m[b + length y := 0]"
  have "drop b m' = (drop b m)[length y := 0]" unfolding m'_def by (simp add: drop_update_swap)
  also have "\<dots> = y @ 0 # drop (Suc (length y)) (drop b m)"
    using len lx take_str_of [of "length y" "drop b m"] z by (simp add: x_def [symmetric] upd_conv_take_nth_drop)
  finally have dm: "drop b m' = y @ 0 # drop (Suc (length y)) (drop b m)" .
  have "0 \<notin> set y" using z(1) str_of_nonzero [of "drop b m"] by (auto simp: x_def [symmetric])
  then have tok: "str_of (drop b m') = y" using dm by (simp add: str_of_app)
  have "drop (b + length y + 1) m' = drop (Suc (length y)) (drop b m)"
    unfolding m'_def by (simp add: add.commute)
  moreover have "is_cstr (drop (Suc (length y)) (drop b m)) \<and> str_of (drop (Suc (length y)) (drop b m)) = z"
    using drop_str_of [OF assms(1), of "Suc (length y)"] len z(1) by (simp add: x_def [symmetric])
  ultimately have rest: "is_cstr (drop (b + length y + 1) m')" "str_of (drop (b + length y + 1) m') = z" by simp_all
  have "strsep m (Some b) ct = Some (Some b, m', Some (b + length y + 1))"
    using strpbrk_cstr [OF assms(1,2)] False len lx
    by (simp add: strsep_def store_def m'_def D_def [symmetric] x_def [symmetric] y_def [symmetric])
  then show ?thesis using tok rest z unfolding y_def [symmetric] by auto
qed

lemma sysfs_streq_cstr:
  "is_cstr s \<Longrightarrow> is_cstr t \<Longrightarrow> sysfs_streq s t =
    Some (str_of s = str_of t \<or> str_of t = str_of s @ [10] \<or> str_of s = str_of t @ [10])"
proof (induction s t rule: sysfs_streq.induct)
  case (1 a s1 b s2)
  show ?case
  proof (cases "a \<noteq> 0 \<and> a = b")
    case True
    then show ?thesis using 1 by auto
  next
    case False
    then show ?thesis using "1.prems"
      by (cases s1; cases s2) (auto simp: sysfs_streq_end_def rd_def)
  qed
qed auto

subsection \<open>Areas\<close>

lemma memset_eq: "n \<le> length s \<Longrightarrow> memset s c n = Some (replicate n c @ drop n s)"
  by (induction s c n rule: memset.induct) auto

lemma memchr_eq: "n \<le> length s \<Longrightarrow> memchr s c n = Some (if c \<in> set (take n s)
    then Some (drop (length (takeWhile (\<lambda>x. x \<noteq> c) s)) s) else None)"
  by (induction s c n rule: memchr.induct) auto

lemma copy_up_eq:
  assumes "tmp \<le> s" "s + n \<le> length m"
  shows "\<exists>m'. copy_up m tmp s n = Some m' \<and> length m' = length m
    \<and> (\<forall>i<length m. m' ! i = (if tmp \<le> i \<and> i < tmp + n then m ! (s + (i - tmp)) else m ! i))"
  using assms
proof (induction n arbitrary: m tmp s)
  case (Suc n)
  let ?m = "m[tmp := m ! s]"
  obtain m' where m': "copy_up ?m (tmp + 1) (s + 1) n = Some m'" "length m' = length m"
    and nth: "\<And>i. i < length m \<Longrightarrow>
      m' ! i = (if tmp + 1 \<le> i \<and> i < tmp + 1 + n then ?m ! (s + 1 + (i - (tmp + 1))) else ?m ! i)"
    using Suc.IH [of "tmp + 1" "s + 1" ?m] Suc.prems by auto
  have "m' ! i = (if tmp \<le> i \<and> i < tmp + Suc n then m ! (s + (i - tmp)) else m ! i)" if i: "i < length m" for i
  proof (cases "tmp + 1 \<le> i \<and> i < tmp + 1 + n")
    case True
    then have "s + 1 + (i - (tmp + 1)) = s + (i - tmp)" "s + (i - tmp) \<noteq> tmp" using Suc.prems by auto
    then show ?thesis using nth [OF i] True by simp
  next
    case False
    then show ?thesis using nth [OF i] i Suc.prems by (cases "i = tmp") auto
  qed
  then show ?case using m' Suc.prems by (simp add: rd_def store_def)
qed auto

lemma copy_down_eq:
  assumes "s \<le> d" "d + n \<le> length m"
  shows "\<exists>m'. copy_down m (d + n) (s + n) n = Some m' \<and> length m' = length m
    \<and> (\<forall>i<length m. m' ! i = (if d \<le> i \<and> i < d + n then m ! (s + (i - d)) else m ! i))"
  using assms
proof (induction n arbitrary: m)
  case (Suc n)
  let ?m = "m[d + n := m ! (s + n)]"
  obtain m' where m': "copy_down ?m (d + n) (s + n) n = Some m'" "length m' = length m"
    and nth: "\<And>i. i < length m \<Longrightarrow> m' ! i = (if d \<le> i \<and> i < d + n then ?m ! (s + (i - d)) else ?m ! i)"
    using Suc.IH [of ?m] Suc.prems by auto
  have "m' ! i = (if d \<le> i \<and> i < d + Suc n then m ! (s + (i - d)) else m ! i)" if i: "i < length m" for i
  proof (cases "d \<le> i \<and> i < d + n")
    case True
    then have "s + (i - d) \<noteq> d + n" using Suc.prems by auto
    then show ?thesis using nth [OF i] True by simp
  next
    case False
    then show ?thesis using nth [OF i] i Suc.prems by (cases "i = d + n") auto
  qed
  then show ?case using m' Suc.prems by (simp add: rd_def store_def)
qed auto

subsection \<open>What a bounded copy leaves\<close>

definition cut_string :: "nat \<Rightarrow> u8 list \<Rightarrow> u8 list \<Rightarrow> u8 list" where
  "cut_string n x dest = take (n - 1) x @ 0 # drop (Suc (min (n - 1) (length x))) dest"

lemma cut_string_props:
  assumes "0 < n" "n \<le> length dest" "0 \<notin> set x"
  shows "length (cut_string n x dest) = length dest \<and> is_cstr (take n (cut_string n x dest))
    \<and> str_of (cut_string n x dest) = take (n - 1) x \<and> drop n (cut_string n x dest) = drop n dest"
proof -
  define k where "k = min (n - 1) (length x)"
  have k: "k < n" "length (take (n - 1) x) = k" using assms(1) by (auto simp: k_def)
  obtain j where j: "n = Suc (k + j)" using less_imp_Suc_add [OF k(1)] by blast
  then have nk: "n - length (take (n - 1) x) = Suc j" unfolding k(2) by simp
  have "0 \<notin> set (take (n - 1) x)" using assms(3) by (meson in_set_takeD)
  then have "str_of (take (n - 1) x @ 0 # drop (Suc k) dest) = take (n - 1) x" by (simp add: str_of_app)
  moreover have "0 \<in> set (take n (take (n - 1) x @ 0 # drop (Suc k) dest))"
    unfolding take_append nk by simp
  moreover have "drop n (take (n - 1) x @ 0 # drop (Suc k) dest) = drop j (drop (Suc k) dest)"
    unfolding drop_append nk using k by simp
  then have "drop n (take (n - 1) x @ 0 # drop (Suc k) dest) = drop n dest" unfolding j by (simp add: add.commute)
  moreover have "length (take (n - 1) x @ 0 # drop (Suc k) dest) = length dest" using k assms(2) by simp
  ultimately show ?thesis unfolding cut_string_def k_def [symmetric] is_cstr_def by blast
qed

section \<open>Properties\<close>

text \<open>C38: \<^verbatim>\<open>strlcpy\<close> and \<^verbatim>\<open>strlcat\<close> with the size of the destination (or less) stay inside it for every source
  string, leave a terminated string there that is the longest prefix which fits, touch no byte from the
  given size on, and return the length of the string they tried to create.\<close>

theorem strlcpy_strlcat_bounded:
  assumes "is_cstr src" "0 < n" "n \<le> length dest"
  shows "(\<exists>d'. strlcpy dest src n = Some (length (str_of src), d') \<and> length d' = length dest
      \<and> is_cstr (take n d') \<and> str_of d' = take (n - 1) (str_of src) \<and> drop n d' = drop n dest)
    \<and> (is_cstr dest \<longrightarrow> length (str_of dest) < n \<longrightarrow>
        (\<exists>d'. strlcat dest src n = Some (length (str_of dest) + length (str_of src), d') \<and> length d' = length dest
          \<and> is_cstr (take n d') \<and> str_of d' = take (n - 1) (str_of dest @ str_of src) \<and> drop n d' = drop n dest))"
proof -
  have "strlcpy dest src n = Some (length (str_of src), cut_string n (str_of src) dest)"
    using strlcpy_cstr [OF assms(1,3)] assms(2) unfolding cut_string_def by simp
  moreover have "strlcat dest src n = Some (length (str_of dest) + length (str_of src), cut_string n (str_of dest @ str_of src) dest)"
    if "is_cstr dest" "length (str_of dest) < n"
    using strlcat_cstr [OF assms(1) that(1) assms(3) that(2)] unfolding cut_string_def length_append .
  moreover have "0 \<notin> set (str_of src)" "0 \<notin> set (str_of dest @ str_of src)" by (simp_all add: str_of_nonzero)
  ultimately show ?thesis using cut_string_props [OF assms(2,3)] by blast
qed

text \<open>The source \<^verbatim>\<open>"abc"\<close> into a buffer of three bytes.\<close>

theorem strlcpy_strlcat_bounded_witness:
  "\<exists>d'. strlcpy [1, 2, 3, 4] [97, 98, 99, 0] 3 = Some (3, d') \<and> str_of d' = [97, 98] \<and> drop 3 d' = [4]"
  using strlcpy_strlcat_bounded [of "[97, 98, 99, 0]" 3 "[1, 2, 3, 4]"] by auto

text \<open>C39: On every pair of C strings, \<^verbatim>\<open>strcmp\<close> is the lexicographic order of the unsigned bytes, and \<^verbatim>\<open>strstr\<close> returns
  the first place where the second string occurs in the first, or NULL when it occurs nowhere; neither reads
  past the terminators.\<close>

theorem strcmp_strstr_correct:
  assumes "is_cstr s" "is_cstr t"
  shows "strcmp s t = Some (if str_of s = str_of t then 0
      else if (str_of s, str_of t) \<in> lexord {(a, b). a < b} then -1 else 1)
    \<and> (case strstr s t of
         Some (Some p) \<Rightarrow> \<exists>k. p = drop k s \<and> prefix (str_of t) (str_of p) \<and> (\<forall>j<k. \<not> prefix (str_of t) (drop j (str_of s)))
       | Some None \<Rightarrow> \<not> sublist (str_of t) (str_of s)
       | None \<Rightarrow> False)"
proof (cases "str_of t = []")
  case True
  then have "strstr s t = Some (Some s)" using assms by (simp add: strstr_def cstrlen_cstr)
  then show ?thesis using strcmp_cstr [OF assms] True by (auto intro: exI [of _ 0])
next
  case False
  define P where "P = (\<lambda>k. prefix (str_of t) (drop k (str_of s)))"
  have st: "strstr s t = Some (if \<exists>k. P k then Some (drop (LEAST k. P k) s) else None)"
    unfolding P_def by (rule strstr_cstr [OF assms False])
  have "\<exists>k. drop l s = drop k s \<and> prefix (str_of t) (str_of (drop l s)) \<and> (\<forall>j<k. \<not> P j)"
    if l: "l = (LEAST k. P k)" and k: "P k" for l k
  proof -
    have Pl: "P l" unfolding l by (rule LeastI [of P, OF k])
    then have "l < length (str_of s)" using False by (cases "l < length (str_of s)") (auto simp: P_def)
    then have "str_of (drop l s) = drop l (str_of s)" using drop_str_of [OF assms(1), of l] by simp
    moreover have "\<forall>j<l. \<not> P j" unfolding l using not_less_Least by blast
    ultimately show ?thesis using Pl unfolding P_def by auto
  qed
  moreover have "\<not> sublist (str_of t) (str_of s)" if "\<nexists>k. P k"
  proof
    assume "sublist (str_of t) (str_of s)"
    then obtain x y where "str_of s = x @ str_of t @ y" by (auto simp: sublist_def)
    then have "P (length x)" by (simp add: P_def)
    then show False using that by blast
  qed
  ultimately show ?thesis using st strcmp_cstr [OF assms] unfolding P_def by auto
qed

theorem strcmp_strstr_correct_witness:
  "is_cstr [98, 97, 98, 0] \<and> strcmp [98, 97, 98, 0] [97, 98, 0] = Some 1"
  using strcmp_strstr_correct [of "[98, 97, 98, 0]" "[97, 98, 0]"] by simp

text \<open>C40: \<^verbatim>\<open>memmove\<close> copies the source area as it was before the call, whether or not the two areas overlap and in
  whichever direction, and changes no other byte.\<close>

theorem memmove_correct:
  assumes "dest + n \<le> length m" "src + n \<le> length m"
  shows "memmove m dest src n = Some (take dest m @ take n (drop src m) @ drop (dest + n) m)"
proof -
  have "\<exists>m'. memmove m dest src n = Some m' \<and> length m' = length m
    \<and> (\<forall>i<length m. m' ! i = (if dest \<le> i \<and> i < dest + n then m ! (src + (i - dest)) else m ! i))"
  proof (cases "dest \<le> src")
    case True
    then show ?thesis using copy_up_eq [of dest src n m] assms by (simp add: memmove_def)
  next
    case False
    then show ?thesis using copy_down_eq [of src dest n m] assms by (simp add: memmove_def)
  qed
  then obtain m' where m': "memmove m dest src n = Some m'" "length m' = length m"
    "\<forall>i<length m. m' ! i = (if dest \<le> i \<and> i < dest + n then m ! (src + (i - dest)) else m ! i)" by blast
  have "m' = take dest m @ take n (drop src m) @ drop (dest + n) m"
    by (rule nth_equalityI) (use m'(2,3) assms in \<open>auto simp: nth_append\<close>)
  then show ?thesis using m'(1) by simp
qed

theorem memmove_correct_witness:
  "memmove [1, 2, 3, 4, 5] 1 0 3 = Some [1, 1, 2, 3, 5]"
  using memmove_correct [of 1 3 "[1, 2, 3, 4, 5]" 0] by simp

end
