(* ===== verification/Strtox.thy ===== *)
theory Strtox
  imports Cstring
begin

unbundle bit_operations_syntax

text \<open>The conversions from strings to numbers of \<^verbatim>\<open>lib/vsprintf.c\<close>. Strings are as in \<^verbatim>\<open>lib/string.c\<close>; the
  pointer \<^verbatim>\<open>*endp\<close> behind the number is the rest of the string. Values are machine words, and a value that does
  not fit wraps as it does in the code.\<close>

section \<open>Conversions\<close>

definition TOLOWER :: "u8 \<Rightarrow> u8" where
  "TOLOWER x = x OR 0x20"

text \<open>The characters \<^verbatim>\<open>'0'\<close>, \<^verbatim>\<open>'x'\<close> and \<^verbatim>\<open>'a'\<close> are 48, 120 and 97.\<close>

definition simple_guess_base :: "u8 list \<Rightarrow> u32 option" where
  "simple_guess_base cp = do {
     c0 \<leftarrow> rd cp 0;
     if c0 = 48 then do {
       c1 \<leftarrow> rd cp 1;
       if TOLOWER c1 = 120 then do { c2 \<leftarrow> rd cp 2; Some (if isxdigit c2 then 16 else 8) } else Some 8
     } else Some 10
   }"

definition digit_value :: "u8 \<Rightarrow> u32" where
  "digit_value c = (if isdigit c then ucast c - 48 else ucast (TOLOWER c) - 97 + 10)"

fun strtoull_loop :: "u32 \<Rightarrow> u64 \<Rightarrow> u8 list \<Rightarrow> (u64 \<times> u8 list) option" where
  "strtoull_loop base result (c # cp) =
    (if isxdigit c then
       let value = digit_value c
       in if value \<ge> base then Some (result, c # cp)
          else strtoull_loop base (result * ucast base + ucast value) cp
     else Some (result, c # cp))"
| "strtoull_loop base result [] = None"

definition skip_0x :: "u32 \<Rightarrow> u8 list \<Rightarrow> u8 list option" where
  "skip_0x base cp =
    (if base = 16 then do {
       c0 \<leftarrow> rd cp 0;
       if c0 = 48 then do { c1 \<leftarrow> rd cp 1; Some (if TOLOWER c1 = 120 then drop 2 cp else cp) } else Some cp
     } else Some cp)"

definition simple_strtoull :: "u8 list \<Rightarrow> u32 \<Rightarrow> (u64 \<times> u8 list) option" where
  "simple_strtoull cp base = do {
     base \<leftarrow> (if base = 0 then simple_guess_base cp else Some base);
     cp \<leftarrow> skip_0x base cp;
     strtoull_loop base 0 cp
   }"

definition simple_strtoul :: "u8 list \<Rightarrow> u32 \<Rightarrow> (ulong \<times> u8 list) option" where
  "simple_strtoul cp base = map_option (map_prod ucast id) (simple_strtoull cp base)"

text \<open>The character \<^verbatim>\<open>'-'\<close> is 45. A signed result is the word that holds it.\<close>

definition simple_strtol :: "u8 list \<Rightarrow> u32 \<Rightarrow> (ulong \<times> u8 list) option" where
  "simple_strtol cp base = do {
     c \<leftarrow> rd cp 0;
     if c = 45 then map_option (map_prod uminus id) (simple_strtoul (tl cp) base) else simple_strtoul cp base
   }"

definition simple_strtoll :: "u8 list \<Rightarrow> u32 \<Rightarrow> (u64 \<times> u8 list) option" where
  "simple_strtoll cp base = do {
     c \<leftarrow> rd cp 0;
     if c = 45 then map_option (map_prod uminus id) (simple_strtoull (tl cp) base) else simple_strtoull cp base
   }"

text \<open>The strict conversions return the error code and the value they leave in \<^verbatim>\<open>*res\<close>; \<^verbatim>\<open>'\n'\<close> is 10.\<close>

definition strict_tail_ok :: "nat \<Rightarrow> u8 list \<Rightarrow> u8 list \<Rightarrow> bool option" where
  "strict_tail_ok len cp tail = do {
     t \<leftarrow> rd tail 0;
     Some (t = 0 \<or> len = (length cp - length tail) + 1 \<and> t = 10)
   }"

definition strict_strtoul :: "u8 list \<Rightarrow> u32 \<Rightarrow> (unit kresult \<times> ulong) option" where
  "strict_strtoul cp base = do {
     len \<leftarrow> cstrlen cp;
     if len = 0 then Some (Inl EINVAL, 0)
     else do {
       (val, tail) \<leftarrow> simple_strtoul cp base;
       if length tail = length cp then Some (Inl EINVAL, 0)
       else do { ok \<leftarrow> strict_tail_ok len cp tail; Some (if ok then (Inr (), val) else (Inl EINVAL, 0)) }
     }
   }"

definition strict_strtol :: "u8 list \<Rightarrow> u32 \<Rightarrow> (unit kresult \<times> ulong) option" where
  "strict_strtol cp base = do {
     c \<leftarrow> rd cp 0;
     if c = 45 then do {
       (ret, res) \<leftarrow> strict_strtoul (tl cp) base;
       Some (ret, if ret = Inr () then - res else res)
     } else strict_strtoul cp base
   }"

definition strict_strtoull :: "u8 list \<Rightarrow> u32 \<Rightarrow> (unit kresult \<times> u64) option" where
  "strict_strtoull cp base = do {
     len \<leftarrow> cstrlen cp;
     if len = 0 then Some (Inl EINVAL, 0)
     else do {
       (val, tail) \<leftarrow> simple_strtoull cp base;
       if length tail = length cp then Some (Inl EINVAL, 0)
       else do { ok \<leftarrow> strict_tail_ok len cp tail; Some (if ok then (Inr (), val) else (Inl EINVAL, 0)) }
     }
   }"

definition strict_strtoll :: "u8 list \<Rightarrow> u32 \<Rightarrow> (unit kresult \<times> u64) option" where
  "strict_strtoll cp base = do {
     c \<leftarrow> rd cp 0;
     if c = 45 then do {
       (ret, res) \<leftarrow> strict_strtoull (tl cp) base;
       Some (ret, if ret = Inr () then - res else res)
     } else strict_strtoull cp base
   }"

text \<open>\<^verbatim>\<open>skip_atoi\<close> returns the number and the rest of the string; the \<^verbatim>\<open>int\<close> is a word.\<close>

fun skip_atoi_loop :: "u32 \<Rightarrow> u8 list \<Rightarrow> (u32 \<times> u8 list) option" where
  "skip_atoi_loop i (c # s) = (if isdigit c then skip_atoi_loop (i * 10 + ucast c - 48) s else Some (i, c # s))"
| "skip_atoi_loop i [] = None"

definition skip_atoi :: "u8 list \<Rightarrow> (u32 \<times> u8 list) option" where
  "skip_atoi s = skip_atoi_loop 0 s"

section \<open>The value of a numeral\<close>

text \<open>The digits of a base are the characters that the loop accepts.\<close>

definition is_digit_of :: "u32 \<Rightarrow> u8 \<Rightarrow> bool" where
  "is_digit_of base c \<longleftrightarrow> isxdigit c \<and> digit_value c < base"

definition numeral_value :: "nat \<Rightarrow> u8 list \<Rightarrow> nat" where
  "numeral_value b ds = foldl (\<lambda>v c. v * b + unat (digit_value c)) 0 ds"

lemma ucast_of_nat_unat: "ucast w = (of_nat (unat w) :: 'b::len word)" for w :: "'a::len word"
  by simp

text \<open>The value of a hexadecimal digit.\<close>

lemma digit_value_eq:
  assumes "isxdigit c"
  shows "unat (digit_value c) = (if unat c \<le> 57 then unat c - 48 else if unat c \<le> 70 then unat c - 55 else unat c - 87)"
proof -
  have *: "unat (digit_value (of_nat n)) = n - 48" if "48 \<le> n" "n < 58" for n
  proof -
    have "n \<in> set [48..<58]" using that by (simp only: set_upt atLeastLessThan_iff)
    then show ?thesis by (simp add: upt_rec_numeral) (auto simp: digit_value_def isdigit_iff)
  qed
  have **: "unat (digit_value (of_nat n)) = n - 55" if "65 \<le> n" "n < 71" for n
  proof -
    have "n \<in> set [65..<71]" using that by (simp only: set_upt atLeastLessThan_iff)
    then show ?thesis by (simp add: upt_rec_numeral) (auto simp: digit_value_def isdigit_iff TOLOWER_def)
  qed
  have ***: "unat (digit_value (of_nat n)) = n - 87" if "97 \<le> n" "n < 103" for n
  proof -
    have "n \<in> set [97..<103]" using that by (simp only: set_upt atLeastLessThan_iff)
    then show ?thesis by (simp add: upt_rec_numeral) (auto simp: digit_value_def isdigit_iff TOLOWER_def)
  qed
  consider "48 \<le> unat c \<and> unat c \<le> 57" | "65 \<le> unat c \<and> unat c \<le> 70" | "97 \<le> unat c \<and> unat c \<le> 102"
    using assms by (auto simp: isxdigit_iff)
  then show ?thesis
  proof cases
    case 1
    then show ?thesis using * [of "unat c"] by simp
  next
    case 2
    then show ?thesis using ** [of "unat c"] by simp
  next
    case 3
    then show ?thesis using *** [of "unat c"] by simp
  qed
qed

lemma strtoull_loop_eq:
  fixes base :: u32
  assumes "is_cstr s"
  defines "ds \<equiv> takeWhile (is_digit_of base) s"
  shows "strtoull_loop base (of_nat a) s = Some (of_nat (foldl (\<lambda>v c. v * unat base + unat (digit_value c)) a ds), drop (length ds) s)"
  using assms(1) unfolding ds_def
proof (induction s arbitrary: a)
  case (Cons c s)
  show ?case
  proof (cases "is_digit_of base c")
    case True
    then have d: "is_cstr s" "isxdigit c" "\<not> base \<le> digit_value c" using Cons.prems
      by (auto simp: is_digit_of_def isxdigit_iff not_le)
    moreover have "of_nat a * ucast base + ucast (digit_value c) = (of_nat (a * unat base + unat (digit_value c)) :: u64)"
      by simp
    ultimately show ?thesis using True Cons.IH [of "a * unat base + unat (digit_value c)"] by simp
  next
    case False
    then show ?thesis by (auto simp: is_digit_of_def Let_def)
  qed
qed simp

lemma strtoull_loop_value:
  assumes "is_cstr s"
  shows "strtoull_loop base 0 s = Some (of_nat (numeral_value (unat base) (takeWhile (is_digit_of base) s)),
    drop (length (takeWhile (is_digit_of base) s)) s)"
  using strtoull_loop_eq [OF assms, of base 0] by (simp add: numeral_value_def)

lemma digit_nonzero: "is_digit_of base c \<Longrightarrow> c \<noteq> 0"
  by (auto simp: is_digit_of_def isxdigit_iff)

text \<open>The prefix \<^verbatim>\<open>0x\<close>.\<close>

definition has_0x :: "u8 list \<Rightarrow> bool" where
  "has_0x s \<longleftrightarrow> take 2 s = [48, 120] \<or> take 2 s = [48, 88]"

lemma TOLOWER_x: "TOLOWER c = 120 \<longleftrightarrow> c = 120 \<or> c = 88"
proof -
  have "map (\<lambda>n. TOLOWER (of_nat n) = 120) [0..<256] = map (\<lambda>n. n = 120 \<or> n = 88) [0..<256]"
    by (simp add: upt_bytes upt_rec_numeral TOLOWER_def)
  moreover have "unat c \<in> set [0..<256]" using unsigned_less [of c] by (simp only: set_upt) simp
  ultimately have "TOLOWER (of_nat (unat c)) = 120 \<longleftrightarrow> unat c = 120 \<or> unat c = 88" by (simp only: map_eq_conv)
  also have "\<dots> \<longleftrightarrow> c = 120 \<or> c = 88"
    using unat_arith_simps(3) [of c 120] unat_arith_simps(3) [of c 88] by simp
  finally show ?thesis by simp
qed

text \<open>A string that does not end at its first characters can be read there.\<close>

lemma cstr_cases:
  assumes "is_cstr s"
  obtains r where "s = 0 # r" | c r where "s = c # r" "c \<noteq> 0" "is_cstr r"
  using assms by (cases s) auto

lemma guess_base_cstr:
  assumes "is_cstr s"
  shows "simple_guess_base s = Some (if has_0x s \<and> isxdigit (s ! 2) then 16 else if s ! 0 = 48 then 8 else 10)"
  using assms
proof (cases rule: cstr_cases)
  case (2 c r)
  from \<open>is_cstr r\<close> show ?thesis
  proof (cases rule: cstr_cases)
    case inner: (2 c' r')
    then obtain x y where "r' = x # y" by (cases r') auto
    then show ?thesis using 2 inner by (auto simp: simple_guess_base_def rd_def has_0x_def TOLOWER_x)
  qed (use 2 in \<open>auto simp: simple_guess_base_def rd_def has_0x_def TOLOWER_x\<close>)
qed (auto simp: simple_guess_base_def rd_def has_0x_def)

lemma skip_0x_cstr:
  assumes "is_cstr s"
  shows "skip_0x base s = Some (if base = 16 \<and> has_0x s then drop 2 s else s) \<and> (has_0x s \<longrightarrow> is_cstr (drop 2 s))"
  using assms
proof (cases rule: cstr_cases)
  case (2 c r)
  from \<open>is_cstr r\<close> show ?thesis
    by (cases rule: cstr_cases) (use 2 in \<open>auto simp: skip_0x_def rd_def has_0x_def TOLOWER_x\<close>)
qed (auto simp: skip_0x_def rd_def has_0x_def)

lemma strtoull_cstr:
  fixes base :: u32
  assumes "is_cstr s"
  defines "b \<equiv> (if base = 0 then if has_0x s \<and> isxdigit (s ! 2) then 16 else if s ! 0 = 48 then 8 else 10 else base)"
  defines "t \<equiv> (if b = 16 \<and> has_0x s then drop 2 s else s)"
  shows "is_cstr t"
    "simple_strtoull s base = Some (of_nat (numeral_value (unat b) (takeWhile (is_digit_of b) t)),
       drop (length (takeWhile (is_digit_of b) t)) t)"
proof -
  show t: "is_cstr t" using assms(1) skip_0x_cstr [OF assms(1)] by (simp add: t_def)
  have "(if base = 0 then simple_guess_base s else Some base) = Some b"
    using guess_base_cstr [OF assms(1)] by (simp add: b_def)
  moreover have "skip_0x b s = Some t" using skip_0x_cstr [OF assms(1)] by (simp add: t_def)
  ultimately show "simple_strtoull s base = Some (of_nat (numeral_value (unat b) (takeWhile (is_digit_of b) t)),
       drop (length (takeWhile (is_digit_of b) t)) t)"
    using strtoull_loop_value [OF t] unfolding simple_strtoull_def by simp
qed

lemma drop_takeWhile: "drop (length (takeWhile P s)) s = dropWhile P s"
  by (simp add: dropWhile_eq_drop)

lemma is_digit_of_10: "is_digit_of 10 = isdigit"
proof
  fix c
  show "is_digit_of 10 c = isdigit c"
    using digit_value_eq [of c] by (auto simp: is_digit_of_def isdigit_iff isxdigit_iff word_less_nat_alt)
qed

lemma takeWhile_str_of: "\<not> P 0 \<Longrightarrow> takeWhile P (str_of s) = takeWhile P s"
  by (induction s) auto

lemma cstr_dropWhile: "is_cstr s \<Longrightarrow> \<not> P 0 \<Longrightarrow> is_cstr (dropWhile P s) \<and> str_of (dropWhile P s) = dropWhile P (str_of s)"
  by (induction s) auto

text \<open>The strict conversions differ in the width of the value only.\<close>

lemma strict_decimal:
  assumes "is_cstr s"
  defines "ds \<equiv> takeWhile isdigit s"
  shows "strict_strtoull s 10 = Some (if ds \<noteq> [] \<and> (str_of s = ds \<or> str_of s = ds @ [10])
     then (Inr (), of_nat (numeral_value 10 ds)) else (Inl EINVAL, 0))"
proof -
  define t where "t = dropWhile isdigit s"
  have nd: "\<not> isdigit 0" "\<not> isdigit 10" by (simp_all add: isdigit_iff)
  have t: "is_cstr t" "str_of t = dropWhile isdigit (str_of s)" using cstr_dropWhile [of s isdigit] assms(1) nd by (simp_all add: t_def)
  have st: "s = ds @ t" by (simp add: ds_def t_def)
  have "0 \<notin> set ds" using nd(1) unfolding ds_def by (meson set_takeWhileD)
  then have ss: "str_of s = ds @ str_of t" unfolding st by (simp add: str_of_app)
  have v: "simple_strtoull s 10 = Some (of_nat (numeral_value 10 ds), t)"
    using strtoull_cstr(2) [OF assms(1), of 10] by (simp add: is_digit_of_10 ds_def t_def drop_takeWhile)
  have len: "cstrlen s = Some (length ds + length (str_of t))" using cstrlen_cstr [OF assms(1)] ss by simp
  obtain c r where c: "t = c # r" using t(1) by (cases t) auto
  have "\<not> isdigit c" using c unfolding t_def by (metis hd_dropWhile list.distinct(1) list.sel(1))
  show ?thesis
  proof (cases "ds = []")
    case True
    then show ?thesis using len v st by (simp add: strict_strtoull_def)
  next
    case False
    have ok: "strict_tail_ok (length ds + length (str_of t)) s t = Some (str_of t = [] \<or> str_of t = [10])"
      using c st by (auto simp: strict_tail_ok_def rd_def)
    then show ?thesis using False len v st ss by (simp add: strict_strtoull_def)
  qed
qed

section \<open>Properties\<close>

text \<open>C34: The strict conversion accepts exactly the strings that are a non-empty sequence of decimal digits,
  optionally followed by one newline, and returns their value modulo \<open>2 ^ 64\<close>; every other string gives
  \<^verbatim>\<open>-EINVAL\<close> and the value 0. No string makes it read past the terminator.\<close>

theorem strict_strtoull_decimal:
  assumes "is_cstr s"
  shows "strict_strtoull s 10 = Some (
     let ds = takeWhile isdigit s
     in if ds \<noteq> [] \<and> (str_of s = ds \<or> str_of s = ds @ [10]) then (Inr (), of_nat (numeral_value 10 ds)) else (Inl EINVAL, 0))"
  using strict_decimal [OF assms] by (simp only: Let_def)

text \<open>The string \<^verbatim>\<open>"12\n"\<close>.\<close>

theorem strict_strtoull_decimal_witness:
  "strict_strtoull [49, 50, 10, 0] 10 = Some (Inr (), 12)"
  using strict_strtoull_decimal [of "[49, 50, 10, 0]"]
  by (simp add: isdigit_iff Let_def numeral_value_def digit_value_def)

text \<open>The prefix alone is taken for a number, although no digit follows.\<close>

lemma strict_accepts_prefix: "strict_strtoull [48, 120, 0] 16 = Some (Inr (), 0)"
  by (simp add: strict_strtoull_def simple_strtoull_def skip_0x_def rd_def TOLOWER_def isxdigit_iff strict_tail_ok_def)

end
