(* ===== verification/Vsprintf_Number.thy ===== *)
theory Vsprintf_Number
  imports Strtox
begin

unbundle bit_operations_syntax

text \<open>The conversion of numbers to text of \<^verbatim>\<open>lib/vsprintf.c\<close>: the division-free decimal conversion and
  \<^verbatim>\<open>number\<close>, which every numeric format of \<^verbatim>\<open>vsnprintf\<close> ends in. The bytes that the decimal routines store
  through \<^verbatim>\<open>buf\<close> are returned as a list.\<close>

section \<open>Decimal digits without division\<close>

definition put_dec_trunc :: "u32 \<Rightarrow> u8 list" where
  "put_dec_trunc q = (
     let d1 = drop_bit 4 q AND 0xf;
         d2 = drop_bit 8 q AND 0xf;
         d3 = drop_bit 12 q;
         d0 = 6 * (d3 + d2 + d1) + (q AND 0xf);
         q = drop_bit 11 (d0 * 0xcd);
         d0 = d0 - 10 * q;
         d1 = q + 9 * d3 + 5 * d2 + d1
     in ucast (d0 + 48) # (if d1 \<noteq> 0 then
       let q = drop_bit 11 (d1 * 0xcd);
           d1 = d1 - 10 * q;
           d2 = q + 2 * d2
       in ucast (d1 + 48) # (if d2 \<noteq> 0 \<or> d3 \<noteq> 0 then
         let q = drop_bit 7 (d2 * 0xd);
             d2 = d2 - 10 * q;
             d3 = q + 4 * d3
         in ucast (d2 + 48) # (if d3 \<noteq> 0 then
           let q = drop_bit 11 (d3 * 0xcd);
               d3 = d3 - 10 * q
           in ucast (d3 + 48) # (if q \<noteq> 0 then [ucast (q + 48)] else [])
         else [])
       else [])
     else []))"

definition put_dec_full :: "u32 \<Rightarrow> u8 list" where
  "put_dec_full q = (
     let d1 = drop_bit 4 q AND 0xf;
         d2 = drop_bit 8 q AND 0xf;
         d3 = drop_bit 12 q;
         d0 = 6 * (d3 + d2 + d1) + (q AND 0xf);
         q = drop_bit 11 (d0 * 0xcd);
         b0 = d0 - 10 * q;
         d1 = q + 9 * d3 + 5 * d2 + d1;
         q = drop_bit 11 (d1 * 0xcd);
         b1 = d1 - 10 * q;
         d2 = q + 2 * d2;
         q = drop_bit 7 (d2 * 0xd);
         b2 = d2 - 10 * q;
         d3 = q + 4 * d3;
         q = drop_bit 11 (d3 * 0xcd);
         b3 = d3 - 10 * q
     in [ucast (b0 + 48), ucast (b1 + 48), ucast (b2 + 48), ucast (b3 + 48), ucast (q + 48)])"

text \<open>\<^verbatim>\<open>do_div\<close> divides in place and returns the remainder.\<close>

function put_dec :: "u64 \<Rightarrow> u8 list" where
  "put_dec num =
    (if num < 100000 then put_dec_trunc (ucast num)
     else put_dec_full (ucast (num mod 100000)) @ put_dec (num div 100000))"
  by pat_completeness auto
termination
  by (relation "measure unat") (auto simp: unat_div word_less_nat_alt intro!: div_less_dividend)

declare put_dec.simps [simp del]

subsection \<open>The digits of a number\<close>

text \<open>The digits of \<open>n\<close> in base \<open>b\<close>, the lowest first.\<close>

fun digits :: "nat \<Rightarrow> nat \<Rightarrow> nat list" where
  "digits b n = (if n < b \<or> b < 2 then [n] else n mod b # digits b (n div b))"

declare digits.simps [simp del]

definition dec_char :: "nat \<Rightarrow> u8" where
  "dec_char v = of_nat (v + 48)"

lemma drop_bit_of_nat: "n < 2 ^ 32 \<Longrightarrow> drop_bit k (of_nat n :: u32) = of_nat (n div 2 ^ k)"
proof -
  assume n: "n < 2 ^ 32"
  have "n div 2 ^ k \<le> n" by (rule div_le_dividend)
  then have "n div 2 ^ k < 2 ^ 32" using n by (rule le_less_trans)
  then show ?thesis using n
    by (intro word_unat_eq_iff [THEN iffD2]) (simp add: unat_drop_bit_eq unat_of_nat_ulong flip: drop_bit_eq_div)
qed

lemma and_of_nat: "n < 2 ^ 32 \<Longrightarrow> (of_nat n :: u32) AND 0xf = of_nat (n mod 16)"
proof -
  assume n: "n < 2 ^ 32"
  have "(0xf :: u32) = mask 4" by (simp add: mask_eq_exp_minus_1)
  moreover have "n mod 16 < 2 ^ 32" by (rule less_trans [OF mod_less_divisor]) simp_all
  moreover have "unat ((of_nat n :: u32) mod 2 ^ 4) = n mod 16" using n unat_of_nat_ulong [of n] by (simp add: unat_mod)
  ultimately show ?thesis using word_mod_2p_is_mask [of 4 "of_nat n :: u32"]
    by (intro word_unat_eq_iff [THEN iffD2]) (simp add: unat_of_nat_ulong)
qed

lemma ucast_of_nat_byte: "(ucast (of_nat n :: u32) :: u8) = of_nat n"
  by (intro word_unat_eq_iff [THEN iffD2]) (simp add: unsigned_ucast_eq unat_of_nat take_bit_eq_mod mod_mod_cancel)

text \<open>Multiplying and shifting divides by 10 in the ranges that occur.\<close>

lemma div10_cd: "x < 1000 \<Longrightarrow> x * 205 div 2048 = x div (10 :: nat)"
proof -
  assume "x < 1000"
  moreover have "x = 10 * (x div 10) + x mod 10" "x mod 10 < 10" by simp_all
  ultimately have "2048 * (x div 10) \<le> x * 205" "x * 205 < 2048 * (x div 10) + 2048" by linarith+
  then show ?thesis by (intro div_nat_eqI) simp_all
qed

lemma div10_d: "x < 64 \<Longrightarrow> x * 13 div 128 = x div (10 :: nat)"
proof -
  assume "x < 64"
  moreover have "x = 10 * (x div 10) + x mod 10" "x mod 10 < 10" by simp_all
  ultimately have "128 * (x div 10) \<le> x * 13" "x * 13 < 128 * (x div 10) + 128" by linarith+
  then show ?thesis by (intro div_nat_eqI) simp_all
qed

lemma shift_cd: "x < 1000 \<Longrightarrow> drop_bit 11 ((of_nat x :: u32) * 0xcd) = of_nat (x div 10)"
  using drop_bit_of_nat [of "x * 205" 11] by (simp add: div10_cd)

lemma shift_d: "x < 64 \<Longrightarrow> drop_bit 7 ((of_nat x :: u32) * 0xd) = of_nat (x div 10)"
  using drop_bit_of_nat [of "x * 13" 7] by (simp add: div10_d)

lemma sub_tens: "(of_nat x :: u32) - 10 * of_nat (x div 10) = of_nat (x mod 10)"
proof -
  have "(of_nat x :: u32) = of_nat (10 * (x div 10) + x mod 10)" by simp
  also have "\<dots> = 10 * of_nat (x div 10) + of_nat (x mod 10)" by (simp only: of_nat_add of_nat_mult) simp
  finally show ?thesis by simp
qed

lemma of_nat_0_iff: "n < 1000 \<Longrightarrow> (of_nat n :: u32) = 0 \<longleftrightarrow> n = 0"
  using unat_of_nat_ulong [of n] unat_eq_zero [of "of_nat n :: u32"] by simp

lemma char_of: "(ucast ((of_nat n :: u32) + 48) :: u8) = dec_char n"
proof -
  have "(of_nat n :: u32) + 48 = of_nat (n + 48)" by simp
  then show ?thesis unfolding dec_char_def by (simp only: ucast_of_nat_byte)
qed

text \<open>The sums that the routines form from the hexadecimal digits of \<open>Q\<close>: 4096 is 4000 + 90 + 6, 256 is
  200 + 50 + 6 and 16 is 10 + 6.\<close>

definition hx :: "nat \<Rightarrow> nat \<Rightarrow> nat" where
  "hx Q i = (if i = 3 then Q div 4096 else Q div 16 ^ i mod 16)"

definition sum0 :: "nat \<Rightarrow> nat" where "sum0 Q = 6 * (hx Q 3 + hx Q 2 + hx Q 1) + hx Q 0"
definition sum1 :: "nat \<Rightarrow> nat" where "sum1 Q = sum0 Q div 10 + 9 * hx Q 3 + 5 * hx Q 2 + hx Q 1"
definition sum2 :: "nat \<Rightarrow> nat" where "sum2 Q = sum1 Q div 10 + 2 * hx Q 2"
definition sum3 :: "nat \<Rightarrow> nat" where "sum3 Q = sum2 Q div 10 + 4 * hx Q 3"

lemma hx_bounds:
  assumes "Q < 100000"
  shows "hx Q 0 < 16" "hx Q 1 < 16" "hx Q 2 < 16" "hx Q 3 < 25"
    "Q = 4096 * hx Q 3 + 256 * hx Q 2 + 16 * hx Q 1 + hx Q 0"
proof -
  show "hx Q 0 < 16" "hx Q 1 < 16" "hx Q 2 < 16" by (simp_all add: hx_def)
  show "hx Q 3 < 25" using assms by (simp add: hx_def div_less_iff_less_mult)
  show "Q = 4096 * hx Q 3 + 256 * hx Q 2 + 16 * hx Q 1 + hx Q 0"
  proof -
    have "Q = 16 * (Q div 16) + Q mod 16" by simp
    moreover have "Q div 16 = 16 * (Q div 256) + Q div 16 mod 16"
      using mult_div_mod_eq [of 16 "Q div 16"] by (simp add: div_mult2_eq [symmetric])
    moreover have "Q div 256 = 16 * (Q div 4096) + Q div 256 mod 16"
      using mult_div_mod_eq [of 16 "Q div 256"] by (simp add: div_mult2_eq [symmetric])
    ultimately have "Q = 4096 * (Q div 4096) + 256 * (Q div 256 mod 16) + 16 * (Q div 16 mod 16) + Q mod 16" by linarith
    then show ?thesis by (simp add: hx_def)
  qed
qed

lemma sum_bounds:
  assumes "Q < 100000"
  shows "sum0 Q < 1000" "sum1 Q < 1000" "sum2 Q < 64" "sum3 Q < 1000"
proof -
  note b = hx_bounds [OF assms]
  show s0: "sum0 Q < 1000" using b by (simp add: sum0_def)
  have "sum0 Q < 340" using b by (simp add: sum0_def)
  then have "sum0 Q div 10 < 34" by (simp add: div_less_iff_less_mult)
  then have s1: "sum1 Q < 340" using b by (simp add: sum1_def)
  then show "sum1 Q < 1000" by simp
  have "sum1 Q div 10 < 34" using s1 by (simp add: div_less_iff_less_mult)
  then show s2: "sum2 Q < 64" using b by (simp add: sum2_def)
  have "sum2 Q div 10 < 7" using s2 by (simp add: div_less_iff_less_mult)
  then show "sum3 Q < 1000" using b by (simp add: sum3_def)
qed

lemma sum_values:
  assumes "Q < 100000"
  shows "sum0 Q mod 10 = Q mod 10" "sum1 Q + 10 * (2 * hx Q 2 + 10 * (4 * hx Q 3)) = Q div 10"
    "sum2 Q + 10 * (4 * hx Q 3) = Q div 100" "sum3 Q = Q div 1000"
proof -
  note Q = hx_bounds(5) [OF assms]
  have "Q = sum0 Q + 10 * (9 * hx Q 3 + 5 * hx Q 2 + hx Q 1 + 20 * hx Q 2 + 400 * hx Q 3)"
    using Q by (simp add: sum0_def)
  then have Q1: "Q = sum0 Q mod 10 + 10 * (sum1 Q + 10 * (2 * hx Q 2 + 10 * (4 * hx Q 3)))"
    using div_mult_mod_eq [of "sum0 Q" 10] by (simp add: sum1_def)
  have r: "sum0 Q mod 10 < 10" by simp
  show "sum0 Q mod 10 = Q mod 10" by (subst (2) Q1) (simp only: mod_mult_self2 mod_less [OF r])
  show e1: "sum1 Q + 10 * (2 * hx Q 2 + 10 * (4 * hx Q 3)) = Q div 10"
    by (subst Q1) (simp only: div_mult_self2 [of 10] div_less [OF r]; simp)
  have "Q div 10 = sum1 Q mod 10 + 10 * (sum2 Q + 10 * (4 * hx Q 3))"
    using e1 div_mult_mod_eq [of "sum1 Q" 10] by (simp add: sum2_def)
  then have "Q div 10 div 10 = sum2 Q + 10 * (4 * hx Q 3)" by simp
  then show e2: "sum2 Q + 10 * (4 * hx Q 3) = Q div 100" by (simp add: div_mult2_eq [symmetric])
  have "Q div 100 = sum2 Q mod 10 + 10 * sum3 Q"
    using e2 div_mult_mod_eq [of "sum2 Q" 10] by (simp add: sum3_def)
  then have "Q div 100 div 10 = sum3 Q" by simp
  then show "sum3 Q = Q div 1000" by (simp add: div_mult2_eq [symmetric])
qed

lemma sum_digits:
  assumes "Q < 100000"
  shows "sum1 Q mod 10 = Q div 10 mod 10" "sum2 Q mod 10 = Q div 100 mod 10" "sum3 Q div 10 = Q div 10000"
proof -
  note v = sum_values [OF assms]
  show "sum1 Q mod 10 = Q div 10 mod 10" unfolding v(2) [symmetric] by (simp only: mod_mult_self2)
  show "sum2 Q mod 10 = Q div 100 mod 10" unfolding v(3) [symmetric] by (simp only: mod_mult_self2)
  show "sum3 Q div 10 = Q div 10000" unfolding v(4) by (simp add: div_mult2_eq [symmetric])
qed

lemma hx_words:
  assumes "Q < 100000"
  shows "drop_bit 4 (of_nat Q :: u32) AND 0xf = of_nat (hx Q 1)" "drop_bit 8 (of_nat Q :: u32) AND 0xf = of_nat (hx Q 2)"
    "drop_bit 12 (of_nat Q :: u32) = of_nat (hx Q 3)" "(of_nat Q :: u32) AND 0xf = of_nat (hx Q 0)"
proof -
  have Q1: "Q < 2 ^ 32" using assms by simp
  have Q: "Q < 2 ^ 32" "Q div 16 < 2 ^ 32" "Q div 256 < 2 ^ 32"
    by (rule Q1, rule le_less_trans [OF div_le_dividend Q1], rule le_less_trans [OF div_le_dividend Q1])
  show "drop_bit 4 (of_nat Q :: u32) AND 0xf = of_nat (hx Q 1)"
    using drop_bit_of_nat [OF Q(1), of 4] and_of_nat [OF Q(2)] by (simp add: hx_def)
  show "drop_bit 8 (of_nat Q :: u32) AND 0xf = of_nat (hx Q 2)"
    using drop_bit_of_nat [OF Q(1), of 8] and_of_nat [OF Q(3)] by (simp add: hx_def)
  show "drop_bit 12 (of_nat Q :: u32) = of_nat (hx Q 3)" using drop_bit_of_nat [OF Q(1), of 12] by (simp add: hx_def)
  show "(of_nat Q :: u32) AND 0xf = of_nat (hx Q 0)" using and_of_nat [OF Q(1)] by (simp add: hx_def)
qed

lemma sum_words:
  "6 * ((of_nat (hx Q 3) :: u32) + of_nat (hx Q 2) + of_nat (hx Q 1)) + of_nat (hx Q 0) = of_nat (sum0 Q)"
  "(of_nat (sum0 Q div 10) :: u32) + 9 * of_nat (hx Q 3) + 5 * of_nat (hx Q 2) + of_nat (hx Q 1) = of_nat (sum1 Q)"
  "(of_nat (sum1 Q div 10) :: u32) + 2 * of_nat (hx Q 2) = of_nat (sum2 Q)"
  "(of_nat (sum2 Q div 10) :: u32) + 4 * of_nat (hx Q 3) = of_nat (sum3 Q)"
  by (simp_all add: sum0_def sum1_def sum2_def sum3_def)

lemma put_dec_full_eq:
  assumes "Q < 100000"
  shows "put_dec_full (of_nat Q) =
    map dec_char [Q mod 10, Q div 10 mod 10, Q div 100 mod 10, Q div 1000 mod 10, Q div 10000]"
proof -
  note b = sum_bounds [OF assms] and v = sum_values [OF assms]
  have m: "sum1 Q mod 10 = Q div 10 mod 10" "sum2 Q mod 10 = Q div 100 mod 10" "sum3 Q div 10 = Q div 10000"
    by (rule sum_digits [OF assms])+
  then show ?thesis
    unfolding put_dec_full_def Let_def hx_words [OF assms] sum_words shift_cd [OF b(1)] shift_cd [OF b(2)] shift_d [OF b(3)]
      shift_cd [OF b(4)] sub_tens char_of by (simp only: v list.map)
qed

lemma digits_small: "n < 10 \<Longrightarrow> digits 10 n = [n]"
  by (simp add: digits.simps)

lemma digits_if: "digits 10 n = n mod 10 # (if n div 10 \<noteq> 0 then digits 10 (n div 10) else [])"
  by (subst digits.simps) auto

lemma put_dec_trunc_eq:
  assumes "Q < 100000"
  shows "put_dec_trunc (of_nat Q) = map dec_char (digits 10 Q)"
proof -
  note b = sum_bounds [OF assms] and v = sum_values [OF assms]
  note m = sum_digits [OF assms]
  have z: "(of_nat (sum1 Q) :: u32) = 0 \<longleftrightarrow> sum1 Q = 0" "(of_nat (sum2 Q) :: u32) = 0 \<longleftrightarrow> sum2 Q = 0"
    "(of_nat (hx Q 3) :: u32) = 0 \<longleftrightarrow> hx Q 3 = 0" "(of_nat (sum3 Q) :: u32) = 0 \<longleftrightarrow> sum3 Q = 0"
    "(of_nat (sum3 Q div 10) :: u32) = 0 \<longleftrightarrow> sum3 Q div 10 = 0"
    using b hx_bounds(4) [OF assms] le_less_trans [OF div_le_dividend b(4), of 10] by (simp_all add: of_nat_0_iff)
  have e: "sum1 Q = 0 \<longleftrightarrow> Q div 10 = 0" "sum2 Q \<noteq> 0 \<or> hx Q 3 \<noteq> 0 \<longleftrightarrow> Q div 100 \<noteq> 0" "sum3 Q = 0 \<longleftrightarrow> Q div 1000 = 0"
  proof -
    have "sum1 Q = 0 \<Longrightarrow> hx Q 2 = 0 \<and> hx Q 3 = 0" by (simp add: sum1_def)
    then show "sum1 Q = 0 \<longleftrightarrow> Q div 10 = 0" unfolding v(2) [symmetric] by auto
    show "sum2 Q \<noteq> 0 \<or> hx Q 3 \<noteq> 0 \<longleftrightarrow> Q div 100 \<noteq> 0" unfolding v(3) [symmetric] by simp
    show "sum3 Q = 0 \<longleftrightarrow> Q div 1000 = 0" unfolding v(4) ..
  qed
  have m3: "sum3 Q mod 10 = Q div 1000 mod 10" unfolding v(4) ..
  have "put_dec_trunc (of_nat Q) = dec_char (Q mod 10) # (if Q div 10 \<noteq> 0 then dec_char (Q div 10 mod 10) #
      (if Q div 100 \<noteq> 0 then dec_char (Q div 100 mod 10) # (if Q div 1000 \<noteq> 0 then dec_char (Q div 1000 mod 10) #
        (if Q div 10000 \<noteq> 0 then [dec_char (Q div 10000)] else []) else []) else []) else [])"
    unfolding put_dec_trunc_def Let_def hx_words [OF assms] sum_words shift_cd [OF b(1)] shift_cd [OF b(2)] shift_d [OF b(3)]
      shift_cd [OF b(4)] sub_tens char_of z by (simp only: e m v(1) m3)
  also have "\<dots> = map dec_char (digits 10 Q)"
  proof -
    have "Q div 10000 < 10" using assms by (simp add: div_less_iff_less_mult)
    then have d4: "digits 10 (Q div 10000) = [Q div 10000]" by (rule digits_small)
    have dd: "Q div 10 div 10 = Q div 100" "Q div 100 div 10 = Q div 1000" "Q div 1000 div 10 = Q div 10000"
      by (simp_all add: div_mult2_eq [symmetric])
    show ?thesis
      unfolding digits_if [of Q] digits_if [of "Q div 10"] digits_if [of "Q div 100"] digits_if [of "Q div 1000"] dd d4
        if_distrib [of "map dec_char"] list.map ..
  qed
  finally show ?thesis .
qed

lemma div_mod_shift: "0 < d \<Longrightarrow> (q + d * (10 * m)) div d mod 10 = q div d mod (10 :: nat)"
  by simp

lemma digits_chunk:
  assumes "100000 \<le> n"
  defines "q \<equiv> n mod 100000"
  shows "digits 10 n = [q mod 10, q div 10 mod 10, q div 100 mod 10, q div 1000 mod 10, q div 10000] @ digits 10 (n div 100000)"
proof -
  define k where "k = n div 100000"
  have n: "n = q + 100000 * k" "0 < k" using assms by (simp_all add: k_def q_def div_greater_zero_iff)
  have m: "n mod 10 = q mod 10" "n div 10 mod 10 = q div 10 mod 10" "n div 100 mod 10 = q div 100 mod 10"
    "n div 1000 mod 10 = q div 1000 mod 10" "n div 10000 mod 10 = q div 10000 mod 10"
  proof -
    have e: "n = q + 1 * (10 * (10000 * k))" "n = q + 10 * (10 * (1000 * k))" "n = q + 100 * (10 * (100 * k))"
      "n = q + 1000 * (10 * (10 * k))" "n = q + 10000 * (10 * k)" using n(1) by simp_all
    show "n mod 10 = q mod 10" by (subst e(1)) (simp only: mult_1 mod_mult_self2)
    show "n div 10 mod 10 = q div 10 mod 10" by (subst e(2)) (simp only: div_mod_shift zero_less_numeral)
    show "n div 100 mod 10 = q div 100 mod 10" by (subst e(3)) (simp only: div_mod_shift zero_less_numeral)
    show "n div 1000 mod 10 = q div 1000 mod 10" by (subst e(4)) (simp only: div_mod_shift zero_less_numeral)
    show "n div 10000 mod 10 = q div 10000 mod 10" by (subst e(5)) (simp only: div_mod_shift zero_less_numeral)
  qed
  have "q < 100000" by (simp add: q_def)
  then have "q div 10000 < 10" by (simp add: div_less_iff_less_mult)
  then have m4: "q div 10000 mod 10 = q div 10000" by simp
  have dd: "n div 10 div 10 = n div 100" "n div 100 div 10 = n div 1000" "n div 1000 div 10 = n div 10000"
    "n div 10000 div 10 = n div 100000" by (simp_all add: div_mult2_eq [symmetric])
  have nz: "n div 10 \<noteq> 0" "n div 100 \<noteq> 0" "n div 1000 \<noteq> 0" "n div 10000 \<noteq> 0" "n div 100000 \<noteq> 0" using assms(1)
    by (simp_all add: div_eq_0_iff)
  have "digits 10 n = q mod 10 # digits 10 (n div 10)"
    by (subst digits_if) (simp only: m nz not_False_eq_True if_True)
  also have "digits 10 (n div 10) = q div 10 mod 10 # digits 10 (n div 100)"
    by (subst digits_if) (simp only: m dd nz not_False_eq_True if_True)
  also have "digits 10 (n div 100) = q div 100 mod 10 # digits 10 (n div 1000)"
    by (subst digits_if) (simp only: m dd nz not_False_eq_True if_True)
  also have "digits 10 (n div 1000) = q div 1000 mod 10 # digits 10 (n div 10000)"
    by (subst digits_if) (simp only: m dd nz not_False_eq_True if_True)
  also have "digits 10 (n div 10000) = q div 10000 # digits 10 (n div 100000)"
    by (subst digits_if) (simp only: m m4 dd nz not_False_eq_True if_True)
  finally show ?thesis by simp
qed

lemma put_dec_eq: "put_dec num = map dec_char (digits 10 (unat num))"
proof (induction num rule: put_dec.induct)
  case (1 num)
  show ?case
  proof (cases "num < 100000")
    case True
    then have "unat num < 100000" by (simp add: word_less_nat_alt)
    then show ?thesis using True put_dec_trunc_eq [of "unat num"] by (subst put_dec.simps) simp
  next
    case False
    then have le: "100000 \<le> unat num" by (simp add: word_less_nat_alt not_less)
    have m: "unat (num mod 100000) = unat num mod 100000" "unat (num div 100000) = unat num div 100000"
      by (simp_all add: unat_mod unat_div)
    have "put_dec_full (ucast (num mod 100000)) = put_dec_full (of_nat (unat (num mod 100000)))" by simp
    then show ?thesis using False 1 digits_chunk [OF le] put_dec_full_eq [of "unat num mod 100000"] unfolding m
      by (subst put_dec.simps) (simp add: m)
  qed
qed

lemma length_digits:
  assumes "2 \<le> b" "n < b ^ Suc k"
  shows "length (digits b n) \<le> Suc k"
  using assms(2)
proof (induction k arbitrary: n)
  case 0
  then show ?case by (simp add: digits.simps)
next
  case (Suc k)
  then have "n div b < b ^ Suc k" using assms(1) by (simp add: div_less_iff_less_mult mult.commute)
  then have "length (digits b (n div b)) \<le> Suc k" by (rule Suc.IH)
  then show ?case by (subst digits.simps) simp
qed

lemma digits_lt: "2 \<le> b \<Longrightarrow> d \<in> set (digits b n) \<Longrightarrow> d < b"
proof (induction b n rule: digits.induct)
  case (1 b n)
  show ?case
  proof (cases "n < b")
    case True
    then show ?thesis using 1 by (simp add: digits.simps)
  next
    case False
    then have "d = n mod b \<or> d \<in> set (digits b (n div b))" using 1 by (subst (asm) (2) digits.simps) auto
    then show ?thesis using 1 False by auto
  qed
qed

lemma digits_value: "2 \<le> b \<Longrightarrow> foldr (\<lambda>d v. v * b + d) (digits b n) 0 = n"
proof (induction b n rule: digits.induct)
  case (1 b n)
  show ?case
  proof (cases "n < b")
    case True
    then show ?thesis by (simp add: digits.simps)
  next
    case False
    then show ?thesis using 1 by (subst digits.simps) simp
  qed
qed

lemma digits_nonempty [simp]: "digits b n \<noteq> []"
  by (subst digits.simps) simp

section \<open>Formatted numbers\<close>

definition ZEROPAD :: u8 where "ZEROPAD = 1"
definition SIGN :: u8 where "SIGN = 2"
definition PLUS :: u8 where "PLUS = 4"
definition SPACE :: u8 where "SPACE = 8"
definition LEFT :: u8 where "LEFT = 16"
definition SMALL :: u8 where "SMALL = 32"
definition SPECIAL :: u8 where "SPECIAL = 64"

text \<open>The fields \<^verbatim>\<open>type\<close> and \<^verbatim>\<open>qualifier\<close> are not read here. The signed 16-bit fields are words, whose arithmetic
  wraps.\<close>

record printf_spec =
  sp_flags :: u8
  sp_base :: u8
  field_width :: "16 word"
  precision :: "16 word"

text \<open>The string \<^verbatim>\<open>"0123456789ABCDEF"\<close>.\<close>

definition digit_tab :: "u8 list" where
  "digit_tab = [48, 49, 50, 51, 52, 53, 54, 55, 56, 57, 65, 66, 67, 68, 69, 70]"

text \<open>An output position and the buffer. A character is stored only in front of \<open>e\<close>, the \<^verbatim>\<open>end\<close> of the buffer.\<close>

type_synonym out = "nat \<times> u8 list"

definition emit :: "nat \<Rightarrow> u8 \<Rightarrow> out \<Rightarrow> out" where
  "emit e c ob = (fst ob + 1, if fst ob < e then (snd ob)[fst ob := c] else snd ob)"

definition num_shift :: "u8 \<Rightarrow> nat" where
  "num_shift base = (if base = 16 then 4 else 3)"

lemma drop_bit_less: "drop_bit (num_shift b) (num :: u64) \<noteq> 0 \<Longrightarrow> unat (drop_bit (num_shift b) num) < unat num"
proof -
  assume nz: "drop_bit (num_shift b) num \<noteq> 0"
  then have "num \<noteq> 0" by auto
  then have "0 < unat num" by (simp add: unat_gt_0)
  moreover have "unat (drop_bit (num_shift b) num) = unat num div 2 ^ num_shift b"
    by (simp add: unat_drop_bit_eq flip: drop_bit_eq_div)
  moreover have "(1 :: nat) < 2 ^ num_shift b" by (simp add: num_shift_def)
  ultimately show ?thesis by (simp add: div_less_dividend)
qed

function num_digits :: "u8 \<Rightarrow> u8 \<Rightarrow> u64 \<Rightarrow> u8 list" where
  "num_digits base locase num =
    (let mask = base - 1;
         c = (digit_tab ! unat ((ucast num :: u8) AND mask)) OR locase;
         num = drop_bit (num_shift base) num
     in if num \<noteq> 0 then c # num_digits base locase num else [c])"
  by pat_completeness auto
termination by (relation "measure (\<lambda>(b, l, num). unat num)") (auto intro: drop_bit_less)

declare num_digits.simps [simp del]

lemma dec16_less: "0 \<le> sint (w - 1) \<Longrightarrow> unat (w - 1) < unat w" for w :: "16 word"
proof -
  assume "0 \<le> sint (w - 1)"
  then have "w \<noteq> 0" by auto
  then show ?thesis by (simp add: unat_minus_one unat_gt_0)
qed

text \<open>The padding loops \<^verbatim>\<open>while (--spec.field_width >= 0)\<close> and \<^verbatim>\<open>while (i <= --spec.precision)\<close>.\<close>

function pad_loop :: "nat \<Rightarrow> u8 \<Rightarrow> 16 word \<Rightarrow> out \<Rightarrow> 16 word \<times> out" where
  "pad_loop e c fw ob =
    (let fw = fw - 1 in if 0 \<le> sint fw then pad_loop e c fw (emit e c ob) else (fw, ob))"
  by pat_completeness auto
termination by (relation "measure (\<lambda>(e, c, fw, ob). unat fw)") (auto intro: dec16_less)

function prec_loop :: "nat \<Rightarrow> nat \<Rightarrow> 16 word \<Rightarrow> out \<Rightarrow> out" where
  "prec_loop e i prec ob =
    (let prec = prec - 1 in if int i \<le> sint prec then prec_loop e i prec (emit e 48 ob) else ob)"
  by pat_completeness auto
termination by (relation "measure (\<lambda>(e, i, prec, ob). unat prec)") (auto intro: dec16_less)

declare pad_loop.simps [simp del] prec_loop.simps [simp del]

text \<open>The sign character (0 for none), the magnitude and the field width that is left; the characters
  \<^verbatim>\<open>-\<close>, \<^verbatim>\<open>+\<close> and space are 45, 43 and 32.\<close>

definition number_sign :: "u8 \<Rightarrow> u64 \<Rightarrow> 16 word \<Rightarrow> u8 \<times> u64 \<times> 16 word" where
  "number_sign flags num fw =
    (if flags AND SIGN \<noteq> 0 then
       if sint num < 0 then (45, - num, fw - 1)
       else if flags AND PLUS \<noteq> 0 then (43, num, fw - 1)
       else if flags AND SPACE \<noteq> 0 then (32, num, fw - 1)
       else (0, num, fw)
     else (0, num, fw))"

definition number_tmp :: "u8 \<Rightarrow> u8 \<Rightarrow> u64 \<Rightarrow> u8 list" where
  "number_tmp base locase num =
    (if num = 0 then [48] else if base \<noteq> 10 then num_digits base locase num else put_dec num)"

definition number :: "nat \<Rightarrow> u64 \<Rightarrow> printf_spec \<Rightarrow> out \<Rightarrow> out" where
  "number e num spec ob = (
     let base = sp_base spec;
         need_pfx = (sp_flags spec AND SPECIAL \<noteq> 0 \<and> base \<noteq> 10);
         locase = sp_flags spec AND SMALL;
         flags = (if sp_flags spec AND LEFT \<noteq> 0 then sp_flags spec AND NOT ZEROPAD else sp_flags spec);
         (sign, num, fw) = number_sign flags num (field_width spec);
         fw = (if need_pfx then if base = 16 then fw - 1 - 1 else fw - 1 else fw);
         tmp = number_tmp base locase num;
         i = length tmp;
         prec = (if int i > sint (precision spec) then of_nat i else precision spec);
         fw = fw - prec;
         (fw, ob) = (if flags AND (ZEROPAD + LEFT) = 0 then pad_loop e 32 fw ob else (fw, ob));
         ob = (if sign \<noteq> 0 then emit e sign ob else ob);
         ob = (if need_pfx then
                let ob = emit e 48 ob in if base = 16 then emit e (88 OR locase) ob else ob
              else ob);
         (fw, ob) = (if flags AND LEFT = 0
                    then pad_loop e (if flags AND ZEROPAD \<noteq> 0 then 48 else 32) fw ob else (fw, ob));
         ob = prec_loop e i prec ob;
         ob = fold (emit e) (rev tmp) ob
     in snd (pad_loop e 32 fw ob))"

subsection \<open>Output\<close>

definition emits :: "nat \<Rightarrow> u8 list \<Rightarrow> out \<Rightarrow> out" where
  "emits e cs ob = fold (emit e) cs ob"

lemma emits_simps [simp]: "emits e [] ob = ob" "emits e (c # cs) ob = emits e cs (emit e c ob)"
  by (simp_all add: emits_def)

lemma emits_app: "emits e (a @ b) ob = emits e b (emits e a ob)"
  by (simp add: emits_def)

text \<open>Output is truncated at the end of the buffer, but counted.\<close>

lemma emits_buffer:
  assumes "e \<le> length m" "b \<le> e"
  shows "emits e cs (b, m) = (b + length cs, take b m @ take (e - b) cs @ drop (b + min (e - b) (length cs)) m)"
  using assms
proof (induction cs arbitrary: b m)
  case (Cons c cs)
  show ?case
  proof (cases "b < e")
    case True
    then have e: "e - b = Suc (e - Suc b)" by simp
    have "emits e (c # cs) (b, m) = emits e cs (Suc b, m[b := c])" using True by (simp add: emit_def)
    also have "\<dots> = (Suc b + length cs, take (Suc b) (m[b := c]) @ take (e - Suc b) cs
        @ drop (Suc b + min (e - Suc b) (length cs)) (m[b := c]))"
      by (rule Cons.IH) (use Cons.prems True in auto)
    also have "take (Suc b) (m[b := c]) = take b m @ [c]" using True Cons.prems by (simp add: take_Suc_conv_app_nth)
    finally show ?thesis unfolding e by simp
  next
    case False
    then have be: "b = e" using Cons.prems by simp
    have "emits e xs (k, m) = (k + length xs, m)" if "e \<le> k" for k xs
      using that by (induction xs arbitrary: k) (auto simp: emit_def)
    then show ?thesis using be by (simp add: emit_def)
  qed
qed simp

lemma s16_sub:
  fixes a b :: "16 word"
  assumes "-32768 \<le> sint a - sint b" "sint a - sint b \<le> 32767"
  shows "sint (a - b) = sint a - sint b"
proof -
  have "sint (a - b) = signed_take_bit 15 (sint a - sint b)" by (simp add: sint_word_ariths)
  also have "\<dots> = sint a - sint b" using assms by (intro signed_take_bit_int_eq_self) simp_all
  finally show ?thesis .
qed

lemma sint16_range: "-32768 \<le> sint w \<and> sint w \<le> 32767" for w :: "16 word"
  using sint_range_size [of w] by (simp add: word_size)

lemma s16_dec: "-32768 < sint fw \<Longrightarrow> sint (fw - 1) = sint fw - 1" for fw :: "16 word"
  using s16_sub [of fw 1] sint16_range [of fw] by simp

lemma s16_of_nat: "n \<le> 32767 \<Longrightarrow> sint (of_nat n :: 16 word) = int n"
proof -
  assume "n \<le> 32767"
  then show ?thesis by (simp add: sint_uint uint_nat unat_of_nat signed_take_bit_int_eq_self)
qed

lemma pad_loop_eq:
  assumes "-32768 < sint fw"
  shows "pad_loop e c fw ob = (if 0 \<le> sint fw then -1 else fw - 1, emits e (replicate (nat (sint fw)) c) ob)"
  using assms
proof (induction e c fw ob rule: pad_loop.induct)
  case (1 e c fw ob)
  note d = s16_dec [OF "1.prems"]
  show ?case
  proof (cases "0 \<le> sint (fw - 1)")
    case True
    then have p: "0 < sint fw" "nat (sint fw) = Suc (nat (sint (fw - 1)))" using d by auto
    have "pad_loop e c (fw - 1) (emit e c ob) = (-1, emits e (replicate (nat (sint (fw - 1))) c) (emit e c ob))"
      using "1.IH" [OF refl True] True by simp
    then show ?thesis using True p by (subst pad_loop.simps) (simp add: Let_def)
  next
    case False
    then have "sint fw \<le> 0" using d by simp
    moreover have "fw - 1 = -1" if "0 \<le> sint fw"
    proof -
      have "sint fw = 0" using that \<open>sint fw \<le> 0\<close> by simp
      then have "fw = 0" by (intro signed_word_eqI [of fw 0]) simp
      then show ?thesis by simp
    qed
    ultimately show ?thesis using False by (subst pad_loop.simps) (simp add: Let_def)
  qed
qed

lemma prec_loop_eq:
  assumes "int i \<le> sint prec"
  shows "prec_loop e i prec ob = emits e (replicate (nat (sint prec - int i)) 48) ob"
  using assms
proof (induction e i prec ob rule: prec_loop.induct)
  case (1 e i prec ob)
  have d: "sint (prec - 1) = sint prec - 1" using "1.prems" by (intro s16_dec) linarith
  show ?case
  proof (cases "int i \<le> sint (prec - 1)")
    case True
    then have p: "nat (sint prec - int i) = Suc (nat (sint (prec - 1) - int i))" using d by simp
    have "prec_loop e i (prec - 1) (emit e 48 ob) = emits e (replicate (nat (sint (prec - 1) - int i)) 48) (emit e 48 ob)"
      using "1.IH" [OF refl True] True by simp
    then show ?thesis using True p by (subst prec_loop.simps) (simp add: Let_def)
  next
    case False
    then show ?thesis using d "1.prems" by (subst prec_loop.simps) (simp add: Let_def)
  qed
qed

subsection \<open>The digits that are printed\<close>

definition digit_char :: "u8 \<Rightarrow> nat \<Rightarrow> u8" where
  "digit_char locase d = digit_tab ! d OR locase"

lemma digit_char_dec: "d < 10 \<Longrightarrow> locase = 0 \<or> locase = 32 \<Longrightarrow> digit_char locase d = dec_char d"
  by (auto simp: digit_char_def digit_tab_def dec_char_def less_Suc_eq numeral_eq_Suc)

lemma low_bits_byte:
  assumes "base = 8 \<or> base = 16"
  shows "unat ((ucast (num :: u64) :: u8) AND (base - 1)) = unat num mod unat base"
    "unat (drop_bit (num_shift base) num) = unat num div unat base"
proof -
  have d: "unat (drop_bit k num) = unat num div 2 ^ k" for k by (simp add: unat_drop_bit_eq flip: drop_bit_eq_div)
  have b: "unat base = 2 ^ num_shift base" "base - 1 = mask (num_shift base)"
    using assms by (auto simp: num_shift_def mask_eq_exp_minus_1)
  show "unat (drop_bit (num_shift base) num) = unat num div unat base" unfolding b(1) by (rule d)
  have "unat ((ucast num :: u8) AND mask k) = unat num mod 2 ^ k" if "k = 3 \<or> k = 4" for k
  proof -
    have "unat ((ucast num :: u8) mod 2 ^ k) = unat num mod 256 mod 2 ^ k"
      using that by (auto simp: unat_mod unsigned_ucast_eq take_bit_eq_mod)
    also have "\<dots> = unat num mod 2 ^ k" using that by (intro mod_mod_cancel) auto
    finally show ?thesis using word_mod_2p_is_mask [of k "ucast num :: u8"] that by auto
  qed
  then show "unat ((ucast num :: u8) AND (base - 1)) = unat num mod unat base"
    unfolding b by (simp add: num_shift_def)
qed

lemma num_digits_eq:
  "base = 8 \<or> base = 16 \<Longrightarrow> num_digits base locase num = map (digit_char locase) (digits (unat base) (unat num))"
proof (induction base locase num rule: num_digits.induct)
  case (1 base locase num)
  note l = low_bits_byte [OF "1.prems", of num]
  let ?n = "drop_bit (num_shift base) num"
  have b: "2 \<le> unat base" using "1.prems" by auto
  have z: "?n = 0 \<longleftrightarrow> unat num < unat base" using unat_eq_zero [of ?n] b unfolding l(2) by (simp add: div_eq_0_iff)
  show ?case
  proof (cases "?n = 0")
    case True
    then have "num_digits base locase num = [digit_char locase (unat num)]"
      using z l(1) by (subst num_digits.simps) (simp add: Let_def digit_char_def)
    then show ?thesis using True z by (subst digits.simps) simp
  next
    case False
    then have "num_digits base locase ?n = map (digit_char locase) (digits (unat base) (unat num div unat base))"
      using "1.IH" [OF refl refl refl False "1.prems"] l(2) by simp
    then show ?thesis using False z b l(1)
      by (subst num_digits.simps, subst digits.simps) (simp add: Let_def digit_char_def)
  qed
qed

lemma number_tmp_eq:
  assumes "base = 8 \<or> base = 10 \<or> base = 16" "locase = 0 \<or> locase = 32"
  shows "number_tmp base locase num = map (digit_char locase) (digits (unat base) (unat num))"
proof (cases "num = 0")
  case True
  moreover have "digits (unat base) 0 = [0]" using assms(1) by (subst digits.simps) auto
  ultimately show ?thesis using digit_char_dec [of 0 locase] assms(2) by (simp add: number_tmp_def dec_char_def)
next
  case False
  show ?thesis
  proof (cases "base = 10")
    case True
    have "map (digit_char locase) (digits 10 (unat num)) = map dec_char (digits 10 (unat num))"
      using digits_lt [of 10] digit_char_dec assms(2) by (intro map_cong) auto
    then show ?thesis using True False by (simp add: number_tmp_def put_dec_eq)
  next
    case b: False
    then show ?thesis using assms(1) False num_digits_eq [of base locase num] by (simp add: number_tmp_def)
  qed
qed

lemma number_tmp_length:
  assumes "base = 8 \<or> base = 10 \<or> base = 16" "locase = 0 \<or> locase = 32"
  shows "length (number_tmp base locase num) \<le> 22" "number_tmp base locase num \<noteq> []"
proof -
  have n: "unat num < 2 ^ 64" using unsigned_less [of num] by simp
  have "length (digits 8 (unat num)) \<le> 22" "length (digits 10 (unat num)) \<le> 22" "length (digits 16 (unat num)) \<le> 22"
    using length_digits [of 8 "unat num" 21] length_digits [of 10 "unat num" 21] length_digits [of 16 "unat num" 21] n by simp_all
  then show "length (number_tmp base locase num) \<le> 22" using assms(1) unfolding number_tmp_eq [OF assms] by auto
  show "number_tmp base locase num \<noteq> []" unfolding number_tmp_eq [OF assms] by simp
qed

subsection \<open>Reference: the text of a formatted number\<close>

definition sign_text :: "u64 \<Rightarrow> printf_spec \<Rightarrow> u8 list" where
  "sign_text num spec =
    (if sp_flags spec AND SIGN = 0 then []
     else if sint num < 0 then [45]
     else if sp_flags spec AND PLUS \<noteq> 0 then [43]
     else if sp_flags spec AND SPACE \<noteq> 0 then [32] else [])"

definition prefix_text :: "printf_spec \<Rightarrow> u8 list" where
  "prefix_text spec =
    (if sp_flags spec AND SPECIAL \<noteq> 0 \<and> sp_base spec \<noteq> 10
     then if sp_base spec = 16 then [48, 88 OR (sp_flags spec AND SMALL)] else [48] else [])"

definition magnitude :: "u64 \<Rightarrow> printf_spec \<Rightarrow> nat" where
  "magnitude num spec = (if sp_flags spec AND SIGN \<noteq> 0 \<and> sint num < 0 then unat (- num) else unat num)"

definition digit_text :: "u64 \<Rightarrow> printf_spec \<Rightarrow> u8 list" where
  "digit_text num spec =
    (let ds = map (digit_char (sp_flags spec AND SMALL)) (rev (digits (unat (sp_base spec)) (magnitude num spec)))
     in replicate (nat (sint (precision spec) - int (length ds))) 48 @ ds)"

definition number_text :: "u64 \<Rightarrow> printf_spec \<Rightarrow> u8 list" where
  "number_text num spec =
    (let sp = sign_text num spec @ prefix_text spec; ds = digit_text num spec;
         n = nat (sint (field_width spec) - int (length (sp @ ds)))
     in if sp_flags spec AND LEFT \<noteq> 0 then sp @ ds @ replicate n 32
        else if sp_flags spec AND ZEROPAD \<noteq> 0 then sp @ replicate n 48 @ ds
        else replicate n 32 @ sp @ ds)"

lemma length_number_text:
  "int (length (number_text num spec)) =
    max (sint (field_width spec)) (int (length (sign_text num spec @ prefix_text spec @ digit_text num spec)))"
  by (auto simp: number_text_def Let_def)

subsection \<open>Flags\<close>

lemmas flag_defs = ZEROPAD_def SIGN_def PLUS_def SPACE_def LEFT_def SMALL_def SPECIAL_def

lemma clear_zeropad:
  "(f AND NOT ZEROPAD) AND SIGN = f AND SIGN" "(f AND NOT ZEROPAD) AND PLUS = f AND PLUS"
  "(f AND NOT ZEROPAD) AND SPACE = f AND SPACE" "(f AND NOT ZEROPAD) AND LEFT = f AND LEFT"
  "(f AND NOT ZEROPAD) AND ZEROPAD = 0"
  by (simp_all add: flag_defs and.assoc)

lemma zeropad_left: "f AND (ZEROPAD + LEFT) = 0 \<longleftrightarrow> f AND ZEROPAD = 0 \<and> f AND LEFT = 0"
proof -
  have "ZEROPAD + LEFT = ZEROPAD OR LEFT" by (simp add: flag_defs)
  then show ?thesis by (simp add: bit.conj_disj_distrib or_eq_0_iff)
qed

lemma small_cases: "f AND SMALL = 0 \<or> f AND SMALL = 32"
proof -
  have "f AND 32 = (if bit f 5 then 32 else 0)" for f :: u8
  proof (rule bit_word_eqI)
    fix n
    have "(32 :: u8) = 2 ^ 5" by simp
    then have "bit (32 :: u8) n \<longleftrightarrow> n = 5" by (simp only: bit_exp_iff) auto
    then show "bit (f AND 32) n = bit (if bit f 5 then 32 else 0 :: u8) n" by (auto simp: bit_and_iff)
  qed
  then show ?thesis by (simp add: SMALL_def)
qed

lemma number_sign_eq:
  assumes "f AND SIGN = sp_flags spec AND SIGN" "f AND PLUS = sp_flags spec AND PLUS" "f AND SPACE = sp_flags spec AND SPACE"
  shows "number_sign f num fw = (if sign_text num spec = [] then 0 else hd (sign_text num spec),
    of_nat (magnitude num spec), fw - of_nat (length (sign_text num spec)))"
  using assms by (auto simp: number_sign_def sign_text_def magnitude_def)

lemma sign_text_cases: "sign_text num spec = [] \<or> (\<exists>c. sign_text num spec = [c] \<and> c \<noteq> 0)"
  by (auto simp: sign_text_def)

lemma prefix_text_eq:
  fixes fw :: "16 word"
  shows "(if sp_flags spec AND SPECIAL \<noteq> 0 \<and> sp_base spec \<noteq> 10 then
     if sp_base spec = 16 then fw - 1 - 1 else fw - 1 else fw) = fw - of_nat (length (prefix_text spec))"
  "(if sp_flags spec AND SPECIAL \<noteq> 0 \<and> sp_base spec \<noteq> 10 then
     let ob = emit e 48 ob in if sp_base spec = 16 then emit e (88 OR (sp_flags spec AND SMALL)) ob else ob
    else ob) = emits e (prefix_text spec) ob"
  "length (prefix_text spec) \<le> 2"
  by (auto simp: prefix_text_def Let_def)

lemma sign_emit: "(if (if sign_text num spec = [] then 0 else hd (sign_text num spec)) \<noteq> 0
    then emit e (if sign_text num spec = [] then 0 else hd (sign_text num spec)) ob else ob) = emits e (sign_text num spec) ob"
  using sign_text_cases [of num spec] by auto

text \<open>A further run of a padding loop prints nothing.\<close>

lemma pad_loop_done: "-32768 < sint fw \<Longrightarrow> sint fw < 0 \<Longrightarrow> pad_loop e c fw ob = (fw - 1, ob)"
  using pad_loop_eq [of fw e c ob] by simp

lemma pad_loop_then:
  assumes "-32766 < sint w"
  obtains x where "\<And>c ob. pad_loop e c w ob = (x, emits e (replicate (nat (sint w)) c) ob)"
    "\<And>c ob. pad_loop e c x ob = (x - 1, ob)" "\<And>c ob. pad_loop e c (x - 1) ob = (x - 1 - 1, ob)"
proof -
  define x where "x = (if 0 \<le> sint w then -1 else w - 1)"
  have "sint (w - 1) = sint w - 1" using assms by (intro s16_dec) simp
  then have x: "-32767 < sint x" "sint x < 0" using assms by (auto simp: x_def)
  have x1: "sint (x - 1) = sint x - 1" using x(1) by (intro s16_dec) simp
  show thesis
  proof (rule that [of x])
    fix c ob
    show "pad_loop e c w ob = (x, emits e (replicate (nat (sint w)) c) ob)"
      using pad_loop_eq [of w e c ob] assms by (simp add: x_def)
    show "pad_loop e c x ob = (x - 1, ob)" using x by (intro pad_loop_done) simp_all
    show "pad_loop e c (x - 1) ob = (x - 1 - 1, ob)" using x x1 by (intro pad_loop_done) simp_all
  qed
qed

lemma number_eq:
  assumes base: "sp_base spec = 8 \<or> sp_base spec = 10 \<or> sp_base spec = 16"
    and fw: "-1 \<le> sint (field_width spec)" and pr: "sint (precision spec) \<le> 32000"
  shows "number e num spec ob = emits e (number_text num spec) ob"
proof -
  define flags where "flags = (if sp_flags spec AND LEFT \<noteq> 0 then sp_flags spec AND NOT ZEROPAD else sp_flags spec)"
  define sg where "sg = sign_text num spec"
  define pf where "pf = prefix_text spec"
  define tmp where "tmp = number_tmp (sp_base spec) (sp_flags spec AND SMALL) (of_nat (magnitude num spec))"
  define prec where "prec = (if int (length tmp) > sint (precision spec) then of_nat (length tmp) else precision spec)"
  define w where "w = field_width spec - of_nat (length sg) - of_nat (length pf) - prec"
  have fl: "flags AND SIGN = sp_flags spec AND SIGN" "flags AND PLUS = sp_flags spec AND PLUS"
    "flags AND SPACE = sp_flags spec AND SPACE" "flags AND LEFT = sp_flags spec AND LEFT"
    "flags AND (ZEROPAD + LEFT) = 0 \<longleftrightarrow> sp_flags spec AND ZEROPAD = 0 \<and> sp_flags spec AND LEFT = 0"
    "sp_flags spec AND LEFT = 0 \<Longrightarrow> flags AND ZEROPAD = sp_flags spec AND ZEROPAD"
    by (simp_all add: flags_def clear_zeropad zeropad_left)
  have i: "length tmp \<le> 22" unfolding tmp_def by (rule number_tmp_length(1) [OF base small_cases])
  have prec: "sint prec = max (int (length tmp)) (sint (precision spec))" using i s16_of_nat [of "length tmp"] by (auto simp: prec_def)
  have mag: "unat (of_nat (magnitude num spec) :: u64) = magnitude num spec" by (simp add: magnitude_def)
  have tmp: "rev tmp = map (digit_char (sp_flags spec AND SMALL)) (rev (digits (unat (sp_base spec)) (magnitude num spec)))"
    unfolding tmp_def number_tmp_eq [OF base small_cases] mag by (simp add: rev_map)
  have dt: "digit_text num spec = replicate (nat (sint prec - int (length tmp))) 48 @ rev tmp"
    unfolding digit_text_def Let_def tmp [symmetric] prec by (simp add: max_def)
  have len: "int (length (digit_text num spec)) = sint prec" unfolding dt using prec by auto
  have ls: "length sg \<le> 1" "length pf \<le> 2" using sign_text_cases [of num spec] prefix_text_eq(3) [of spec] by (auto simp: sg_def pf_def)
  have w: "sint w = sint (field_width spec) - int (length ((sg @ pf) @ digit_text num spec))"
  proof -
    note r = sint16_range [of "field_width spec"]
    have l: "sint (of_nat (length sg) :: 16 word) = int (length sg)" "sint (of_nat (length pf) :: 16 word) = int (length pf)"
      using ls by (intro s16_of_nat; simp)+
    have 1: "sint (field_width spec - of_nat (length sg)) = sint (field_width spec) - int (length sg)"
      using s16_sub [of "field_width spec" "of_nat (length sg)"] l ls fw r by linarith
    have 2: "sint (field_width spec - of_nat (length sg) - of_nat (length pf)) = sint (field_width spec) - int (length sg) - int (length pf)"
      using s16_sub [of "field_width spec - of_nat (length sg)" "of_nat (length pf)"] 1 l ls fw r by linarith
    have "sint w = sint (field_width spec) - int (length sg) - int (length pf) - sint prec"
      unfolding w_def using s16_sub [of "field_width spec - of_nat (length sg) - of_nat (length pf)" prec] 2 ls fw r prec pr i by linarith
    then show ?thesis using len by simp
  qed
  have lo: "-32766 < sint w" using w len prec pr i fw ls by simp
  have pl: "prec_loop e (length tmp) prec ob = emits e (replicate (nat (sint prec - int (length tmp))) 48) ob" for ob
    by (rule prec_loop_eq) (simp add: prec)
  have step: "number e num spec ob = (
    case if flags AND (ZEROPAD + LEFT) = 0 then pad_loop e 32 w ob else (w, ob) of (fw, ob) \<Rightarrow>
    case if flags AND LEFT = 0 then pad_loop e (if flags AND ZEROPAD \<noteq> 0 then 48 else 32) fw (emits e (sg @ pf) ob)
      else (fw, emits e (sg @ pf) ob) of (fw, ob) \<Rightarrow> snd (pad_loop e 32 fw (emits e (digit_text num spec) ob)))"
    unfolding number_def Let_def flags_def [symmetric] number_sign_eq [OF fl(1-3)] prod.case prefix_text_eq(1) tmp_def [symmetric]
      prec_def [symmetric] w_def [symmetric] sg_def [symmetric] pf_def [symmetric]
    by (simp only: sign_emit [of num spec, folded sg_def] prefix_text_eq(2) [of spec, unfolded Let_def, folded pf_def] emits_app pl dt
        emits_def [symmetric])
  obtain x where x: "\<And>c ob. pad_loop e c w ob = (x, emits e (replicate (nat (sint w)) c) ob)"
    "\<And>c ob. pad_loop e c x ob = (x - 1, ob)" "\<And>c ob. pad_loop e c (x - 1) ob = (x - 1 - 1, ob)"
    using pad_loop_then [OF lo, of e] by metis
  have nt: "number_text num spec =
      (if sp_flags spec AND LEFT \<noteq> 0 then (sg @ pf) @ digit_text num spec @ replicate (nat (sint w)) 32
       else if sp_flags spec AND ZEROPAD \<noteq> 0 then (sg @ pf) @ replicate (nat (sint w)) 48 @ digit_text num spec
       else replicate (nat (sint w)) 32 @ (sg @ pf) @ digit_text num spec)"
    unfolding number_text_def Let_def w sg_def [symmetric] pf_def [symmetric] ..
  show ?thesis unfolding step nt
    by (cases "sp_flags spec AND LEFT = 0"; cases "sp_flags spec AND ZEROPAD = 0") (simp_all add: fl x emits_app)
qed

subsection \<open>Reading a number back\<close>

lemma digit_char_value:
  assumes "d < 16" "locase = 0 \<or> locase = 32"
  shows "isxdigit (digit_char locase d) \<and> unat (digit_value (digit_char locase d)) = d"
proof -
  have u: "[0..<16] = [0, 1, 2, 3, 4, 5, 6, 7, 8, 9, 10, 11, 12, 13, 14, 15]" by (simp add: upt_conv_Cons)
  have "map (\<lambda>d. isxdigit (digit_char l d) \<and> unat (digit_value (digit_char l d)) = d) [0..<16] = map (\<lambda>d. True) [0..<16]"
    if "l = 0 \<or> l = 32" for l
    using that unfolding u
    by (elim disjE) (simp_all add: digit_char_def digit_tab_def isxdigit_iff digit_value_def isdigit_iff TOLOWER_def)
  moreover have "d \<in> set [0..<16]" using assms(1) by (simp only: set_upt) simp
  ultimately show ?thesis using assms(2) by (simp only: map_eq_conv)
qed

lemma digit_char_is_digit: "d < unat base \<Longrightarrow> unat base \<le> 16 \<Longrightarrow> locase = 0 \<or> locase = 32 \<Longrightarrow> is_digit_of base (digit_char locase d)"
  using digit_char_value [of d locase] by (simp add: is_digit_of_def word_less_nat_alt)

lemma numeral_value_digits:
  assumes "2 \<le> b" "b \<le> 16" "locase = 0 \<or> locase = 32"
  shows "numeral_value b (map (digit_char locase) (rev (digits b n))) = n"
proof -
  have "unat (digit_value (digit_char locase d)) = d" if "d \<in> set (digits b n)" for d
    using digits_lt [OF assms(1) that] digit_char_value [of d locase] assms by simp
  then have "foldr (\<lambda>c v. v * b + unat (digit_value (digit_char locase c))) ds 0 = foldr (\<lambda>d v. v * b + d) ds 0"
    if "set ds \<subseteq> set (digits b n)" for ds using that by (induction ds) auto
  then show ?thesis using digits_value [OF assms(1), of n]
    by (simp add: numeral_value_def foldl_conv_foldr rev_map foldr_map o_def)
qed

lemma numeral_value_zero: "digit_value c = 0 \<Longrightarrow> numeral_value b (c # ds) = numeral_value b ds"
  by (simp add: numeral_value_def)

lemma takeWhile_digits:
  assumes "\<forall>c\<in>set ds. P c" "\<not> P e"
  shows "takeWhile P (ds @ e # r) = ds" "drop (length (takeWhile P (ds @ e # r))) (ds @ e # r) = e # r"
  using assms by (simp_all add: takeWhile_append)

lemma digits_head: "n \<noteq> 0 \<Longrightarrow> 2 \<le> b \<Longrightarrow> last (digits b n) \<noteq> 0"
proof (induction b n rule: digits.induct)
  case (1 b n)
  then show ?case by (cases "n < b") (subst digits.simps, auto simp: div_eq_0_iff)+
qed

text \<open>What the parser makes of the digits of \<open>n\<close> with the prefix of their base.\<close>

lemma parse_hex:
  assumes "locase = 0 \<or> locase = 32" "x = 88 \<or> x = 120" "is_cstr (e # r)" "\<not> isxdigit e"
  shows "simple_strtoull (48 # x # map (digit_char locase) (rev (digits 16 n)) @ e # r) 0 = Some (of_nat n, e # r)"
proof -
  let ?h = "map (digit_char locase) (rev (digits 16 n))"
  let ?s = "48 # x # ?h @ e # r"
  have h: "\<forall>c\<in>set ?h. is_digit_of 16 c" using digits_lt [of 16] digit_char_is_digit [of _ 16] assms(1) by auto
  obtain c cs where c: "?h = c # cs" by (cases ?h) auto
  then have "isxdigit c" using h by (simp add: is_digit_of_def)
  moreover have "is_cstr ?s" "has_0x ?s" "?s ! 2 = c" using assms(2,3) c by (auto simp: is_cstr_def has_0x_def)
  moreover have "\<not> is_digit_of 16 e" using assms(4) by (simp add: is_digit_of_def)
  ultimately show ?thesis using strtoull_cstr(2) [of ?s 0] takeWhile_digits [OF h] numeral_value_digits [of 16 locase n] assms(1)
    by simp
qed

lemma not_x_digit: "is_digit_of b c \<Longrightarrow> c \<noteq> 120 \<and> c \<noteq> 88"
  by (auto simp: is_digit_of_def isxdigit_iff)

lemma parse_oct:
  assumes "locase = 0 \<or> locase = 32" "is_cstr (e # r)" "\<not> isxdigit e"
  shows "simple_strtoull (48 # map (digit_char locase) (rev (digits 8 n)) @ e # r) 0 = Some (of_nat n, e # r)"
proof -
  let ?h = "map (digit_char locase) (rev (digits 8 n))"
  let ?s = "(48 # ?h) @ e # r"
  have z: "digit_value 48 = 0" "isxdigit 48" by (simp_all add: digit_value_def isdigit_iff isxdigit_iff)
  have h: "\<forall>c\<in>set (48 # ?h). is_digit_of 8 c"
    using digits_lt [of 8] digit_char_is_digit [of _ 8] assms(1) z by (auto simp: is_digit_of_def [of _ 48])
  obtain c cs where c: "?h = c # cs" by (cases ?h) auto
  then have "\<not> has_0x ?s" using h not_x_digit [of 8 c] by (auto simp: has_0x_def)
  moreover have "is_cstr ?s" "\<not> is_digit_of 8 e" using assms(2,3) by (auto simp: is_cstr_def is_digit_of_def)
  ultimately show ?thesis using strtoull_cstr(2) [of ?s 0] takeWhile_digits [OF h] numeral_value_digits [of 8 locase n] assms(1)
      numeral_value_zero [OF z(1)] by simp
qed

lemma parse_dec:
  assumes "locase = 0 \<or> locase = 32" "is_cstr (e # r)" "\<not> isxdigit e" "e \<noteq> 120" "e \<noteq> 88"
  shows "simple_strtoull (map (digit_char locase) (rev (digits 10 n)) @ e # r) 0 = Some (of_nat n, e # r)"
proof (cases "n = 0")
  case True
  have "digits 10 0 = [0]" "digit_char locase 0 = 48" using assms(1) digit_char_dec [of 0 locase]
    by (simp_all add: digits.simps dec_char_def)
  moreover have "is_digit_of 8 48" "digit_value 48 = 0" by (simp_all add: is_digit_of_def digit_value_def isdigit_iff isxdigit_iff)
  moreover have "\<not> has_0x (48 # e # r)" "\<not> is_digit_of 8 e" using assms(3-5) by (auto simp: has_0x_def is_digit_of_def)
  ultimately show ?thesis using True strtoull_cstr(2) [of "48 # e # r" 0] assms(2) by (simp add: numeral_value_def)
next
  case False
  let ?h = "map (digit_char locase) (rev (digits 10 n))"
  let ?s = "?h @ e # r"
  have h: "\<forall>c\<in>set ?h. is_digit_of 10 c" using digits_lt [of 10] digit_char_is_digit [of _ 10] assms(1) by auto
  define d where "d = last (digits 10 n)"
  have d: "d \<noteq> 0" "d < 10" using digits_head [OF False, of 10] digits_lt [of 10 d n] by (auto simp: d_def)
  have hd: "?s ! 0 = digit_char locase d" by (simp add: nth_append rev_nth last_conv_nth d_def)
  have "unat (digit_value (?s ! 0)) = d" using digit_char_value [of d locase] d assms(1) hd by simp
  then have "?s ! 0 \<noteq> 48" using d(1) by (auto simp: digit_value_def isdigit_iff)
  moreover have "\<not> has_0x ?s" using calculation by (cases ?s) (auto simp: has_0x_def)
  moreover have "is_cstr ?s" "\<not> is_digit_of 10 e" using assms(2,3) by (auto simp: is_cstr_def is_digit_of_def)
  ultimately show ?thesis using strtoull_cstr(2) [of ?s 0] takeWhile_digits [OF h] numeral_value_digits [of 10 locase n] assms(1)
    by simp
qed

section \<open>Properties\<close>

text \<open>C4: For every number, every combination of flags, the bases 8, 10 and 16 and field widths and precisions that
  leave the 16-bit fields enough room, \<^verbatim>\<open>number\<close> prints the reference text, sign, prefix, padding and digits, which is
  as long as the wider of the field and the number; only what fits in front of \<^verbatim>\<open>end\<close> is stored, nothing
  outside is touched, and the position returned counts the whole text.\<close>

theorem number_correct:
  assumes "sp_base spec = 8 \<or> sp_base spec = 10 \<or> sp_base spec = 16"
    and "-1 \<le> sint (field_width spec)" "sint (precision spec) \<le> 32000" "e \<le> length m" "b \<le> e"
  shows "number e num spec (b, m) =
      (b + length (number_text num spec),
       take b m @ take (e - b) (number_text num spec) @ drop (b + min (e - b) (length (number_text num spec))) m)
    \<and> int (length (number_text num spec)) =
      max (sint (field_width spec)) (int (length (sign_text num spec @ prefix_text spec @ digit_text num spec)))"
  using number_eq [OF assms(1-3)] emits_buffer [OF assms(4,5)] length_number_text by simp

text \<open>The number 10 as \<^verbatim>\<open>%#x\<close> in a buffer of three bytes.\<close>

theorem number_correct_witness:
  "number 3 10 \<lparr>sp_flags = 96, sp_base = 16, field_width = -1, precision = -1\<rparr> (0, [0, 0, 0]) = (3, [48, 120, 97])"
  using number_correct [of "\<lparr>sp_flags = 96, sp_base = 16, field_width = -1, precision = -1\<rparr>" 3 "[0, 0, 0]" 0 10]
  by (simp add: number_text_def sign_text_def prefix_text_def digit_text_def magnitude_def digits.simps digit_char_def
      digit_tab_def flag_defs Let_def)

text \<open>C12: Every 64-bit number that is printed in base 8, 10 or 16 with the prefix of the base, in either case of letters, into a
  cleared buffer of at least 25 bytes fits there and is read back as the same number by \<^verbatim>\<open>simple_strtoull\<close>
  without a base, with the parse ending where the print ended.\<close>

theorem number_roundtrip:
  assumes "base = 8 \<or> base = 10 \<or> base = 16" "f = SPECIAL \<or> f = SPECIAL OR SMALL" "25 \<le> n"
  shows "\<exists>k m. number n num \<lparr>sp_flags = f, sp_base = base, field_width = -1, precision = -1\<rparr> (0, replicate n 0) = (k, m)
    \<and> k < n \<and> simple_strtoull m 0 = Some (num, drop k m)"
proof -
  let ?sp = "\<lparr>sp_flags = f, sp_base = base, field_width = -1, precision = -1\<rparr>"
  define l where "l = f AND SMALL"
  have l: "l = 0 \<or> l = 32" unfolding l_def by (rule small_cases)
  define h where "h = map (digit_char l) (rev (digits (unat base) (unat num)))"
  define p where "p = prefix_text ?sp"
  have f: "f AND SIGN = 0" "f AND LEFT = 0" "f AND ZEROPAD = 0" "f AND SPECIAL \<noteq> 0" using assms(2) by (auto simp: flag_defs)
  have hl: "length h \<le> 22"
    using number_tmp_length(1) [of base l num] number_tmp_eq [OF assms(1) l, of num] assms(1) l by (simp add: h_def)
  have t: "number_text num ?sp = p @ h"
    using f by (simp add: number_text_def sign_text_def digit_text_def magnitude_def Let_def p_def h_def l_def rev_map)
  have pl: "length p \<le> 2" unfolding p_def by (rule prefix_text_eq(3))
  define k where "k = length (p @ h)"
  have k: "k < n" using hl pl assms(3) by (simp add: k_def)
  have "number n num ?sp (0, replicate n 0) = (k, (p @ h) @ drop k (replicate n 0))"
    using number_eq [of ?sp n num "(0, replicate n 0)"] emits_buffer [of n "replicate n 0" 0 "p @ h"] assms(1) k unfolding t k_def
    by (simp add: min_def)
  moreover obtain r where r: "drop k (replicate n 0) = (0 :: u8) # r" using k by (cases "n - k") (auto simp: drop_replicate)
  moreover have "simple_strtoull ((p @ h) @ 0 # r) 0 = Some (num, 0 # r)"
  proof -
    consider "base = 8" | "base = 10" | "base = 16" using assms(1) by blast
    then show ?thesis
    proof cases
      case 1
      then have "p = [48]" using f by (simp add: p_def prefix_text_def)
      then show ?thesis using 1 parse_oct [OF l, of 0 r "unat num"] by (simp add: h_def isxdigit_iff)
    next
      case 2
      then have "p = []" by (simp add: p_def prefix_text_def)
      then show ?thesis using 2 parse_dec [OF l, of 0 r "unat num"] by (simp add: h_def isxdigit_iff)
    next
      case 3
      then have "p = [48, 88 OR l]" using f by (simp add: p_def prefix_text_def l_def)
      moreover have "88 OR l = 88 \<or> 88 OR l = 120" using l by auto
      ultimately show ?thesis using 3 parse_hex [OF l, of "88 OR l" 0 r "unat num"] by (simp add: h_def isxdigit_iff)
    qed
  qed
  moreover have "drop k ((p @ h) @ 0 # r) = 0 # r" by (simp add: k_def)
  ultimately show ?thesis using k by auto
qed

theorem number_roundtrip_witness:
  "\<exists>k m. number 25 255 \<lparr>sp_flags = 64, sp_base = 16, field_width = -1, precision = -1\<rparr> (0, replicate 25 0) = (k, m)
    \<and> k < 25 \<and> simple_strtoull m 0 = Some (255, drop k m)"
  using number_roundtrip [of 16 64 25 255] by (simp add: SPECIAL_def)

end
