(* ===== verification/Byte_Buffer.thy ===== *)
theory Byte_Buffer
  imports Bitops "HOL-Library.Monad_Syntax"
begin

text \<open>
  What the ring buffers of the kernel share: copies between byte buffers, where a copy that leaves its
  buffer is the value \<open>None\<close>, the copies from and to user space of \<^verbatim>\<open>arch/arm/include/asm/uaccess.h\<close>, powers
  of two of \<^verbatim>\<open>include/linux/log2.h\<close>, and the arithmetic of positions in a ring of \<open>n\<close> bytes.
\<close>

unbundle bit_operations_syntax

section \<open>Copies\<close>

text \<open>\<^verbatim>\<open>memcpy\<close> into the buffer \<open>b\<close> at \<open>off\<close>, and out of it; \<open>None\<close> is an access outside the buffer.\<close>

definition memcpy_in :: "u8 list \<Rightarrow> nat \<Rightarrow> u8 list \<Rightarrow> u8 list option" where
  "memcpy_in b off d = (if off + length d \<le> length b then Some (take off b @ d @ drop (off + length d) b) else None)"

definition memcpy_out :: "u8 list \<Rightarrow> nat \<Rightarrow> nat \<Rightarrow> u8 list option" where
  "memcpy_out b off n = (if off + n \<le> length b then Some (take n (drop off b)) else None)"

text \<open>
  \<^verbatim>\<open>copy_from_user\<close> of \<open>n\<close> bytes at \<open>off\<close> of the user's data \<open>u\<close> returns the number \<open>ret\<close> of bytes it could
  not copy, which the environment chooses; the part that was not copied is filled with zeros.
\<close>

definition copy_from_user :: "u8 list \<Rightarrow> nat \<Rightarrow> u8 list \<Rightarrow> nat \<Rightarrow> nat \<Rightarrow> nat \<Rightarrow> u8 list option" where
  "copy_from_user b boff u uoff n ret = memcpy_in b boff (take (n - ret) (drop uoff u) @ replicate (min n ret) 0)"

text \<open>\<^verbatim>\<open>copy_to_user\<close> gives the bytes that reach the user.\<close>

definition copy_to_user :: "u8 list \<Rightarrow> nat \<Rightarrow> nat \<Rightarrow> nat \<Rightarrow> u8 list option" where
  "copy_to_user b off n ret = map_option (take (n - ret)) (memcpy_out b off n)"

lemma memcpy_in_Some:
  assumes "off + length d \<le> length b"
  obtains b' where "memcpy_in b off d = Some b'" "length b' = length b"
    "\<And>i. i < length b \<Longrightarrow> b' ! i = (if off \<le> i \<and> i < off + length d then d ! (i - off) else b ! i)"
proof -
  let ?b = "take off b @ d @ drop (off + length d) b"
  have "?b ! i = (if off \<le> i \<and> i < off + length d then d ! (i - off) else b ! i)" if "i < length b" for i
    using that assms by (auto simp: nth_append)
  with assms show thesis by (intro that [of ?b]) (auto simp: memcpy_in_def)
qed

lemma memcpy_out_Some [simp]: "off + n \<le> length b \<Longrightarrow> memcpy_out b off n = Some (take n (drop off b))"
  by (simp add: memcpy_out_def)

section \<open>Powers of two\<close>

definition is_power_of_2 :: "ulong \<Rightarrow> bool" where
  "is_power_of_2 n \<longleftrightarrow> n \<noteq> 0 \<and> n AND (n - 1) = 0"

definition roundup_pow_of_two :: "ulong \<Rightarrow> ulong" where
  "roundup_pow_of_two n = push_bit (fls (n - 1)) 1"

lemma bit_pred_low:
  assumes "bit (n :: ulong) k" "\<And>i. i < k \<Longrightarrow> \<not> bit n i" "k < i"
  shows "bit (n - 1) i = bit n i"
proof -
  let ?h = "n AND NOT (2 ^ k)"
  have disj: "?h AND 2 ^ k = 0" by (rule bit_eqI) (auto simp: bit_simps)
  have "n = ?h OR 2 ^ k" by (rule bit_eqI) (use assms(1) in \<open>auto simp: bit_simps\<close>)
  also have "\<dots> = ?h + 2 ^ k" using disj by (simp add: disjunctive_add bit_eq_iff bit_simps)
  finally have n: "n = ?h + 2 ^ k" .
  have "?h AND mask k = 0" by (rule bit_eqI) (use assms(2) in \<open>auto simp: bit_simps\<close>)
  then have "?h + mask k = ?h OR mask k" by (simp add: disjunctive_add bit_eq_iff bit_simps)
  moreover have "n - 1 = ?h + mask k" using n by (simp add: mask_eq_exp_minus_1)
  ultimately have "n - 1 = ?h OR mask k" by simp
  then show ?thesis using assms(3) bit_ulong_lt [of n i] by (auto simp: bit_simps)
qed

lemma is_power_of_2_iff: "is_power_of_2 n \<longleftrightarrow> (\<exists>k < 32. n = 2 ^ k)"
proof
  assume p: "is_power_of_2 n"
  then obtain j where j: "bit n j" by (auto simp: is_power_of_2_def ulong_eq_0_iff)
  define k where "k = (LEAST i. bit n i)"
  have k: "bit n k" "\<And>i. i < k \<Longrightarrow> \<not> bit n i"
    unfolding k_def by (rule LeastI [of "bit n", OF j], rule not_less_Least)
  have "\<not> bit n i" if "k < i" for i
    using p bit_pred_low [OF k that] by (metis bit_0_eq bit_and_iff bot_apply bot_bool_def is_power_of_2_def)
  then have "bit n i \<longleftrightarrow> i = k" for i using k by (metis linorder_neqE_nat)
  then have "n = 2 ^ k" by (intro bit_eqI) (auto simp: bit_simps)
  with bit_ulong_lt [OF k(1)] show "\<exists>k < 32. n = 2 ^ k" by blast
next
  assume "\<exists>k < 32. n = 2 ^ k"
  then obtain k where k: "k < 32" "n = 2 ^ k" by blast
  then have "n AND (n - 1) = 0" by (intro bit_eqI) (auto simp: bit_simps mask_eq_exp_minus_1 [symmetric])
  moreover have "n \<noteq> 0" using k unat_pow2_ulong [of k] by (metis power_not_zero unat_0 zero_neq_numeral)
  ultimately show "is_power_of_2 n" by (simp add: is_power_of_2_def)
qed


lemma unat_top_bit:
  assumes "bit (w :: ulong) m" "\<And>j. m < j \<Longrightarrow> \<not> bit w j"
  shows "2 ^ m \<le> unat w \<and> unat w < 2 ^ (m + 1)"
proof
  have "bit (unat w) m" using assms(1) bit_ulong_lt by (simp add: bit_unsigned_iff)
  then have "unat w div 2 ^ m \<noteq> 0" by (auto simp: bit_iff_odd elim: oddE)
  then show "2 ^ m \<le> unat w" by (simp add: div_eq_0_iff)
  have "take_bit (m + 1) w = w"
    by (rule bit_eqI) (use assms(2) not_less_eq in \<open>auto simp: bit_take_bit_iff\<close>)
  then have "unat w = take_bit (m + 1) (unat w)" by (metis unsigned_take_bit_eq)
  then show "unat w < 2 ^ (m + 1)" by (metis take_bit_nat_less_exp)
qed

lemma roundup_pow_of_two_correct:
  assumes "n \<noteq> 0" "unat n \<le> 2 ^ 31"
  shows "\<exists>k < 32. roundup_pow_of_two n = 2 ^ k \<and> unat n \<le> 2 ^ k \<and> (\<forall>j. unat n \<le> 2 ^ j \<longrightarrow> k \<le> j)"
proof (cases "n = 1")
  case True
  then show ?thesis by (intro exI [of _ 0]) (simp add: roundup_pow_of_two_def fls_def)
next
  case False
  let ?w = "n - 1"
  have w: "?w \<noteq> 0" using False by simp
  have u: "unat n = unat ?w + 1" using assms(1) unat_minus_one [of n] by (simp add: unat_gt_0 Suc_leI)
  let ?m = "fls0 ?w"
  have b: "2 ^ ?m \<le> unat ?w" "unat ?w < 2 ^ (?m + 1)" using fls0_correct [OF w] unat_top_bit [of ?w ?m] by auto
  have "(2 :: nat) ^ ?m < 2 ^ 31" using b(1) u assms(2) by linarith
  then have "?m < 31" by (rule power_less_imp_less_exp [rotated]) simp
  then have m: "?m + 1 < 32" by simp
  have k: "?m + 1 \<le> j" if "unat n \<le> 2 ^ j" for j
  proof -
    have "(2 :: nat) ^ ?m < 2 ^ j" using that b(1) u by linarith
    then have "?m < j" by (rule power_less_imp_less_exp [rotated]) simp
    then show ?thesis by simp
  qed
  have "roundup_pow_of_two n = 2 ^ (?m + 1)" using w by (simp add: roundup_pow_of_two_def fls_correct)
  with m k b(2) u show ?thesis by (intro exI [of _ "?m + 1"]) (simp_all add: Suc_le_eq)
qed

section \<open>Positions in a ring\<close>

lemma unat_and_pred_pow2: "k < 32 \<Longrightarrow> unat (w AND (2 ^ k - 1) :: ulong) = unat w mod 2 ^ k"
  by (simp add: mask_eq_exp_minus_1 [symmetric] take_bit_eq_mask [symmetric] unsigned_take_bit_eq)
    (simp add: take_bit_eq_mod)

lemma unat_add_mod_pow2: "k \<le> 32 \<Longrightarrow> unat (x + y :: ulong) mod 2 ^ k = (unat x + unat y) mod 2 ^ k"
  by (simp only: unat_word_ariths len_bit0 len_num1) (simp add: mod_mod_cancel le_imp_power_dvd del: power_numeral)

definition ring_get :: "'a list \<Rightarrow> nat \<Rightarrow> nat \<Rightarrow> 'a list" where
  "ring_get b p n = map (\<lambda>i. b ! ((p + i) mod length b)) [0..<n]"

definition ring_put :: "'a list \<Rightarrow> nat \<Rightarrow> 'a list \<Rightarrow> 'a list" where
  "ring_put b p d = map (\<lambda>i. let j = (i + length b - p mod length b) mod length b in if j < length d then d ! j else b ! i)
     [0..<length b]"

lemma length_ring [simp]: "length (ring_get b p n) = n" "length (ring_put b p d) = length b"
  by (simp_all add: ring_get_def ring_put_def)

lemma ring_get_0 [simp]: "ring_get b p 0 = []"
  by (simp add: ring_get_def)

lemma ring_get_mod: "ring_get b (p mod length b) n = ring_get b p n"
  by (simp add: ring_get_def mod_add_left_eq)

lemma ring_get_add: "ring_get b p (n + m) = ring_get b p n @ ring_get b (p + n) m"
  by (rule nth_equalityI) (auto simp: ring_get_def nth_append)

lemma take_ring_get [simp]: "take m (ring_get b p n) = ring_get b p (min m n)"
  by (simp add: ring_get_def take_map min_def)

lemma drop_ring_get: "m \<le> n \<Longrightarrow> drop m (ring_get b p n) = ring_get b (p + m) (n - m)"
  using ring_get_add [of b p m "n - m"] by simp

lemma ring_index: "p < N \<Longrightarrow> i < N \<Longrightarrow> (p + i) mod N = (if p + i < N then p + i else p + i - N)" for N :: nat
  using le_mod_geq [of N "p + i"] mod_less [of "p + i - N" N] by auto

lemma ring_offset: "j < N \<Longrightarrow> ((p + j) mod N + N - p mod N) mod N = (j :: nat)"
proof -
  assume j: "j < N"
  have m: "(p + j) mod N = (p mod N + j) mod N" by (simp add: mod_add_left_eq)
  have p: "p mod N < N" using j by simp
  show ?thesis
  proof (cases "p mod N + j < N")
    case True
    then have "(p + j) mod N + N - p mod N = j + N" using m by simp
    then show ?thesis using j by simp
  next
    case False
    then have "(p mod N + j) mod N = p mod N + j - N" using ring_index [OF p j] by simp
    then have "(p + j) mod N + N - p mod N = j" using m False by simp
    then show ?thesis using j by simp
  qed
qed

lemma ring_get_put:
  assumes "n + length d \<le> length b"
  shows "ring_get (ring_put b (p + n) d) p (n + length d) = ring_get b p n @ d"
proof (rule nth_equalityI)
  fix i assume "i < length (ring_get (ring_put b (p + n) d) p (n + length d))"
  then have i: "i < n + length d" by simp
  let ?N = "length b"
  have q: "(p + i) mod ?N < ?N" using i assms by (intro mod_less_divisor) linarith
  have at: "ring_get (ring_put b (p + n) d) p (n + length d) ! i
    = (let j = ((p + i) mod ?N + ?N - (p + n) mod ?N) mod ?N in if j < length d then d ! j else b ! ((p + i) mod ?N))"
    using i q by (simp add: ring_get_def ring_put_def Let_def)
  show "ring_get (ring_put b (p + n) d) p (n + length d) ! i = (ring_get b p n @ d) ! i"
  proof (cases "i < n")
    case True
    have "(p + i) mod ?N = ((p + n) + (?N + i - n)) mod ?N"
    proof -
      have "(p + n) + (?N + i - n) = ?N + (p + i)" using assms by simp
      then show ?thesis by (metis mod_add_self1)
    qed
    moreover have "?N + i - n < ?N" "length d \<le> ?N + i - n" using True assms by simp_all
    ultimately show ?thesis using True unfolding at
      by (simp add: ring_offset Let_def nth_append) (simp add: ring_get_def)
  next
    case False
    have "((p + i) mod ?N + ?N - (p + n) mod ?N) mod ?N = i - n"
      using ring_offset [of "i - n" ?N "p + n"] False i assms by simp
    moreover have "i - n < length d" using False i by simp
    ultimately show ?thesis using False unfolding at by (simp add: Let_def nth_append)
  qed
qed simp

text \<open>The two copies that the ring buffers make, one up to the end of the buffer and one from its start.\<close>

lemma ring_get_split:
  assumes "p < length b" "n \<le> length b" "l = min n (length b - p)"
  shows "take l (drop p b) @ take (n - l) b = ring_get b p n"
proof (rule nth_equalityI)
  fix i assume "i < length (take l (drop p b) @ take (n - l) b)"
  then have "i < n" using assms by auto
  then show "(take l (drop p b) @ take (n - l) b) ! i = ring_get b p n ! i"
    using assms ring_index [of p "length b" i] by (auto simp: nth_append ring_get_def min_def add.commute)
qed (use assms in auto)

lemma ring_put_split:
  assumes "p < length b" "length d \<le> length b" "l = min (length d) (length b - p)"
  obtains b' where "memcpy_in b p (take l d) = Some b'" "memcpy_in b' 0 (drop l d) = Some (ring_put b p d)"
proof -
  have "p + length (take l d) \<le> length b" using assms by simp
  then obtain b' where b': "memcpy_in b p (take l d) = Some b'" "length b' = length b"
    "\<And>i. i < length b \<Longrightarrow> b' ! i = (if p \<le> i \<and> i < p + length (take l d) then take l d ! (i - p) else b ! i)"
    by (rule memcpy_in_Some) blast
  have "0 + length (drop l d) \<le> length b'" using assms b' by auto
  then obtain b'' where b'': "memcpy_in b' 0 (drop l d) = Some b''" "length b'' = length b'"
    "\<And>i. i < length b' \<Longrightarrow> b'' ! i = (if 0 \<le> i \<and> i < 0 + length (drop l d) then drop l d ! (i - 0) else b' ! i)"
    by (rule memcpy_in_Some) blast
  have "b'' = ring_put b p d"
  proof (rule nth_equalityI)
    fix i assume "i < length b''"
    then have i: "i < length b" using b' b'' by simp
    have off: "(i + length b - p) mod length b = (if p \<le> i then i - p else i + length b - p)"
      using i assms(1) mod_less [of "i - p" "length b"] le_mod_geq [of "length b" "i + length b - p"] by auto
    show "b'' ! i = ring_put b p d ! i"
      using i assms b'(3) [OF i] b''(3) [of i] b'(2)
      by (auto simp: ring_put_def Let_def off min_def add.commute split: if_splits)
  qed (use b' b'' in simp)
  with b' b'' that show ?thesis by blast
qed

lemma memcpy_in_ring:
  assumes "p < length b" "p + length d \<le> length b"
  shows "memcpy_in b p d = Some (ring_put b p d)"
proof -
  have "length d \<le> length b" "length d = min (length d) (length b - p)" using assms by simp_all
  from ring_put_split [OF assms(1) this] obtain b' where
    "memcpy_in b p d = Some b'" "memcpy_in b' 0 [] = Some (ring_put b p d)" by auto
  then show ?thesis by (simp add: memcpy_in_def [of b'])
qed

lemma ring_put_mod: "ring_put b (p mod length b) d = ring_put b p d"
  by (simp add: ring_put_def)

lemma ring_put_nth:
  assumes "j < length b"
  shows "ring_put b p d ! ((p + j) mod length b) = (if j < length d then d ! j else b ! ((p + j) mod length b))"
proof -
  have "(p + j) mod length b < length b" using assms by (intro mod_less_divisor) linarith
  then show ?thesis using assms by (simp add: ring_put_def ring_offset Let_def)
qed

lemma ring_index_ex: "i < N \<Longrightarrow> \<exists>j < N. i = (p + j) mod N" for N :: nat
proof -
  assume i: "i < N"
  then have p: "p mod N < N" by simp
  have e: "(p + j) mod N = (p mod N + j) mod N" for j by (simp add: mod_add_left_eq)
  show ?thesis
  proof (cases "p mod N \<le> i")
    case True
    then have "(p mod N + (i - p mod N)) mod N = i" using i by (simp only: le_add_diff_inverse mod_less)
    then show ?thesis using True i unfolding e by (intro exI [of _ "i - p mod N"]) linarith
  next
    case False
    then have "(p mod N + (i + N - p mod N)) mod N = i" using i p by simp
    then show ?thesis using False i p unfolding e by (intro exI [of _ "i + N - p mod N"]) linarith
  qed
qed

lemma ring_put_nth_off:
  assumes "m + length d \<le> length b" "j < length b"
  shows "ring_put b (p + m) d ! ((p + j) mod length b)
    = (if m \<le> j \<and> j < m + length d then d ! (j - m) else b ! ((p + j) mod length b))"
proof (cases "m \<le> j")
  case True
  then show ?thesis using ring_put_nth [of "j - m" b "p + m" d] assms by auto
next
  case False
  have "(p + m + (length b + j - m)) = (p + j) + length b" using assms by simp
  then have "(p + m + (length b + j - m)) mod length b = (p + j) mod length b" by (metis mod_add_self2)
  then show ?thesis using ring_put_nth [of "length b + j - m" b "p + m" d] assms False by auto
qed

lemma ring_put_append:
  assumes "length h + length d \<le> length b"
  shows "ring_put (ring_put b (p + length h) d) p h = ring_put b p (h @ d)"
    and "ring_put (ring_put b p h) (p + length h) d = ring_put b p (h @ d)"
proof -
  have "ring_put (ring_put b (p + length h) d) p h ! i = ring_put b p (h @ d) ! i
      \<and> ring_put (ring_put b p h) (p + length h) d ! i = ring_put b p (h @ d) ! i" if i: "i < length b" for i
  proof -
    obtain j where j: "j < length b" "i = (p + j) mod length b" using ring_index_ex [OF i] by blast
    then show ?thesis
      using assms ring_put_nth_off [of "length h" d b j p] ring_put_nth_off [of "length h" d "ring_put b p h" j p]
        ring_put_nth [of j b p] ring_put_nth [of j "ring_put b (p + length h) d" p h]
      by (auto simp: nth_append)
  qed
  then show "ring_put (ring_put b (p + length h) d) p h = ring_put b p (h @ d)"
    "ring_put (ring_put b p h) (p + length h) d = ring_put b p (h @ d)"
    by (auto intro!: nth_equalityI)
qed

lemma ring_get_put_other:
  assumes "n + m + length d \<le> length b"
  shows "ring_get (ring_put b (p + n + m) d) p n = ring_get b p n"
proof (rule nth_equalityI)
  fix i assume "i < length (ring_get (ring_put b (p + n + m) d) p n)"
  then show "ring_get (ring_put b (p + n + m) d) p n ! i = ring_get b p n ! i"
    using assms ring_put_nth_off [of "n + m" d b i p] by (simp add: ring_get_def add.assoc)
qed simp

text \<open>The two user copies of a ring, with \<open>r1\<close> and \<open>r2\<close> bytes that fail to be copied.\<close>

lemma ring_copy_to_user:
  assumes "p < length b" "n \<le> length b" "l = min n (length b - p)"
  shows "r1 \<le> l \<Longrightarrow> copy_to_user b p l r1 = Some (ring_get b p (l - r1))"
    and "r2 \<le> n - l \<Longrightarrow> \<exists>d2. copy_to_user b 0 (n - l) r2 = Some d2 \<and> ring_get b p l @ d2 = ring_get b p (n - r2)"
proof -
  have l: "l \<le> n" "p + l \<le> length b" using assms by simp_all
  have sp: "take l (drop p b) @ take (n - l) b = ring_get b p n" by (rule ring_get_split [OF assms])
  have "take l (take l (drop p b) @ take (n - l) b) = take l (ring_get b p n)" unfolding sp ..
  then have 1: "take l (drop p b) = ring_get b p l" using l by (simp add: min_absorb1)
  then show "copy_to_user b p l r1 = Some (ring_get b p (l - r1))" if "r1 \<le> l"
    using l by (simp add: copy_to_user_def)
  show "\<exists>d2. copy_to_user b 0 (n - l) r2 = Some d2 \<and> ring_get b p l @ d2 = ring_get b p (n - r2)" if "r2 \<le> n - l"
  proof -
    have "copy_to_user b 0 (n - l) r2 = Some (take (n - l - r2) (take (n - l) b))"
      using assms(2) by (simp add: copy_to_user_def)
    moreover have "ring_get b p l @ take (n - l - r2) (take (n - l) b) = take (n - r2) (ring_get b p n)"
      unfolding sp [symmetric] 1 using that l(1) by (simp add: add.commute)
    ultimately show ?thesis by (auto simp: min_absorb1)
  qed
qed

lemma ring_copy_from_user:
  assumes "p < length b" "n \<le> length b" "n \<le> length u" "l = min n (length b - p)"
  shows "r1 \<le> l \<Longrightarrow> copy_from_user b p u 0 l r1 = Some (ring_put b p (take (l - r1) u @ replicate r1 0))"
    and "r2 \<le> n - l \<Longrightarrow> \<exists>b'. copy_from_user b p u 0 l 0 = Some b'
      \<and> copy_from_user b' 0 u l (n - l) r2 = Some (ring_put b p (take (n - r2) u @ replicate r2 0))"
proof -
  have l: "l \<le> n" "p + l \<le> length b" using assms by simp_all
  show "copy_from_user b p u 0 l r1 = Some (ring_put b p (take (l - r1) u @ replicate r1 0))" if "r1 \<le> l"
    using that l assms memcpy_in_ring [of p b "take (l - r1) u @ replicate r1 0"]
    by (simp add: copy_from_user_def min_absorb2)
  show "\<exists>b'. copy_from_user b p u 0 l 0 = Some b'
      \<and> copy_from_user b' 0 u l (n - l) r2 = Some (ring_put b p (take (n - r2) u @ replicate r2 0))" if r2: "r2 \<le> n - l"
  proof -
    let ?d = "take (n - r2) u @ replicate r2 0"
    have len: "length ?d = n" using r2 assms(3) by simp
    have "l \<le> n - r2" using r2 l(1) by simp
    then have s: "take l ?d = take l u" "drop l ?d = take (n - l - r2) (drop l u) @ replicate r2 0"
      using assms(3) by (simp_all add: min_absorb1 drop_take add.commute)
    have "length ?d \<le> length b" "l = min (length ?d) (length b - p)" using len assms by simp_all
    from ring_put_split [OF assms(1) this] obtain b' where
      "memcpy_in b p (take l ?d) = Some b'" "memcpy_in b' 0 (drop l ?d) = Some (ring_put b p ?d)" .
    then show ?thesis unfolding s using r2 by (auto simp: copy_from_user_def min_absorb2)
  qed
qed

end
