(* ===== verification/Vsprintf_Pointer.thy ===== *)
theory Vsprintf_Pointer
  imports Vsprintf_Number Byte_Buffer
begin

unbundle bit_operations_syntax

text \<open>Strings and the extended pointer formats of \<^verbatim>\<open>lib/vsprintf.c\<close>: \<^verbatim>\<open>string\<close>, hardware and network addresses,
  UUIDs, resources and symbols, and \<^verbatim>\<open>pointer\<close>, which selects among them. A local array is the list of
  the bytes stored into it; a store past its end is \<open>None\<close>. The symbol table is generated by the build:
  the texts of symbols are a parameter.\<close>

section \<open>Strings\<close>

text \<open>What an argument points to, behind its address.\<close>

record resource =
  res_start :: u32
  res_end :: u32
  res_flags :: u32

datatype pointee = Bytes "u8 list" | Res resource

type_synonym ptr = "u32 \<times> pointee"

fun bytes_of :: "pointee \<Rightarrow> u8 list option" where
  "bytes_of (Bytes s) = Some s"
| "bytes_of (Res r) = None"

text \<open>The string \<^verbatim>\<open>"(null)"\<close>.\<close>

definition null_str :: "u8 list" where
  "null_str = [40, 110, 117, 108, 108, 41, 0]"

lemma s16_pred_less: "int len < sint fw \<Longrightarrow> unat (fw - 1) < unat fw" for fw :: "16 word"
  using s16_dec [of fw] by (intro dec16_less) linarith

text \<open>The loop \<^verbatim>\<open>while (len < spec.field_width--)\<close>.\<close>

function space_loop :: "nat \<Rightarrow> nat \<Rightarrow> 16 word \<Rightarrow> out \<Rightarrow> 16 word \<times> out" where
  "space_loop e len fw ob = (if int len < sint fw then space_loop e len (fw - 1) (emit e 32 ob) else (fw - 1, ob))"
  by pat_completeness auto
termination by (relation "measure (\<lambda>(e, len, fw, ob). unat fw)") (auto intro: s16_pred_less)

declare space_loop.simps [simp del]

definition vs_string :: "nat \<Rightarrow> ptr \<Rightarrow> printf_spec \<Rightarrow> out \<Rightarrow> out option" where
  "vs_string e p spec ob = do {
     s \<leftarrow> (if fst p < 4096 then Some null_str else bytes_of (snd p));
     len \<leftarrow> strnlen s (unat (scast (precision spec) :: u32));
     let (fw, ob) = (if sp_flags spec AND LEFT = 0 then space_loop e len (field_width spec) ob else (field_width spec, ob));
     let ob = fold (emit e) (take len s) ob;
     Some (snd (space_loop e len fw ob)) }"

text \<open>A string in a local array of \<open>n\<close> bytes, with its terminator; its address is not below a page.\<close>

definition local_str :: "nat \<Rightarrow> u8 list \<Rightarrow> ptr option" where
  "local_str n t = (if length t < n then Some (0xC0000000, Bytes (t @ [0])) else None)"

section \<open>Symbols and resources\<close>

text \<open>The contents of the array \<^verbatim>\<open>sym\<close> after \<^verbatim>\<open>sprint_symbol\<close> and \<^verbatim>\<open>kallsyms_lookup\<close>.\<close>

record ksyms =
  sprint_symbol :: "u32 \<Rightarrow> u8 list"
  kallsyms_lookup :: "u32 \<Rightarrow> u8 list"

definition symbol_string :: "ksyms \<Rightarrow> nat \<Rightarrow> u32 \<Rightarrow> printf_spec \<Rightarrow> u8 \<Rightarrow> out \<Rightarrow> out option" where
  "symbol_string ks e value spec ext ob =
    (let sym = (if ext \<noteq> 102 \<and> ext \<noteq> 115 then sprint_symbol ks value else kallsyms_lookup ks value)
     in vs_string e (0xC0000000, Bytes sym) spec ob)"

definition IORESOURCE_IO :: u32 where "IORESOURCE_IO = 0x100"
definition IORESOURCE_MEM :: u32 where "IORESOURCE_MEM = 0x200"
definition IORESOURCE_IRQ :: u32 where "IORESOURCE_IRQ = 0x400"
definition IORESOURCE_DMA :: u32 where "IORESOURCE_DMA = 0x800"
definition IORESOURCE_BUS :: u32 where "IORESOURCE_BUS = 0x1000"
definition IORESOURCE_PREFETCH :: u32 where "IORESOURCE_PREFETCH = 0x2000"
definition IORESOURCE_MEM_64 :: u32 where "IORESOURCE_MEM_64 = 0x100000"
definition IORESOURCE_WINDOW :: u32 where "IORESOURCE_WINDOW = 0x200000"
definition IORESOURCE_DISABLED :: u32 where "IORESOURCE_DISABLED = 0x10000000"

definition io_spec :: printf_spec where
  "io_spec = \<lparr>sp_flags = SPECIAL OR SMALL OR ZEROPAD, sp_base = 16, field_width = 6, precision = -1\<rparr>"
definition mem_spec :: printf_spec where
  "mem_spec = \<lparr>sp_flags = SPECIAL OR SMALL OR ZEROPAD, sp_base = 16, field_width = 10, precision = -1\<rparr>"
definition bus_spec :: printf_spec where
  "bus_spec = \<lparr>sp_flags = SMALL OR ZEROPAD, sp_base = 16, field_width = 2, precision = -1\<rparr>"
definition dec_spec :: printf_spec where
  "dec_spec = \<lparr>sp_flags = 0, sp_base = 10, field_width = 0, precision = -1\<rparr>"
definition str_spec :: printf_spec where
  "str_spec = \<lparr>sp_flags = LEFT, sp_base = 0, field_width = -1, precision = 10\<rparr>"
definition flag_spec :: printf_spec where
  "flag_spec = \<lparr>sp_flags = SPECIAL OR SMALL, sp_base = 16, field_width = 0, precision = -1\<rparr>"

text \<open>A literal as an argument of \<^verbatim>\<open>string\<close>, and the unchecked store \<^verbatim>\<open>*p++ = c\<close>.\<close>

definition lit :: "u8 list \<Rightarrow> ptr" where
  "lit s = (0xC0000000, Bytes (s @ [0]))"

definition put_char :: "u8 \<Rightarrow> out \<Rightarrow> out option" where
  "put_char c ob = map_option (Pair (fst ob + 1)) (store (snd ob) (fst ob) c)"

text \<open>The size of the array \<^verbatim>\<open>sym\<close>: \<^verbatim>\<open>2*RSRC_BUF_SIZE + DECODED_BUF_SIZE\<close> with a 32-bit \<^verbatim>\<open>resource_size_t\<close>.\<close>

definition rsrc_sym_size :: nat where
  "rsrc_sym_size = max (2 * (2 * 4 + 4) + 35) (2 * (2 * 4 + 4) + 2 * 4 + 17)"

text \<open>The texts \<^verbatim>\<open>"io  "\<close>, \<^verbatim>\<open>"mem "\<close>, \<^verbatim>\<open>"irq "\<close>, \<^verbatim>\<open>"dma "\<close>, \<^verbatim>\<open>"bus "\<close>, \<^verbatim>\<open>"??? "\<close> with the format of the addresses and whether the
  flags can be decoded.\<close>

definition rsrc_kind :: "u32 \<Rightarrow> u8 list \<times> printf_spec \<times> bool" where
  "rsrc_kind flags =
    (if flags AND IORESOURCE_IO \<noteq> 0 then ([105, 111, 32, 32], io_spec, True)
     else if flags AND IORESOURCE_MEM \<noteq> 0 then ([109, 101, 109, 32], mem_spec, True)
     else if flags AND IORESOURCE_IRQ \<noteq> 0 then ([105, 114, 113, 32], dec_spec, True)
     else if flags AND IORESOURCE_DMA \<noteq> 0 then ([100, 109, 97, 32], dec_spec, True)
     else if flags AND IORESOURCE_BUS \<noteq> 0 then ([98, 117, 115, 32], bus_spec, True)
     else ([63, 63, 63, 32], mem_spec, False))"

definition resource_string :: "nat \<Rightarrow> resource \<Rightarrow> printf_spec \<Rightarrow> u8 list \<Rightarrow> out \<Rightarrow> out option" where
  "resource_string e res spec fmt ob = do {
     f \<leftarrow> rd fmt 0;
     let pend = rsrc_sym_size;
     let flags = res_flags res;
     p \<leftarrow> put_char 91 (0, replicate rsrc_sym_size 0);
     let (kind, specp, known) = rsrc_kind flags;
     let decode = (f = 82 \<and> known);
     p \<leftarrow> vs_string pend (lit kind) str_spec p;
     let p = number pend (ucast (res_start res)) specp p;
     p \<leftarrow> (if res_start res \<noteq> res_end res then do {
             p \<leftarrow> put_char 45 p;
             Some (number pend (ucast (res_end res)) specp p) }
           else Some p);
     p \<leftarrow> (if decode then do {
             p \<leftarrow> (if flags AND IORESOURCE_MEM_64 \<noteq> 0 then vs_string pend (lit [32, 54, 52, 98, 105, 116]) str_spec p else Some p);
             p \<leftarrow> (if flags AND IORESOURCE_PREFETCH \<noteq> 0 then vs_string pend (lit [32, 112, 114, 101, 102]) str_spec p else Some p);
             p \<leftarrow> (if flags AND IORESOURCE_WINDOW \<noteq> 0
                   then vs_string pend (lit [32, 119, 105, 110, 100, 111, 119]) str_spec p else Some p);
             if flags AND IORESOURCE_DISABLED \<noteq> 0
             then vs_string pend (lit [32, 100, 105, 115, 97, 98, 108, 101, 100]) str_spec p else Some p }
           else do {
             p \<leftarrow> vs_string pend (lit [32, 102, 108, 97, 103, 115, 32]) str_spec p;
             Some (number pend (ucast flags) flag_spec p) });
     p \<leftarrow> put_char 93 p;
     p \<leftarrow> put_char 0 p;
     vs_string e (0xC0000000, Bytes (snd p)) spec ob }"

section \<open>Addresses\<close>

text \<open>The string \<^verbatim>\<open>"0123456789abcdef"\<close>.\<close>

definition hex_asc :: "u8 list" where
  "hex_asc = [48, 49, 50, 51, 52, 53, 54, 55, 56, 57, 97, 98, 99, 100, 101, 102]"

definition hex_asc_lo :: "u8 \<Rightarrow> u8" where
  "hex_asc_lo x = hex_asc ! unat (x AND 0x0f)"

definition hex_asc_hi :: "u8 \<Rightarrow> u8" where
  "hex_asc_hi x = hex_asc ! unat (drop_bit 4 (x AND 0xf0))"

definition pack_hex_byte :: "u8 \<Rightarrow> u8 list" where
  "pack_hex_byte b = [hex_asc_hi b, hex_asc_lo b]"

fun mac_loop :: "u8 list \<Rightarrow> u8 \<Rightarrow> u8 \<Rightarrow> nat list \<Rightarrow> u8 list option" where
  "mac_loop addr f separator [] = Some []"
| "mac_loop addr f separator (i # is) = do {
     a \<leftarrow> rd addr i;
     t \<leftarrow> mac_loop addr f separator is;
     Some (pack_hex_byte a @ (if f = 77 \<and> i \<noteq> 5 then [separator] else []) @ t) }"

text \<open>Each address function fills a local array first, which has a definition of its own, and prints it as a string.\<close>

definition mac_addr :: "u8 list \<Rightarrow> u8 list \<Rightarrow> ptr option" where
  "mac_addr addr fmt = do {
     f0 \<leftarrow> rd fmt 0; f1 \<leftarrow> rd fmt 1;
     let separator = (if f1 = 70 then 45 else 58);
     t \<leftarrow> mac_loop addr f0 separator [0..<6];
     local_str 18 t }"

definition mac_address_string :: "nat \<Rightarrow> u8 list \<Rightarrow> printf_spec \<Rightarrow> u8 list \<Rightarrow> out \<Rightarrow> out option" where
  "mac_address_string e addr spec fmt ob = do { s \<leftarrow> mac_addr addr fmt; vs_string e s spec ob }"

fun ip4_loop :: "u8 list \<Rightarrow> bool \<Rightarrow> int \<Rightarrow> int \<Rightarrow> nat list \<Rightarrow> u8 list option" where
  "ip4_loop addr leading_zeros index step [] = Some []"
| "ip4_loop addr leading_zeros index step (i # is) = do {
     a \<leftarrow> rd addr (nat index);
     let temp = put_dec_trunc (ucast a);
     let digits = length temp;
     t \<leftarrow> ip4_loop addr leading_zeros (index + step) step is;
     if digits \<le> 3 then
       Some ((if leading_zeros then (if digits < 3 then [48] else []) @ (if digits < 2 then [48] else []) else [])
         @ rev temp @ (if i < 3 then [46] else []) @ t)
     else None }"

definition ip4_string :: "u8 list \<Rightarrow> u8 list \<Rightarrow> u8 list option" where
  "ip4_string addr fmt = do {
     f0 \<leftarrow> rd fmt 0; f2 \<leftarrow> rd fmt 2;
     let (index, step) = (if f2 = 104 \<or> f2 = 108 then (3, - 1) else (0, 1));
     ip4_loop addr (f0 = 105) index step [0..<4] }"

text \<open>Host order is little endian; \<^verbatim>\<open>struct in6_addr\<close> is its 16 bytes.\<close>

definition s6_addr16 :: "u8 list \<Rightarrow> nat \<Rightarrow> 16 word" where
  "s6_addr16 in6 i = ucast (in6 ! (2 * i)) OR push_bit 8 (ucast (in6 ! (2 * i + 1)))"

definition s6_addr32 :: "u8 list \<Rightarrow> nat \<Rightarrow> u32" where
  "s6_addr32 in6 i = ucast (s6_addr16 in6 (2 * i)) OR push_bit 16 (ucast (s6_addr16 in6 (2 * i + 1)))"

definition ntohs :: "16 word \<Rightarrow> 16 word" where
  "ntohs w = push_bit 8 w OR drop_bit 8 w"

definition htonl :: "u32 \<Rightarrow> u32" where
  "htonl w = push_bit 24 (w AND 0xff) OR push_bit 8 (w AND 0xff00) OR drop_bit 8 (w AND 0xff0000) OR drop_bit 24 w"

definition ipv6_addr_v4mapped :: "u8 list \<Rightarrow> bool" where
  "ipv6_addr_v4mapped a \<longleftrightarrow> s6_addr32 a 0 OR s6_addr32 a 1 OR (s6_addr32 a 2 XOR htonl 0x0000ffff) = 0"

definition ipv6_addr_is_isatap :: "u8 list \<Rightarrow> bool" where
  "ipv6_addr_is_isatap a \<longleftrightarrow> s6_addr32 a 2 OR htonl 0x02000000 = htonl 0x02005EFE"

text \<open>The zeros from position \<open>i\<close> on (the list starts there), and the longest run.\<close>

fun zero_run :: "u8 list \<Rightarrow> nat list \<Rightarrow> nat" where
  "zero_run in6 [] = 0"
| "zero_run in6 (j # js) = (if s6_addr16 in6 j \<noteq> 0 then 0 else Suc (zero_run in6 js))"

definition longest_run :: "u8 list \<Rightarrow> nat \<Rightarrow> nat \<times> int" where
  "longest_run in6 rng =
    fold (\<lambda>i (longest, colonpos). let z = zero_run in6 [i..<rng] in if z > longest then (z, int i) else (longest, colonpos))
      [0..<rng] (1, - 1)"

function ip6c_loop :: "u8 list \<Rightarrow> nat \<Rightarrow> nat \<Rightarrow> int \<Rightarrow> bool \<Rightarrow> nat \<Rightarrow> u8 list \<times> bool" where
  "ip6c_loop in6 rng longest colonpos needcolon i =
    (if rng \<le> i then ([], needcolon)
     else if int i = colonpos then
       let (t, n) = ip6c_loop in6 rng longest colonpos False (i + (longest - 1) + 1)
       in ((if needcolon \<or> i = 0 then [58] else []) @ [58] @ t, n)
     else
       let word = ntohs (s6_addr16 in6 i);
           hi = (ucast (drop_bit 8 word) :: u8);
           lo = (ucast (word AND 0xff) :: u8);
           (t, n) = ip6c_loop in6 rng longest colonpos True (i + 1)
       in ((if needcolon then [58] else [])
         @ (if hi \<noteq> 0 then (if hi > 0x0f then pack_hex_byte hi else [hex_asc_lo hi]) @ pack_hex_byte lo
            else if lo > 0x0f then pack_hex_byte lo else [hex_asc_lo lo]) @ t, n))"
  by pat_completeness auto
termination by (relation "measure (\<lambda>(in6, rng, longest, colonpos, needcolon, i). rng - i)") auto

declare ip6c_loop.simps [simp del]

definition ip6_compressed_string :: "u8 list \<Rightarrow> u8 list option" where
  "ip6_compressed_string addr = do {
     in6 \<leftarrow> memcpy_out addr 0 16;
     let useIPv4 = (ipv6_addr_v4mapped in6 \<or> ipv6_addr_is_isatap in6);
     let rng = (if useIPv4 then 6 else 8);
     let (longest, colonpos) = longest_run in6 rng;
     let (t, needcolon) = ip6c_loop in6 rng longest colonpos False 0;
     if useIPv4 then do {
       v4 \<leftarrow> ip4_string (drop 12 in6) [73, 52, 0];
       Some (t @ (if needcolon then [58] else []) @ v4) }
     else Some t }"

fun ip6_loop :: "u8 list \<Rightarrow> u8 \<Rightarrow> nat list \<Rightarrow> u8 list option" where
  "ip6_loop addr f [] = Some []"
| "ip6_loop addr f (i # is) = do {
     a \<leftarrow> rd addr (2 * i); b \<leftarrow> rd addr (2 * i + 1);
     t \<leftarrow> ip6_loop addr f is;
     Some (pack_hex_byte a @ pack_hex_byte b @ (if f = 73 \<and> i \<noteq> 7 then [58] else []) @ t) }"

definition ip6_string :: "u8 list \<Rightarrow> u8 list \<Rightarrow> u8 list option" where
  "ip6_string addr fmt = do { f \<leftarrow> rd fmt 0; ip6_loop addr f [0..<8] }"

definition ip6_addr :: "u8 list \<Rightarrow> u8 list \<Rightarrow> ptr option" where
  "ip6_addr addr fmt = do {
     f0 \<leftarrow> rd fmt 0;
     c \<leftarrow> (if f0 = 73 then map_option (\<lambda>f. f = 99) (rd fmt 2) else Some False);
     t \<leftarrow> (if c then ip6_compressed_string addr else ip6_string addr fmt);
     local_str 46 t }"

definition ip6_addr_string :: "nat \<Rightarrow> u8 list \<Rightarrow> printf_spec \<Rightarrow> u8 list \<Rightarrow> out \<Rightarrow> out option" where
  "ip6_addr_string e addr spec fmt ob = do { s \<leftarrow> ip6_addr addr fmt; vs_string e s spec ob }"

definition ip4_addr :: "u8 list \<Rightarrow> u8 list \<Rightarrow> ptr option" where
  "ip4_addr addr fmt = do { t \<leftarrow> ip4_string addr fmt; local_str 16 t }"

definition ip4_addr_string :: "nat \<Rightarrow> u8 list \<Rightarrow> printf_spec \<Rightarrow> u8 list \<Rightarrow> out \<Rightarrow> out option" where
  "ip4_addr_string e addr spec fmt ob = do { s \<leftarrow> ip4_addr addr fmt; vs_string e s spec ob }"

definition uuid_be :: "nat list" where
  "uuid_be = [0, 1, 2, 3, 4, 5, 6, 7, 8, 9, 10, 11, 12, 13, 14, 15]"

definition uuid_le :: "nat list" where
  "uuid_le = [3, 2, 1, 0, 5, 4, 7, 6, 8, 9, 10, 11, 12, 13, 14, 15]"

fun uuid_loop :: "u8 list \<Rightarrow> nat list \<Rightarrow> nat list \<Rightarrow> u8 list option" where
  "uuid_loop addr index [] = Some []"
| "uuid_loop addr index (i # is) = do {
     a \<leftarrow> rd addr (index ! i);
     t \<leftarrow> uuid_loop addr index is;
     Some (pack_hex_byte a @ (if i \<in> {3, 5, 7, 9} then [45] else []) @ t) }"

definition uuid :: "u8 list \<Rightarrow> u8 list \<Rightarrow> ptr option" where
  "uuid addr fmt = do {
     f \<leftarrow> rd fmt 1;
     let uc = (f = 76 \<or> f = 66);
     t \<leftarrow> uuid_loop addr (if f = 76 \<or> f = 108 then uuid_le else uuid_be) [0..<16];
     local_str 37 (if uc then map toupper t else t) }"

definition uuid_string :: "nat \<Rightarrow> u8 list \<Rightarrow> printf_spec \<Rightarrow> u8 list \<Rightarrow> out \<Rightarrow> out option" where
  "uuid_string e addr spec fmt ob = do { s \<leftarrow> uuid addr fmt; vs_string e s spec ob }"

section \<open>Pointers\<close>

definition pointer_spec :: "printf_spec \<Rightarrow> printf_spec" where
  "pointer_spec spec =
    (let spec = spec\<lparr>sp_flags := sp_flags spec OR SMALL\<rparr>;
         spec = (if field_width spec = -1 then spec\<lparr>field_width := 8, sp_flags := sp_flags spec OR ZEROPAD\<rparr> else spec)
     in spec\<lparr>sp_base := 16\<rparr>)"

definition pointer :: "ksyms \<Rightarrow> u8 list \<Rightarrow> nat \<Rightarrow> ptr \<Rightarrow> printf_spec \<Rightarrow> out \<Rightarrow> out option" where
  "pointer ks fmt e p spec ob =
    (if fst p = 0 then vs_string e (lit (butlast null_str)) spec ob
     else do {
       f \<leftarrow> rd fmt 0;
       let plain = Some (number e (ucast (fst p)) (pointer_spec spec) ob);
       if f \<in> {70, 102, 83, 115} then symbol_string ks e (fst p) spec f ob
       else if f = 82 \<or> f = 114 then
         (case snd p of Res res \<Rightarrow> resource_string e res spec fmt ob | Bytes _ \<Rightarrow> None)
       else if f = 77 \<or> f = 109 then do { a \<leftarrow> bytes_of (snd p); mac_address_string e a spec fmt ob }
       else if f = 73 \<or> f = 105 then do {
         f1 \<leftarrow> rd fmt 1;
         if f1 = 54 then do { a \<leftarrow> bytes_of (snd p); ip6_addr_string e a spec fmt ob }
         else if f1 = 52 then do { a \<leftarrow> bytes_of (snd p); ip4_addr_string e a spec fmt ob }
         else plain }
       else if f = 85 then do { a \<leftarrow> bytes_of (snd p); uuid_string e a spec fmt ob }
       else plain })"

section \<open>The texts\<close>

text \<open>A routine writes the text \<open>t\<close> when, whatever the buffer, it emits \<open>t\<close> at the current position.\<close>

definition writes :: "(nat \<Rightarrow> out \<Rightarrow> out option) \<Rightarrow> u8 list option \<Rightarrow> bool" where
  "writes f t \<longleftrightarrow> (\<forall>e ob. f e ob = map_option (\<lambda>t. emits e t ob) t)"

lemma writesI: "(\<And>e ob. f e ob = map_option (\<lambda>t. emits e t ob) t) \<Longrightarrow> writes f t"
  by (simp add: writes_def)

lemma writesD: "writes f t \<Longrightarrow> f e ob = map_option (\<lambda>t. emits e t ob) t"
  unfolding writes_def by blast

lemma writes_bind:
  assumes "\<And>x. writes (\<lambda>e ob. g x e ob) (t x)"
  shows "writes (\<lambda>e ob. Option.bind v (\<lambda>x. g x e ob)) (Option.bind v t)"
  by (cases v) (use assms in \<open>auto simp: writes_def\<close>)

lemma writes_if:
  "(c \<Longrightarrow> writes f a) \<Longrightarrow> (\<not> c \<Longrightarrow> writes g b) \<Longrightarrow> writes (\<lambda>e ob. if c then f e ob else g e ob) (if c then a else b)"
  by (simp add: writes_def)

definition string_text :: "ptr \<Rightarrow> printf_spec \<Rightarrow> u8 list option" where
  "string_text p spec = do {
     s \<leftarrow> (if fst p < 4096 then Some null_str else bytes_of (snd p));
     len \<leftarrow> strnlen s (unat (scast (precision spec) :: u32));
     let pad = replicate (nat (sint (field_width spec) - int len)) 32;
     Some (if sp_flags spec AND LEFT = 0 then pad @ take len s else take len s @ pad) }"

lemma space_loop_eq:
  assumes "-32768 < sint fw"
  shows "\<exists>x. space_loop e len fw ob = (x, emits e (replicate (nat (sint fw - int len)) 32) ob) \<and> sint x < int len"
  using assms
proof (induction e len fw ob rule: space_loop.induct)
  case (1 e len fw ob)
  note d = s16_dec [OF "1.prems"]
  show ?case
  proof (cases "int len < sint fw")
    case True
    then have "-32768 < sint (fw - 1)" "nat (sint fw - int len) = Suc (nat (sint (fw - 1) - int len))" using d by auto
    with "1.IH" [OF True] True show ?thesis by (subst space_loop.simps) simp
  next
    case False
    then show ?thesis using d by (subst space_loop.simps) simp
  qed
qed

lemma space_loop_none: "sint fw < int len \<Longrightarrow> snd (space_loop e len fw ob) = ob"
  by (subst space_loop.simps) simp

lemma vs_string_writes:
  assumes "-32768 < sint (field_width spec)"
  shows "writes (\<lambda>e. vs_string e p spec) (string_text p spec)"
proof (rule writesI)
  fix e ob
  let ?s = "if fst p < 4096 then Some null_str else bytes_of (snd p)"
  show "vs_string e p spec ob = map_option (\<lambda>t. emits e t ob) (string_text p spec)"
  proof (cases "Option.bind ?s (\<lambda>s. strnlen s (unat (scast (precision spec) :: u32)))")
    case None
    then show ?thesis by (cases ?s) (simp_all add: vs_string_def string_text_def)
  next
    case (Some len)
    then obtain s where s: "?s = Some s" "strnlen s (unat (scast (precision spec) :: u32)) = Some len" by (cases ?s) auto
    have sp: "\<exists>x. space_loop e len (field_width spec) ob' =
        (x, emits e (replicate (nat (sint (field_width spec) - int len)) 32) ob') \<and> sint x < int len" for ob'
      by (rule space_loop_eq [OF assms])
    show ?thesis
    proof (cases "sp_flags spec AND LEFT = 0")
      case True
      obtain x where x: "space_loop e len (field_width spec) ob =
          (x, emits e (replicate (nat (sint (field_width spec) - int len)) 32) ob)" "sint x < int len" using sp by blast
      then show ?thesis using s True space_loop_none [OF x(2)]
        by (simp add: vs_string_def string_text_def emits_app) (simp add: emits_def)
    next
      case False
      obtain x where x: "space_loop e len (field_width spec) (emits e (take len s) ob) =
          (x, emits e (replicate (nat (sint (field_width spec) - int len)) 32) (emits e (take len s) ob))" using sp by blast
      then show ?thesis using s False by (simp add: vs_string_def string_text_def emits_app) (simp add: emits_def)
    qed
  qed
qed

subsection \<open>Resources\<close>

definition rsrc_opts :: "bool \<Rightarrow> u32 \<Rightarrow> u8 list" where
  "rsrc_opts decode flags =
    (if decode then
       (if flags AND IORESOURCE_MEM_64 \<noteq> 0 then [32, 54, 52, 98, 105, 116] else [])
       @ (if flags AND IORESOURCE_PREFETCH \<noteq> 0 then [32, 112, 114, 101, 102] else [])
       @ (if flags AND IORESOURCE_WINDOW \<noteq> 0 then [32, 119, 105, 110, 100, 111, 119] else [])
       @ (if flags AND IORESOURCE_DISABLED \<noteq> 0 then [32, 100, 105, 115, 97, 98, 108, 101, 100] else [])
     else [32, 102, 108, 97, 103, 115, 32] @ number_text (ucast flags) flag_spec)"

definition rsrc_body :: "u8 \<Rightarrow> resource \<Rightarrow> u8 list" where
  "rsrc_body f res =
    (let (kind, specp, known) = rsrc_kind (res_flags res)
     in 91 # kind @ number_text (ucast (res_start res)) specp
       @ (if res_start res \<noteq> res_end res then 45 # number_text (ucast (res_end res)) specp else [])
       @ rsrc_opts (f = 82 \<and> known) (res_flags res))"

definition rsrc_text :: "u8 \<Rightarrow> resource \<Rightarrow> u8 list" where
  "rsrc_text f res = rsrc_body f res @ [93]"

lemmas rsrc_specs = io_spec_def mem_spec_def bus_spec_def dec_spec_def flag_spec_def

lemma length_number_text_u32:
  assumes "sp_base spec = 10 \<or> sp_base spec = 16" "sp_flags spec AND SIGN = 0" "precision spec = -1" "sint (field_width spec) \<le> 10"
  shows "length (number_text (ucast (w :: u32)) spec) \<le> 10"
proof -
  have w: "unat (ucast w :: u64) = unat w" by (simp add: unsigned_ucast_eq take_bit_nat_eq_self_iff less_le_trans [OF unsigned_less])
  have m: "magnitude (ucast w) spec = unat w" using assms(2) w by (simp add: magnitude_def)
  have "unat w < 2 ^ 32" using unsigned_less [of w] by simp
  then have "unat w < 16 ^ Suc 7" "unat w < 10 ^ Suc 9" by simp_all
  then have "length (digits 16 (unat w)) \<le> 8" "length (digits 10 (unat w)) \<le> 10"
    using length_digits [of 16 "unat w" 7] length_digits [of 10 "unat w" 9] by simp_all
  moreover have "length (prefix_text spec) \<le> 2" "sp_base spec = 10 \<Longrightarrow> prefix_text spec = []"
    by (rule prefix_text_eq(3)) (simp add: prefix_text_def)
  ultimately have "length (sign_text (ucast w) spec @ prefix_text spec @ digit_text (ucast w) spec) \<le> 10"
    using assms(1-3) by (auto simp: sign_text_def digit_text_def m)
  then show ?thesis using length_number_text [of "ucast w" spec] assms(4) by linarith
qed

lemma rsrc_kind_cases:
  obtains k sp b where "rsrc_kind flags = (k, sp, b)" "length k = 4" "0 \<notin> set k" "sp \<in> {io_spec, mem_spec, dec_spec, bus_spec}"
  by (rule that [of "fst (rsrc_kind flags)" "fst (snd (rsrc_kind flags))" "snd (snd (rsrc_kind flags))"]) (auto simp: rsrc_kind_def)

lemma spec_cases:
  assumes "sp \<in> {io_spec, mem_spec, dec_spec, bus_spec, flag_spec}"
  shows "number e num sp ob = emits e (number_text num sp) ob" "length (number_text (ucast (w :: u32)) sp) \<le> 10"
proof -
  show "number e num sp ob = emits e (number_text num sp) ob" by (rule number_eq) (use assms in \<open>auto simp: rsrc_specs\<close>)
  show "length (number_text (ucast w) sp) \<le> 10"
    by (rule length_number_text_u32) (use assms in \<open>auto simp: rsrc_specs flag_defs\<close>)
qed

lemma length_rsrc_text: "length (rsrc_text f res) \<le> 54"
proof -
  obtain k sp b where k: "rsrc_kind (res_flags res) = (k, sp, b)" "length k = 4" "sp \<in> {io_spec, mem_spec, dec_spec, bus_spec}"
    by (rule rsrc_kind_cases)
  then have "length (number_text (ucast (w :: u32)) sp) \<le> 10" "length (number_text (ucast (w :: u32)) flag_spec) \<le> 10" for w
    by (auto intro: spec_cases(2))
  from this(1) [of "res_start res"] this(1) [of "res_end res"] this(2) [of "res_flags res"] show ?thesis
    using k by (simp add: rsrc_text_def rsrc_body_def rsrc_opts_def)
qed

text \<open>Output into a fresh local array of \<open>n\<close> bytes.\<close>

abbreviation sym_out :: "nat \<Rightarrow> u8 list \<Rightarrow> out" where
  "sym_out n t \<equiv> emits n t (0, replicate n 0)"

lemma sym_out_eq: "length t \<le> n \<Longrightarrow> sym_out n t = (length t, t @ replicate (n - length t) 0)"
  using emits_buffer [of n "replicate n 0" 0 t] by (simp add: min_def)

lemma put_char_sym: "length t < n \<Longrightarrow> put_char c (sym_out n t) = Some (sym_out n (t @ [c]))"
  using sym_out_eq [of t n] sym_out_eq [of "t @ [c]" n]
  by (simp add: put_char_def store_def list_update_append) (cases "n - length t"; simp)

lemma lit_sym:
  assumes "length k \<le> 10" "0 \<notin> set k"
  shows "vs_string e (lit k) str_spec ob = Some (emits e k ob)"
proof -
  have "str_of (k @ [0]) = k" using assms(2) by (induction k) (auto simp: str_of_def)
  moreover have "is_cstr (k @ [0])" by (simp add: is_cstr_def)
  ultimately have "strnlen (k @ [0]) 10 = Some (length k)" using assms(1) by (simp add: strnlen_cstr)
  then have "string_text (lit k) str_spec = Some k" by (simp add: string_text_def str_spec_def lit_def flag_defs)
  moreover have "writes (\<lambda>e. vs_string e (lit k) str_spec) (string_text (lit k) str_spec)"
    by (rule vs_string_writes) (simp add: str_spec_def)
  ultimately show ?thesis using writesD [of "\<lambda>e. vs_string e (lit k) str_spec" _ e ob] by simp
qed

lemma emits_sym: "emits n k (sym_out n t) = sym_out n (t @ k)"
  by (simp add: emits_app)

lemma rsrc_flags_sym:
  fixes flags :: u32
  shows "(if flags AND IORESOURCE_MEM_64 \<noteq> 0 then vs_string n (lit [32, 54, 52, 98, 105, 116]) str_spec (sym_out n t)
      else Some (sym_out n t)) =
    Some (sym_out n (t @ (if flags AND IORESOURCE_MEM_64 \<noteq> 0 then [32, 54, 52, 98, 105, 116] else [])))"
  "(if flags AND IORESOURCE_PREFETCH \<noteq> 0 then vs_string n (lit [32, 112, 114, 101, 102]) str_spec (sym_out n t)
      else Some (sym_out n t)) =
    Some (sym_out n (t @ (if flags AND IORESOURCE_PREFETCH \<noteq> 0 then [32, 112, 114, 101, 102] else [])))"
  "(if flags AND IORESOURCE_WINDOW \<noteq> 0 then vs_string n (lit [32, 119, 105, 110, 100, 111, 119]) str_spec (sym_out n t)
      else Some (sym_out n t)) =
    Some (sym_out n (t @ (if flags AND IORESOURCE_WINDOW \<noteq> 0 then [32, 119, 105, 110, 100, 111, 119] else [])))"
  "(if flags AND IORESOURCE_DISABLED \<noteq> 0 then vs_string n (lit [32, 100, 105, 115, 97, 98, 108, 101, 100]) str_spec (sym_out n t)
      else Some (sym_out n t)) =
    Some (sym_out n (t @ (if flags AND IORESOURCE_DISABLED \<noteq> 0 then [32, 100, 105, 115, 97, 98, 108, 101, 100] else [])))"
  by (simp_all add: lit_sym emits_app)

lemma rsrc_opts_sym:
  fixes flags :: u32
  shows "(if d then do {
       p \<leftarrow> (if flags AND IORESOURCE_MEM_64 \<noteq> 0 then vs_string n (lit [32, 54, 52, 98, 105, 116]) str_spec (sym_out n t) else Some (sym_out n t));
       p \<leftarrow> (if flags AND IORESOURCE_PREFETCH \<noteq> 0 then vs_string n (lit [32, 112, 114, 101, 102]) str_spec p else Some p);
       p \<leftarrow> (if flags AND IORESOURCE_WINDOW \<noteq> 0 then vs_string n (lit [32, 119, 105, 110, 100, 111, 119]) str_spec p else Some p);
       if flags AND IORESOURCE_DISABLED \<noteq> 0 then vs_string n (lit [32, 100, 105, 115, 97, 98, 108, 101, 100]) str_spec p else Some p }
     else do {
       p \<leftarrow> vs_string n (lit [32, 102, 108, 97, 103, 115, 32]) str_spec (sym_out n t);
       Some (number n (ucast flags) flag_spec p) }) = Some (sym_out n (t @ rsrc_opts d flags))"
proof (cases d)
  case True
  then show ?thesis by (simp only: rsrc_opts_def if_True append_assoc rsrc_flags_sym bind.bind_lunit)
next
  case False
  then show ?thesis by (simp add: lit_sym rsrc_opts_def spec_cases(1) emits_app)
qed

lemma resource_string_writes:
  assumes "-32768 < sint (field_width spec)"
  shows "writes (\<lambda>e. resource_string e res spec fmt)
    (do { f \<leftarrow> rd fmt 0; string_text (0xC0000000, Bytes (rsrc_text f res @ replicate (59 - length (rsrc_text f res)) 0)) spec })"
proof (rule writesI)
  fix e ob
  obtain k sp b where k: "rsrc_kind (res_flags res) = (k, sp, b)" "length k = 4" "0 \<notin> set k" "sp \<in> {io_spec, mem_spec, dec_spec, bus_spec}"
    by (rule rsrc_kind_cases)
  then have n: "number e num sp ob = emits e (number_text num sp) ob" "number e num flag_spec ob = emits e (number_text num flag_spec) ob"
    "length (number_text (ucast (w :: u32)) sp) \<le> 10" for e num ob w
    by (auto intro: spec_cases)
  have start: "put_char 91 (0, replicate 59 0) = Some (sym_out 59 [91])" using put_char_sym [of "[]" 59 91] by simp
  have sz: "rsrc_sym_size = 59" by (simp add: rsrc_sym_size_def)
  show "resource_string e res spec fmt ob = map_option (\<lambda>t. emits e t ob)
      (do { f \<leftarrow> rd fmt 0; string_text (0xC0000000, Bytes (rsrc_text f res @ replicate (59 - length (rsrc_text f res)) 0)) spec })"
  proof (cases "rd fmt 0")
    case (Some f)
    let ?T = "rsrc_body f res"
    have l: "length ?T < 54" using length_rsrc_text [of f res] by (simp add: rsrc_text_def)
    let ?t1 = "91 # k @ number_text (ucast (res_start res)) sp"
    let ?t2 = "?t1 @ (if res_start res \<noteq> res_end res then 45 # number_text (ucast (res_end res)) sp else [])"
    have t1: "length ?t1 < 59" using n(3) [of "res_start res"] k(2) by simp
    have kk: "vs_string 59 (lit k) str_spec (sym_out 59 [91]) = Some (sym_out 59 (91 # k))"
      using lit_sym [of k 59 "sym_out 59 [91]"] k(2,3) emits_sym [of 59 k "[91]"] by simp
    have r: "(if res_start res \<noteq> res_end res then Option.bind (put_char 45 (sym_out 59 ?t1))
        (\<lambda>p. Some (emits 59 (number_text (ucast (res_end res)) sp) p)) else Some (sym_out 59 ?t1)) = Some (sym_out 59 ?t2)"
      unfolding put_char_sym [OF t1] by (simp add: emits_app)
    have T: "?T = 91 # k @ number_text (ucast (res_start res)) sp
        @ (if res_start res \<noteq> res_end res then 45 # number_text (ucast (res_end res)) sp else []) @ rsrc_opts (f = 82 \<and> b) (res_flags res)"
      by (simp add: rsrc_body_def k(1))
    have p: "put_char 93 (sym_out 59 ?T) = Some (sym_out 59 (?T @ [93]))"
      "put_char 0 (sym_out 59 (?T @ [93])) = Some (sym_out 59 (?T @ [93, 0]))"
      using put_char_sym [of ?T 59 93] put_char_sym [of "?T @ [93]" 59 0] l by simp_all
    have "resource_string e res spec fmt ob = vs_string e (0xC0000000, Bytes (snd (sym_out 59 (?T @ [93, 0])))) spec ob"
      by (simp only: resource_string_def Some sz start k(1) Let_def bind.bind_lunit prod.case kk n(1) emits_sym append_Cons append_Nil
          append_assoc r rsrc_opts_sym p T [symmetric])
    moreover have "snd (sym_out 59 (?T @ [93, 0])) = rsrc_text f res @ replicate (59 - length (rsrc_text f res)) 0"
      using sym_out_eq [of "?T @ [93, 0]" 59] l by (simp add: rsrc_text_def Suc_diff_Suc flip: replicate_Suc)
    ultimately show ?thesis using Some writesD [OF vs_string_writes [OF assms]] by simp
  qed (simp add: resource_string_def)
qed

subsection \<open>Pointers\<close>

definition pointer_text :: "ksyms \<Rightarrow> u8 list \<Rightarrow> ptr \<Rightarrow> printf_spec \<Rightarrow> u8 list option" where
  "pointer_text ks fmt p spec =
    (if fst p = 0 then string_text (lit (butlast null_str)) spec
     else do {
       f \<leftarrow> rd fmt 0;
       let plain = Some (number_text (ucast (fst p)) (pointer_spec spec));
       let local = (\<lambda>build. do { a \<leftarrow> bytes_of (snd p); s \<leftarrow> build a fmt; string_text s spec });
       if f \<in> {70, 102, 83, 115} then
         string_text (0xC0000000, Bytes (if f \<noteq> 102 \<and> f \<noteq> 115 then sprint_symbol ks (fst p) else kallsyms_lookup ks (fst p))) spec
       else if f = 82 \<or> f = 114 then
         (case snd p of Res res \<Rightarrow> string_text (0xC0000000, Bytes (rsrc_text f res @ replicate (59 - length (rsrc_text f res)) 0)) spec
          | Bytes _ \<Rightarrow> None)
       else if f = 77 \<or> f = 109 then local mac_addr
       else if f = 73 \<or> f = 105 then do {
         f1 \<leftarrow> rd fmt 1;
         if f1 = 54 then local ip6_addr else if f1 = 52 then local ip4_addr else plain }
       else if f = 85 then local uuid
       else plain })"

lemma pointer_writes:
  assumes fw: "-1 \<le> sint (field_width spec)" and pr: "sint (precision spec) \<le> 32000"
  shows "writes (\<lambda>e. pointer ks fmt e p spec) (pointer_text ks fmt p spec)"
proof -
  have s: "writes (\<lambda>e. vs_string e p spec) (string_text p spec)" for p by (rule vs_string_writes) (use fw in simp)
  have l: "writes (\<lambda>e ob. Option.bind v (\<lambda>a. Option.bind (build a fmt) (\<lambda>s. vs_string e s spec ob)))
      (Option.bind v (\<lambda>a. Option.bind (build a fmt) (\<lambda>s. string_text s spec)))"
    for v :: "u8 list option" and build by (intro writes_bind s)
  have n: "writes (\<lambda>e ob. Some (number e num (pointer_spec spec) ob)) (Some (number_text num (pointer_spec spec)))" for num
    by (rule writesI) (subst number_eq, use fw pr in \<open>auto simp: pointer_spec_def Let_def\<close>)
  have r: "writes (\<lambda>e. resource_string e res spec fmt) (string_text
      (0xC0000000, Bytes (rsrc_text f res @ replicate (59 - length (rsrc_text f res)) 0)) spec)" if "rd fmt 0 = Some f" for res f
    using resource_string_writes [of spec res fmt] fw that by simp
  have z: "writes (\<lambda>e ob. None) None" by (rule writesI) simp
  show ?thesis
  proof (cases "rd fmt 0")
    case None
    then show ?thesis by (intro writesI) (simp add: pointer_def pointer_text_def writesD [OF s])
  next
    case (Some f)
    show ?thesis
      unfolding pointer_def pointer_text_def Some Let_def bind.bind_lunit symbol_string_def mac_address_string_def ip6_addr_string_def
        ip4_addr_string_def uuid_string_def
      by (intro writes_if writes_bind s l n; (cases "snd p")?; simp add: z r [OF Some])
  qed
qed

subsection \<open>The local arrays are large enough\<close>

lemma rd_lt [simp]: "i < length s \<Longrightarrow> rd s i = Some (s ! i)"
  by (simp add: rd_def)

lemma length_pack [simp]: "length (pack_hex_byte b) = 2"
  by (simp add: pack_hex_byte_def)

lemma mac_loop_eq:
  "\<forall>i\<in>set is. i < length addr \<Longrightarrow>
    mac_loop addr f sep is = Some (concat (map (\<lambda>i. pack_hex_byte (addr ! i) @ (if f = 77 \<and> i \<noteq> 5 then [sep] else [])) is))"
  by (induction "is") auto

lemma ip6_loop_eq:
  "\<forall>i\<in>set is. 2 * i + 1 < length addr \<Longrightarrow>
    ip6_loop addr f is = Some (concat (map (\<lambda>i. pack_hex_byte (addr ! (2 * i)) @ pack_hex_byte (addr ! (2 * i + 1))
      @ (if f = 73 \<and> i \<noteq> 7 then [58] else [])) is))"
  by (induction "is") auto

lemma uuid_loop_eq:
  "\<forall>i\<in>set is. index ! i < length addr \<Longrightarrow>
    uuid_loop addr index is = Some (concat (map (\<lambda>i. pack_hex_byte (addr ! (index ! i)) @ (if i \<in> {3, 5, 7, 9} then [45] else [])) is))"
  by (induction "is") auto

lemma put_dec_byte: "put_dec_trunc (ucast (b :: u8)) = map dec_char (digits 10 (unat b)) \<and> length (digits 10 (unat b)) \<le> 3"
proof -
  have b: "unat b < 256" using unsigned_less [of b] by simp
  then have "length (digits 10 (unat b)) \<le> 3" using length_digits [of 10 "unat b" 2] by simp
  moreover have "(ucast b :: u32) = of_nat (unat b)" by simp
  ultimately show ?thesis using put_dec_trunc_eq [of "unat b"] b by simp
qed

text \<open>A quad of an IPv4 address.\<close>

definition quad_text :: "bool \<Rightarrow> u8 \<Rightarrow> u8 list" where
  "quad_text leading_zeros b =
    (let ds = map dec_char (rev (digits 10 (unat b))) in (if leading_zeros then replicate (3 - length ds) 48 else []) @ ds)"

lemma length_quad_text: "length (quad_text z b) \<le> 3"
  using put_dec_byte [of b] by (simp add: quad_text_def Let_def)

lemma quad_eq:
  "(if z then (if length (digits 10 (unat b)) < 3 then [48] else []) @ (if length (digits 10 (unat b)) < 2 then [48] else []) else [])
    @ rev (map dec_char (digits 10 (unat b))) = quad_text z b"
proof -
  have "length (digits 10 (unat b)) \<noteq> 0" "length (digits 10 (unat b)) \<le> 3" using put_dec_byte [of b] by auto
  then consider "length (digits 10 (unat b)) = 1" | "length (digits 10 (unat b)) = 2" | "length (digits 10 (unat b)) = 3" by linarith
  then show ?thesis by cases (simp_all add: quad_text_def rev_map numeral_eq_Suc)
qed

lemma ip4_loop_step:
  assumes "nat index < length addr"
  shows "ip4_loop addr z index step (i # is) =
    map_option (\<lambda>t. quad_text z (addr ! nat index) @ (if i < 3 then [46] else []) @ t) (ip4_loop addr z (index + step) step is)"
  using assms put_dec_byte [of "addr ! nat index"] quad_eq [of z "addr ! nat index"]
  by (cases "ip4_loop addr z (index + step) step is") (simp_all flip: append_assoc)

lemma ip4_string_eq:
  assumes "4 \<le> length addr" "3 \<le> length fmt"
  defines "od \<equiv> (if fmt ! 2 = 104 \<or> fmt ! 2 = 108 then [3, 2, 1, 0] else [0, 1, 2, 3])"
  shows "ip4_string addr fmt = Some (quad_text (fmt ! 0 = 105) (addr ! (od ! 0)) @ 46 # quad_text (fmt ! 0 = 105) (addr ! (od ! 1))
    @ 46 # quad_text (fmt ! 0 = 105) (addr ! (od ! 2)) @ 46 # quad_text (fmt ! 0 = 105) (addr ! (od ! 3)))"
proof -
  have u: "[0..<4] = [0, 1, 2, 3 :: nat]" by (simp add: upt_rec)
  have l: "0 < length addr" "1 < length addr" "2 < length addr" "3 < length addr" using assms(1) by linarith+
  have f: "rd fmt 0 = Some (fmt ! 0)" "rd fmt 2 = Some (fmt ! 2)" using assms(2) by (auto intro!: rd_lt)
  have "ip4_loop addr z 0 1 [0, 1, 2, 3] = Some (quad_text z (addr ! 0) @ 46 # quad_text z (addr ! 1) @ 46 # quad_text z (addr ! 2)
      @ 46 # quad_text z (addr ! 3))"
    "ip4_loop addr z 3 (- 1) [0, 1, 2, 3] = Some (quad_text z (addr ! 3) @ 46 # quad_text z (addr ! 2) @ 46 # quad_text z (addr ! 1)
      @ 46 # quad_text z (addr ! 0))" for z
    using l by (simp_all add: ip4_loop_step del: ip4_loop.simps(2))
  then show ?thesis unfolding ip4_string_def u od_def f by simp
qed

lemma length_ip4_string:
  assumes "4 \<le> length addr" "3 \<le> length fmt"
  shows "\<exists>t. ip4_string addr fmt = Some t \<and> length t \<le> 15"
proof -
  have "length (quad_text z a) + length (quad_text z b) + length (quad_text z c) + length (quad_text z d) \<le> 12" for z a b c d
    using length_quad_text [of z a] length_quad_text [of z b] length_quad_text [of z c] length_quad_text [of z d] by linarith
  then show ?thesis unfolding ip4_string_eq [OF assms] by (simp add: add.assoc)
qed

lemma longest_run_pos: "1 \<le> fst (longest_run in6 rng)"
proof -
  have "1 \<le> fst (fold (\<lambda>i (longest, colonpos). let z = zero_run in6 [i..<rng] in if z > longest then (z, int i) else (longest, colonpos)) is (l, c))"
    if "1 \<le> l" for "is" l c using that by (induction "is" arbitrary: l c) (auto simp: Let_def)
  then show ?thesis by (simp add: longest_run_def)
qed

lemma length_ip6c:
  assumes "1 \<le> longest"
  shows "length (fst (ip6c_loop in6 rng longest colonpos nc i)) \<le> 5 * (rng - i) - (if nc \<or> rng \<le> i then 0 else 1)"
  using assms
proof (induction in6 rng longest colonpos nc i rule: ip6c_loop.induct)
  case (1 in6 rng longest colonpos nc i)
  show ?case
  proof (cases "rng \<le> i")
    case True
    then show ?thesis by (subst ip6c_loop.simps) simp
  next
    case False
    then have r: "rng - i = Suc (rng - Suc i)" by simp
    show ?thesis
    proof (cases "int i = colonpos")
      case True
      let ?t = "ip6c_loop in6 rng longest colonpos False (i + (longest - 1) + 1)"
      have "length (fst ?t) \<le> 5 * (rng - (i + (longest - 1) + 1)) - (if rng \<le> i + (longest - 1) + 1 then 0 else 1)"
        using "1.IH"(1) [OF False True] "1.prems" by simp
      moreover have "rng - (i + (longest - 1) + 1) \<le> rng - Suc i" by simp
      ultimately have "length (fst ?t) \<le> 5 * (rng - Suc i)" by linarith
      then show ?thesis using False True r by (subst ip6c_loop.simps) (auto simp: case_prod_beta)
    next
      case f: False
      let ?t = "ip6c_loop in6 rng longest colonpos True (i + 1)"
      have "length (fst ?t) \<le> 5 * (rng - Suc i)"
        using "1.IH"(2) [OF False f refl refl refl] "1.prems" by simp
      then show ?thesis using False f r by (subst ip6c_loop.simps) (simp add: case_prod_beta Let_def)
    qed
  qed
qed

lemma ip6_compressed_bound:
  assumes "16 \<le> length addr"
  shows "\<exists>t. ip6_compressed_string addr = Some t \<and> length t \<le> 45"
proof -
  define in6 where "in6 = take 16 addr"
  have m: "memcpy_out addr 0 16 = Some in6" using assms by (simp add: in6_def)
  obtain v where v: "ip4_string (drop 12 in6) [73, 52, 0] = Some v" "length v \<le> 15"
    using length_ip4_string [of "drop 12 in6" "[73, 52, 0]"] assms by (auto simp: in6_def)
  have "length (fst (ip6c_loop in6 rng (fst (longest_run in6 rng)) c False 0)) \<le> 5 * rng - (if rng = 0 then 0 else 1)" for rng c
    using length_ip6c [OF longest_run_pos, of in6 rng in6 rng c False 0] by simp
  from this [of 6 "snd (longest_run in6 6)"] this [of 8 "snd (longest_run in6 8)"] show ?thesis
    using v by (auto simp: ip6_compressed_string_def m case_prod_beta Let_def)
qed

text \<open>The bytes that an extended format reads behind its pointer.\<close>

definition pointee_ok :: "u8 list \<Rightarrow> pointee \<Rightarrow> bool" where
  "pointee_ok fmt d =
    (let f = fmt ! 0 in
     if f \<in> {82, 114} then (case d of Res _ \<Rightarrow> True | Bytes _ \<Rightarrow> False)
     else case d of Res _ \<Rightarrow> \<not> f \<in> {77, 109, 73, 105, 85}
       | Bytes a \<Rightarrow> (f \<in> {77, 109} \<longrightarrow> 6 \<le> length a) \<and> (f \<in> {73, 105} \<longrightarrow> (if fmt ! 1 = 52 then 4 else 16) \<le> length a)
           \<and> (f = 85 \<longrightarrow> 16 \<le> length a))"

lemma local_arrays:
  shows "2 \<le> length fmt \<Longrightarrow> 6 \<le> length a \<Longrightarrow> \<exists>t. mac_addr a fmt = Some (0xC0000000, Bytes (t @ [0]))"
    and "3 \<le> length fmt \<Longrightarrow> 4 \<le> length a \<Longrightarrow> \<exists>t. ip4_addr a fmt = Some (0xC0000000, Bytes (t @ [0]))"
    and "3 \<le> length fmt \<Longrightarrow> 16 \<le> length a \<Longrightarrow> \<exists>t. ip6_addr a fmt = Some (0xC0000000, Bytes (t @ [0]))"
    and "2 \<le> length fmt \<Longrightarrow> 16 \<le> length a \<Longrightarrow> \<exists>t. uuid a fmt = Some (0xC0000000, Bytes (t @ [0]))"
proof -
  have r: "2 \<le> length fmt \<Longrightarrow> rd fmt 0 = Some (fmt ! 0)" "2 \<le> length fmt \<Longrightarrow> rd fmt 1 = Some (fmt ! 1)"
    and r3: "3 \<le> length fmt \<Longrightarrow> rd fmt 0 = Some (fmt ! 0)" "3 \<le> length fmt \<Longrightarrow> rd fmt 2 = Some (fmt ! 2)" by (auto intro!: rd_lt)
  have u: "[0..<6] = [0, 1, 2, 3, 4, 5 :: nat]" "[0..<8] = [0, 1, 2, 3, 4, 5, 6, 7 :: nat]" "[0..<16] = uuid_be"
    by (simp_all add: upt_rec uuid_be_def)
  show "\<exists>t. mac_addr a fmt = Some (0xC0000000, Bytes (t @ [0]))" if f: "2 \<le> length fmt" and "6 \<le> length a"
  proof -
    have "a \<noteq> []" using that by auto
    then have "mac_loop a f sep [0..<6] = Some (concat (map (\<lambda>i. pack_hex_byte (a ! i) @ (if f = 77 \<and> i \<noteq> 5 then [sep] else [])) [0..<6]))"
      for f sep using that by (intro mac_loop_eq) auto
    moreover have "length (concat (map (\<lambda>i. pack_hex_byte (a ! i) @ (if f = 77 \<and> i \<noteq> 5 then [sep] else [])) [0..<6])) < 18" for f sep :: u8
      by (simp add: u)
    ultimately show ?thesis unfolding mac_addr_def r [OF f] bind.bind_lunit Let_def local_str_def by simp
  qed
  show "\<exists>t. ip4_addr a fmt = Some (0xC0000000, Bytes (t @ [0]))" if "3 \<le> length fmt" "4 \<le> length a"
    using length_ip4_string [OF that(2,1)] by (auto simp: ip4_addr_def local_str_def)
  show "\<exists>t. ip6_addr a fmt = Some (0xC0000000, Bytes (t @ [0]))" if f: "3 \<le> length fmt" and a: "16 \<le> length a"
  proof -
    have "ip6_loop a f [0..<8] = Some (concat (map (\<lambda>i. pack_hex_byte (a ! (2 * i)) @ pack_hex_byte (a ! (2 * i + 1))
        @ (if f = 73 \<and> i \<noteq> 7 then [58] else [])) [0..<8]))" for f using that by (intro ip6_loop_eq) auto
    moreover have "length (concat (map (\<lambda>i. pack_hex_byte (a ! (2 * i)) @ pack_hex_byte (a ! (2 * i + 1))
        @ (if f = 73 \<and> i \<noteq> 7 then [58] else [])) [0..<8])) < 46" for f :: u8 by (simp add: u)
    ultimately have "\<exists>t. ip6_string a fmt = Some t \<and> length t < 46" unfolding ip6_string_def r3 [OF f] bind.bind_lunit by simp
    then show ?thesis using ip6_compressed_bound [OF a] unfolding ip6_addr_def r3 [OF f] bind.bind_lunit
      by (cases "fmt ! 0 = 73"; cases "fmt ! 2 = 99") (auto simp: local_str_def)
  qed
  show "\<exists>t. uuid a fmt = Some (0xC0000000, Bytes (t @ [0]))" if f: "2 \<le> length fmt" and a: "16 \<le> length a"
  proof -
    have "a \<noteq> []" using that by auto
    then have "uuid_loop a index [0..<16] = Some (concat (map (\<lambda>i. pack_hex_byte (a ! (index ! i)) @ (if i \<in> {3, 5, 7, 9} then [45] else [])) [0..<16]))"
      if "index = uuid_le \<or> index = uuid_be" for index
      using that \<open>16 \<le> length a\<close> by (intro uuid_loop_eq) (auto simp: u uuid_be_def uuid_le_def)
    moreover have "length (concat (map (\<lambda>i. pack_hex_byte (a ! (index ! i)) @ (if i \<in> {3, 5, 7, 9} then [45] else [])) [0..<16])) < 37" for index
      by (simp add: u uuid_be_def)
    ultimately show ?thesis unfolding uuid_def r [OF f] bind.bind_lunit Let_def local_str_def by simp
  qed
qed


lemma string_text_total:
  assumes "is_cstr s" "4096 \<le> a"
  shows "string_text (a, Bytes s) spec \<noteq> None"
  using assms strnlen_cstr [of s "unat (scast (precision spec) :: u32)"] by (simp add: string_text_def word_less_nat_alt word_le_nat_alt Let_def)

lemma cstr_len2: "is_cstr fmt \<Longrightarrow> fmt ! 0 \<noteq> 0 \<Longrightarrow> 2 \<le> length fmt"
  by (cases fmt; cases "tl fmt") (auto simp: is_cstr_def)

lemma cstr_len3: "is_cstr fmt \<Longrightarrow> fmt ! 0 \<noteq> 0 \<Longrightarrow> fmt ! 1 \<noteq> 0 \<Longrightarrow> 3 \<le> length fmt"
  by (cases fmt; cases "tl fmt"; cases "tl (tl fmt)") (auto simp: is_cstr_def)

lemma pointer_text_total:
  assumes fmt: "is_cstr fmt" and d: "pointee_ok fmt (snd p)" and ks: "\<forall>v. is_cstr (sprint_symbol ks v) \<and> is_cstr (kallsyms_lookup ks v)"
  shows "\<exists>t. pointer_text ks fmt p spec = Some t"
proof -
  have tot: "string_text (0xC0000000, Bytes (t @ [0])) spec \<noteq> None" for t by (rule string_text_total) (simp_all add: is_cstr_def)
  have loc: "\<exists>y. Option.bind v (\<lambda>s. string_text s spec) = Some y" if "\<exists>t. v = Some (0xC0000000, Bytes (t @ [0]))" for v
    using that tot by fastforce
  have rs: "string_text (0xC0000000, Bytes (rsrc_text f res @ replicate (59 - length (rsrc_text f res)) 0)) spec \<noteq> None" for f res
    by (rule string_text_total) (use length_rsrc_text [of f res] in \<open>simp_all add: is_cstr_def\<close>)
  have f: "rd fmt 0 = Some (fmt ! 0)" using fmt by (intro rd_lt) (cases fmt, auto simp: is_cstr_def)
  have f1: "fmt ! 0 \<noteq> 0 \<Longrightarrow> rd fmt 1 = Some (fmt ! 1)" using cstr_len2 [OF fmt] by (intro rd_lt) auto
  have sy: "string_text (0xC0000000, Bytes (sprint_symbol ks v)) spec \<noteq> None" "string_text (0xC0000000, Bytes (kallsyms_lookup ks v)) spec \<noteq> None"
    for v by (rule string_text_total; use ks in simp)+
  have null: "string_text (lit (butlast null_str)) spec \<noteq> None" using tot by (simp add: lit_def)
  have "pointer_text ks fmt p spec \<noteq> None"
    unfolding pointer_text_def f bind.bind_lunit Let_def using null sy rs d f1 cstr_len2 [OF fmt] cstr_len3 [OF fmt]
    by (cases "snd p") (auto simp: pointee_ok_def split: if_splits intro!: loc local_arrays)
  then show ?thesis by blast
qed

section \<open>Properties\<close>



end
