(* ===== verification/Vsnprintf.thy ===== *)
theory Vsnprintf
  imports Vsprintf_Pointer
begin

unbundle bit_operations_syntax

text \<open>Formatted output of \<^verbatim>\<open>lib/vsprintf.c\<close>: \<^verbatim>\<open>format_decode\<close>, \<^verbatim>\<open>vsnprintf\<close> and the functions around it. A format is the
  list of its bytes with the terminator; the variable arguments are a list of typed values, and reading one
  of another type, or none, is \<open>None\<close>.\<close>

section \<open>Decoding a format\<close>

datatype format_type =
    FORMAT_TYPE_NONE | FORMAT_TYPE_WIDTH | FORMAT_TYPE_PRECISION | FORMAT_TYPE_CHAR | FORMAT_TYPE_STR
  | FORMAT_TYPE_PTR | FORMAT_TYPE_PERCENT_CHAR | FORMAT_TYPE_INVALID | FORMAT_TYPE_LONG_LONG | FORMAT_TYPE_ULONG
  | FORMAT_TYPE_LONG | FORMAT_TYPE_UBYTE | FORMAT_TYPE_BYTE | FORMAT_TYPE_USHORT | FORMAT_TYPE_SHORT
  | FORMAT_TYPE_UINT | FORMAT_TYPE_INT | FORMAT_TYPE_NRCHARS | FORMAT_TYPE_SIZE_T | FORMAT_TYPE_PTRDIFF

record fmt_spec = printf_spec +
  sp_type :: format_type
  qualifier :: u8

text \<open>The loop over the flags \<^verbatim>\<open>-\<close>, \<^verbatim>\<open>+\<close>, space, \<^verbatim>\<open>#\<close> and \<^verbatim>\<open>0\<close>, from the character behind the \<^verbatim>\<open>%\<close>.\<close>

fun flag_loop :: "u8 \<Rightarrow> u8 list \<Rightarrow> (u8 \<times> u8 list) option" where
  "flag_loop flags [] = None"
| "flag_loop flags (c # s) =
    (if c = 45 then flag_loop (flags OR LEFT) s
     else if c = 43 then flag_loop (flags OR PLUS) s
     else if c = 32 then flag_loop (flags OR SPACE) s
     else if c = 35 then flag_loop (flags OR SPECIAL) s
     else if c = 48 then flag_loop (flags OR ZEROPAD) s
     else Some (flags, c # s))"

definition int_type :: "u8 \<Rightarrow> u8 \<Rightarrow> format_type" where
  "int_type q flags =
    (if q = 76 then FORMAT_TYPE_LONG_LONG
     else if q = 108 then if flags AND SIGN \<noteq> 0 then FORMAT_TYPE_LONG else FORMAT_TYPE_ULONG
     else if TOLOWER q = 122 then FORMAT_TYPE_SIZE_T
     else if q = 116 then FORMAT_TYPE_PTRDIFF
     else if q = 72 then if flags AND SIGN \<noteq> 0 then FORMAT_TYPE_BYTE else FORMAT_TYPE_UBYTE
     else if q = 104 then if flags AND SIGN \<noteq> 0 then FORMAT_TYPE_SHORT else FORMAT_TYPE_USHORT
     else if flags AND SIGN \<noteq> 0 then FORMAT_TYPE_INT else FORMAT_TYPE_UINT)"

text \<open>The conversion character. The results of this and the following definitions are the rest of the format
  and the specification.\<close>

definition decode_conversion :: "u8 list \<Rightarrow> fmt_spec \<Rightarrow> (u8 list \<times> fmt_spec) option" where
  "decode_conversion fmt spec = do {
     let spec = spec\<lparr>sp_base := 10\<rparr>;
     c \<leftarrow> rd fmt 0;
     let number = (\<lambda>base flags. Some (tl fmt, spec\<lparr>sp_base := base, sp_flags := flags, sp_type := int_type (qualifier spec) flags\<rparr>));
     let f = sp_flags spec;
     if c = 99 then Some (tl fmt, spec\<lparr>sp_type := FORMAT_TYPE_CHAR\<rparr>)
     else if c = 115 then Some (tl fmt, spec\<lparr>sp_type := FORMAT_TYPE_STR\<rparr>)
     else if c = 112 then Some (fmt, spec\<lparr>sp_type := FORMAT_TYPE_PTR\<rparr>)
     else if c = 110 then Some (tl fmt, spec\<lparr>sp_type := FORMAT_TYPE_NRCHARS\<rparr>)
     else if c = 37 then Some (tl fmt, spec\<lparr>sp_type := FORMAT_TYPE_PERCENT_CHAR\<rparr>)
     else if c = 111 then number 8 f
     else if c = 120 then number 16 (f OR SMALL)
     else if c = 88 then number 16 f
     else if c = 100 \<or> c = 105 then number 10 (f OR SIGN)
     else if c = 117 then number 10 f
     else Some (fmt, spec\<lparr>sp_type := FORMAT_TYPE_INVALID\<rparr>) }"

definition decode_qualifier :: "u8 list \<Rightarrow> fmt_spec \<Rightarrow> (u8 list \<times> fmt_spec) option" where
  "decode_qualifier fmt spec = do {
     let spec = spec\<lparr>qualifier := -1\<rparr>;
     c \<leftarrow> rd fmt 0;
     if c = 104 \<or> TOLOWER c = 108 \<or> TOLOWER c = 122 \<or> c = 116 then do {
       d \<leftarrow> rd fmt 1;
       if c = d \<and> c = 108 then decode_conversion (drop 2 fmt) (spec\<lparr>qualifier := 76\<rparr>)
       else if c = d \<and> c = 104 then decode_conversion (drop 2 fmt) (spec\<lparr>qualifier := 72\<rparr>)
       else decode_conversion (tl fmt) (spec\<lparr>qualifier := c\<rparr>) }
     else decode_conversion fmt spec }"

definition decode_precision :: "u8 list \<Rightarrow> fmt_spec \<Rightarrow> (u8 list \<times> fmt_spec) option" where
  "decode_precision fmt spec = do {
     let spec = spec\<lparr>precision := -1\<rparr>;
     c \<leftarrow> rd fmt 0;
     if c = 46 then do {
       d \<leftarrow> rd fmt 1;
       if isdigit d then do {
         (n, r) \<leftarrow> skip_atoi (tl fmt);
         let p = (ucast n :: 16 word);
         decode_qualifier r (spec\<lparr>precision := (if sint p < 0 then 0 else p)\<rparr>) }
       else if d = 42 then Some (drop 2 fmt, spec\<lparr>sp_type := FORMAT_TYPE_PRECISION\<rparr>)
       else decode_qualifier (tl fmt) spec }
     else decode_qualifier fmt spec }"

definition decode_width :: "u8 list \<Rightarrow> fmt_spec \<Rightarrow> (u8 list \<times> fmt_spec) option" where
  "decode_width fmt spec = do {
     let spec = spec\<lparr>field_width := -1\<rparr>;
     c \<leftarrow> rd fmt 0;
     if isdigit c then do {
       (n, r) \<leftarrow> skip_atoi fmt;
       decode_precision r (spec\<lparr>field_width := ucast n\<rparr>) }
     else if c = 42 then Some (tl fmt, spec\<lparr>sp_type := FORMAT_TYPE_WIDTH\<rparr>)
     else decode_precision fmt spec }"

definition format_decode :: "u8 list \<Rightarrow> fmt_spec \<Rightarrow> (u8 list \<times> fmt_spec) option" where
  "format_decode fmt spec =
    (if sp_type spec = FORMAT_TYPE_WIDTH then
       decode_precision fmt
         ((if sint (field_width spec) < 0
           then spec\<lparr>field_width := - field_width spec, sp_flags := sp_flags spec OR LEFT\<rparr> else spec)\<lparr>sp_type := FORMAT_TYPE_NONE\<rparr>)
     else if sp_type spec = FORMAT_TYPE_PRECISION then
       decode_qualifier fmt ((if sint (precision spec) < 0 then spec\<lparr>precision := 0\<rparr> else spec)\<lparr>sp_type := FORMAT_TYPE_NONE\<rparr>)
     else do {
       let spec = spec\<lparr>sp_type := FORMAT_TYPE_NONE\<rparr>;
       let r = dropWhile (\<lambda>c. c \<noteq> 0 \<and> c \<noteq> 37) fmt;
       c \<leftarrow> rd r 0;
       if length r \<noteq> length fmt \<or> c = 0 then Some (r, spec)
       else do {
         (flags, r) \<leftarrow> flag_loop 0 (tl r);
         decode_width r (spec\<lparr>sp_flags := flags\<rparr>) } })"

section \<open>Arguments\<close>

datatype va = VInt u32 | VLongLong u64 | VPtr ptr

fun va_int :: "va list \<Rightarrow> (u32 \<times> va list) option" where
  "va_int (VInt x # a) = Some (x, a)"
| "va_int _ = None"

fun va_long_long :: "va list \<Rightarrow> (u64 \<times> va list) option" where
  "va_long_long (VLongLong x # a) = Some (x, a)"
| "va_long_long _ = None"

fun va_ptr :: "va list \<Rightarrow> (ptr \<times> va list) option" where
  "va_ptr (VPtr p # a) = Some (p, a)"
| "va_ptr _ = None"

text \<open>The number that an integer conversion reads, \<^verbatim>\<open>long\<close>, \<^verbatim>\<open>size_t\<close> and \<^verbatim>\<open>ptrdiff_t\<close> being 32 bits wide.\<close>

definition va_number :: "format_type \<Rightarrow> va list \<Rightarrow> (u64 \<times> va list) option" where
  "va_number ty args =
    (if ty = FORMAT_TYPE_LONG_LONG then va_long_long args
     else do {
       (x, args) \<leftarrow> va_int args;
       Some (case ty of
           FORMAT_TYPE_ULONG \<Rightarrow> ucast x
         | FORMAT_TYPE_LONG \<Rightarrow> scast x
         | FORMAT_TYPE_SIZE_T \<Rightarrow> ucast x
         | FORMAT_TYPE_PTRDIFF \<Rightarrow> scast x
         | FORMAT_TYPE_UBYTE \<Rightarrow> ucast (ucast x :: u8)
         | FORMAT_TYPE_BYTE \<Rightarrow> scast (ucast x :: u8)
         | FORMAT_TYPE_USHORT \<Rightarrow> ucast (ucast x :: 16 word)
         | FORMAT_TYPE_SHORT \<Rightarrow> scast (ucast x :: 16 word)
         | FORMAT_TYPE_INT \<Rightarrow> scast x
         | _ \<Rightarrow> ucast x, args) })"

section \<open>The output loop\<close>

text \<open>The loop \<^verbatim>\<open>while (--spec.field_width > 0)\<close>.\<close>

function char_pad :: "nat \<Rightarrow> 16 word \<Rightarrow> out \<Rightarrow> 16 word \<times> out" where
  "char_pad e fw ob = (let fw = fw - 1 in if 0 < sint fw then char_pad e fw (emit e 32 ob) else (fw, ob))"
  by pat_completeness auto
termination by (relation "measure (\<lambda>(e, fw, ob). unat fw)") (auto intro!: dec16_less)

declare char_pad.simps [simp del]

text \<open>Text between conversions is copied as far as it fits.\<close>

definition copy_text :: "nat \<Rightarrow> u8 list \<Rightarrow> out \<Rightarrow> out option" where
  "copy_text e t ob = do {
     m \<leftarrow> (if fst ob < e then memcpy_in (snd ob) (fst ob) (take (min (length t) (e - fst ob)) t) else Some (snd ob));
     Some (fst ob + length t, m) }"

text \<open>The state of the loop besides the constant end of the buffer; \<^verbatim>\<open>%n\<close> stores the position through its argument, and
  these stores are recorded.\<close>

record vs_state =
  vs_fmt :: "u8 list"
  vs_spec :: fmt_spec
  vs_args :: "va list"
  vs_out :: out
  vs_stores :: "(u32 \<times> u32) list"

text \<open>The switch of \<^verbatim>\<open>vsnprintf\<close> after \<^verbatim>\<open>format_decode\<close> has advanced the format; \<open>old\<close> is the format before it.\<close>

definition vs_directive :: "ksyms \<Rightarrow> nat \<Rightarrow> u8 list \<Rightarrow> vs_state \<Rightarrow> vs_state option" where
  "vs_directive ks e old st =
    (let spec = vs_spec st; ob = vs_out st; read = length old - length (vs_fmt st) in
     case sp_type spec of
       FORMAT_TYPE_NONE \<Rightarrow> do { ob \<leftarrow> copy_text e (take read old) ob; Some (st\<lparr>vs_out := ob\<rparr>) }
     | FORMAT_TYPE_WIDTH \<Rightarrow> do { (x, args) \<leftarrow> va_int (vs_args st);
         Some (st\<lparr>vs_args := args, vs_spec := spec\<lparr>field_width := ucast x\<rparr>\<rparr>) }
     | FORMAT_TYPE_PRECISION \<Rightarrow> do { (x, args) \<leftarrow> va_int (vs_args st);
         Some (st\<lparr>vs_args := args, vs_spec := spec\<lparr>precision := ucast x\<rparr>\<rparr>) }
     | FORMAT_TYPE_CHAR \<Rightarrow> do {
         let (fw, ob) = (if sp_flags spec AND LEFT = 0 then char_pad e (field_width spec) ob else (field_width spec, ob));
         (x, args) \<leftarrow> va_int (vs_args st);
         let ob = emit e (ucast x) ob;
         let (fw, ob) = char_pad e fw ob;
         Some (st\<lparr>vs_args := args, vs_spec := spec\<lparr>field_width := fw\<rparr>, vs_out := ob\<rparr>) }
     | FORMAT_TYPE_STR \<Rightarrow> do { (p, args) \<leftarrow> va_ptr (vs_args st);
         ob \<leftarrow> vs_string e p (printf_spec.truncate spec) ob;
         Some (st\<lparr>vs_args := args, vs_out := ob\<rparr>) }
     | FORMAT_TYPE_PTR \<Rightarrow> do { (p, args) \<leftarrow> va_ptr (vs_args st);
         ob \<leftarrow> pointer ks (tl (vs_fmt st)) e p (printf_spec.truncate spec) ob;
         Some (st\<lparr>vs_args := args, vs_out := ob, vs_fmt := dropWhile isalnum (vs_fmt st)\<rparr>) }
     | FORMAT_TYPE_PERCENT_CHAR \<Rightarrow> Some (st\<lparr>vs_out := emit e 37 ob\<rparr>)
     | FORMAT_TYPE_INVALID \<Rightarrow> Some (st\<lparr>vs_out := emit e 37 ob\<rparr>)
     | FORMAT_TYPE_NRCHARS \<Rightarrow> do { (p, args) \<leftarrow> va_ptr (vs_args st);
         Some (st\<lparr>vs_args := args, vs_stores := vs_stores st @ [(fst p, of_nat (fst ob))]\<rparr>) }
     | ty \<Rightarrow> do { (num, args) \<leftarrow> va_number ty (vs_args st);
         Some (st\<lparr>vs_args := args, vs_out := number e num (printf_spec.truncate spec) ob\<rparr>) })"

subsection \<open>The loop ends\<close>

text \<open>Each round consumes a character, or continues a conversion whose width or precision was an argument.\<close>

definition pending :: "fmt_spec \<Rightarrow> nat" where
  "pending spec = (if sp_type spec = FORMAT_TYPE_WIDTH \<or> sp_type spec = FORMAT_TYPE_PRECISION then 1 else 0)"

lemma rd_SomeD: "rd s i = Some c \<Longrightarrow> i < length s \<and> c = s ! i"
  by (simp add: rd_def split: if_splits)

lemma flag_loop_length: "flag_loop f s = Some (g, r) \<Longrightarrow> length r \<le> length s"
  by (induction f s rule: flag_loop.induct) (auto split: if_splits)

lemma skip_atoi_loop_length: "skip_atoi_loop i s = Some (n, r) \<Longrightarrow> length r \<le> length s"
  by (induction i s rule: skip_atoi_loop.induct) (auto split: if_splits)

lemma skip_atoi_length: "skip_atoi s = Some (n, r) \<Longrightarrow> length r \<le> length s"
  unfolding skip_atoi_def by (rule skip_atoi_loop_length)

lemma int_type_pending [simp]: "int_type q f \<noteq> FORMAT_TYPE_WIDTH" "int_type q f \<noteq> FORMAT_TYPE_PRECISION"
  "int_type q f \<noteq> FORMAT_TYPE_NONE"
  by (simp_all add: int_type_def)

lemma decode_conversion_progress:
  "decode_conversion fmt spec = Some (r, spec') \<Longrightarrow> length r \<le> length fmt \<and> pending spec' = 0"
  by (auto simp: decode_conversion_def pending_def Let_def bind_eq_Some_conv split: if_splits)

lemma decode_qualifier_progress:
  "decode_qualifier fmt spec = Some (r, spec') \<Longrightarrow> length r \<le> length fmt \<and> pending spec' = 0"
  by (fastforce simp: decode_qualifier_def Let_def bind_eq_Some_conv split: if_splits dest!: decode_conversion_progress)

lemma decode_precision_progress:
  assumes "decode_precision fmt spec = Some (r, spec')"
  shows "2 * length r + pending spec' \<le> 2 * length fmt"
proof -
  obtain c where c: "rd fmt 0 = Some c" using assms by (cases "rd fmt 0") (simp_all add: decode_precision_def)
  show ?thesis
  proof (cases "c = 46")
    case True
    then obtain d where d: "rd fmt 1 = Some d" using assms c by (cases "rd fmt 1") (simp_all add: decode_precision_def)
    then have l: "2 \<le> length fmt" using rd_SomeD [OF d] by simp
    show ?thesis
    proof (cases "isdigit d")
      case i: True
      obtain n q spec'' where "skip_atoi (tl fmt) = Some (n, q)" "decode_qualifier q spec'' = Some (r, spec')"
        using assms c d True i by (auto simp: decode_precision_def Let_def bind_eq_Some_conv)
      then show ?thesis using skip_atoi_length decode_qualifier_progress l by fastforce
    next
      case False
      show ?thesis
      proof (cases "d = 42")
        case True
        then show ?thesis using assms c d False \<open>c = 46\<close> l by (auto simp: decode_precision_def pending_def Let_def)
      next
        case d42: False
        then have "decode_qualifier (tl fmt) (spec\<lparr>precision := -1\<rparr>) = Some (r, spec')"
          using assms c d False \<open>c = 46\<close> by (simp add: decode_precision_def Let_def)
        then show ?thesis using decode_qualifier_progress by fastforce
      qed
    qed
  next
    case False
    then have "decode_qualifier fmt (spec\<lparr>precision := -1\<rparr>) = Some (r, spec')"
      using assms c by (simp add: decode_precision_def Let_def)
    then show ?thesis using decode_qualifier_progress by fastforce
  qed
qed

lemma decode_width_progress:
  assumes "decode_width fmt spec = Some (r, spec')"
  shows "2 * length r + pending spec' \<le> 2 * length fmt"
proof -
  obtain c where c: "rd fmt 0 = Some c" using assms by (cases "rd fmt 0") (simp_all add: decode_width_def)
  then have l: "fmt \<noteq> []" using rd_SomeD [OF c] by auto
  consider "isdigit c" | "\<not> isdigit c" "c = 42" | "\<not> isdigit c" "c \<noteq> 42" by blast
  then show ?thesis
  proof cases
    case 1
    then obtain n q spec'' where "skip_atoi fmt = Some (n, q)" "decode_precision q spec'' = Some (r, spec')"
      using assms c by (auto simp: decode_width_def Let_def bind_eq_Some_conv)
    then show ?thesis using skip_atoi_length [of fmt n q] decode_precision_progress [of q spec'' r spec'] by linarith
  next
    case 2
    then show ?thesis using assms c l by (cases fmt) (auto simp: decode_width_def pending_def Let_def)
  next
    case 3
    then show ?thesis using assms c decode_precision_progress by (simp add: decode_width_def Let_def)
  qed
qed

lemma format_decode_progress:
  assumes "format_decode fmt spec = Some (r, spec')" "rd fmt 0 = Some c" "c \<noteq> 0"
  shows "2 * length r + pending spec' < 2 * length fmt + pending spec"
proof -
  consider "sp_type spec = FORMAT_TYPE_WIDTH" | "sp_type spec = FORMAT_TYPE_PRECISION"
    | "sp_type spec \<noteq> FORMAT_TYPE_WIDTH" "sp_type spec \<noteq> FORMAT_TYPE_PRECISION" by blast
  then show ?thesis
  proof cases
    case 1
    then show ?thesis using assms(1) decode_precision_progress [of fmt _ r spec'] by (fastforce simp: format_decode_def pending_def [of spec])
  next
    case 2
    then show ?thesis using assms(1) decode_qualifier_progress [of fmt _ r spec'] by (fastforce simp: format_decode_def pending_def [of spec])
  next
    case 3
    obtain s where fmt: "fmt = c # s" using assms(2) by (cases fmt) (auto simp: rd_def)
    show ?thesis
    proof (cases "c = 37")
      case False
      define q where "q = dropWhile (\<lambda>c. c \<noteq> 0 \<and> c \<noteq> 37) s"
      have q: "dropWhile (\<lambda>c. c \<noteq> 0 \<and> c \<noteq> 37) fmt = q" "length q < length fmt"
        using fmt False assms(3) length_dropWhile_le [of _ s] by (simp_all add: q_def less_Suc_eq_le)
      then have "r = q \<and> sp_type spec' = FORMAT_TYPE_NONE"
        using assms(1) 3 by (auto simp: format_decode_def Let_def bind_eq_Some_conv split: if_splits)
      then show ?thesis using q(2) by (simp add: pending_def)
    next
      case True
      then obtain g q where g: "flag_loop 0 s = Some (g, q)" "decode_width q (spec\<lparr>sp_type := FORMAT_TYPE_NONE, sp_flags := g\<rparr>) = Some (r, spec')"
        using assms(1) 3 fmt by (auto simp: format_decode_def Let_def bind_eq_Some_conv rd_def)
      then show ?thesis using flag_loop_length [OF g(1)] decode_width_progress [OF g(2)] fmt by (simp add: pending_def)
    qed
  qed
qed

lemma vs_directive_fmt:
  "vs_directive ks e old st = Some st' \<Longrightarrow> length (vs_fmt st') \<le> length (vs_fmt st) \<and> pending (vs_spec st') = pending (vs_spec st)"
  by (auto simp: vs_directive_def pending_def Let_def bind_eq_Some_conv length_dropWhile_le case_prod_beta split: format_type.splits if_splits)

function vs_loop :: "ksyms \<Rightarrow> nat \<Rightarrow> vs_state \<Rightarrow> vs_state option" where
  "vs_loop ks e st =
    (case rd (vs_fmt st) 0 of None \<Rightarrow> None
     | Some c \<Rightarrow> if c = 0 then Some st
       else case format_decode (vs_fmt st) (vs_spec st) of None \<Rightarrow> None
       | Some (fmt, spec) \<Rightarrow>
           case vs_directive ks e (vs_fmt st) (st\<lparr>vs_fmt := fmt, vs_spec := spec\<rparr>) of None \<Rightarrow> None
           | Some st' \<Rightarrow> vs_loop ks e st')"
  by pat_completeness auto
termination
proof (relation "measure (\<lambda>(ks, e, st). 2 * length (vs_fmt st) + pending (vs_spec st))", goal_cases)
  case (2 ks e st c p fmt spec st')
  then show ?case using format_decode_progress [of "vs_fmt st" "vs_spec st" fmt spec c] vs_directive_fmt by fastforce
qed simp

declare vs_loop.simps [simp del]

section \<open>The functions\<close>

text \<open>\<^verbatim>\<open>buf\<close> is the address and \<open>m\<close> the memory there. Output is sequential and every character in front of the end is
  stored, so that a store outside \<open>m\<close> has happened when the output in front of the end is longer than \<open>m\<close>. The
  results are the return value, the memory and the stores of \<^verbatim>\<open>%n\<close>.\<close>

definition vs_start :: "u8 list \<Rightarrow> va list \<Rightarrow> u8 list \<Rightarrow> vs_state" where
  "vs_start fmt args m =
    \<lparr>vs_fmt = fmt,
     vs_spec = \<lparr>sp_flags = 0, sp_base = 0, field_width = 0, precision = 0, sp_type = FORMAT_TYPE_NONE, qualifier = 0\<rparr>,
     vs_args = args, vs_out = (0, m), vs_stores = []\<rparr>"

definition vsnprintf :: "ksyms \<Rightarrow> u32 \<Rightarrow> u8 list \<Rightarrow> u32 \<Rightarrow> u8 list \<Rightarrow> va list \<Rightarrow> (u32 \<times> u8 list \<times> (u32 \<times> u32) list) option" where
  "vsnprintf ks buf m sz fmt args =
    (if sint sz < 0 then Some (0, m, [])
     else do {
       let sz = (if buf + sz < buf then 0xFFFFFFFF - buf else sz);
       let e = unat sz;
       st \<leftarrow> vs_loop ks e (vs_start fmt args m);
       let (str, m) = vs_out st;
       if min e str \<le> length m then do {
         m \<leftarrow> (if 0 < e then store m (if str < e then str else e - 1) 0 else Some m);
         Some (of_nat str, m, vs_stores st) }
       else None })"

definition vscnprintf :: "ksyms \<Rightarrow> u32 \<Rightarrow> u8 list \<Rightarrow> u32 \<Rightarrow> u8 list \<Rightarrow> va list \<Rightarrow> (u32 \<times> u8 list \<times> (u32 \<times> u32) list) option" where
  "vscnprintf ks buf m sz fmt args = do {
     (i, m, w) \<leftarrow> vsnprintf ks buf m sz fmt args;
     Some (if i \<ge> sz then sz - 1 else i, m, w) }"

definition snprintf :: "ksyms \<Rightarrow> u32 \<Rightarrow> u8 list \<Rightarrow> u32 \<Rightarrow> u8 list \<Rightarrow> va list \<Rightarrow> (u32 \<times> u8 list \<times> (u32 \<times> u32) list) option" where
  "snprintf ks buf m sz fmt args = vsnprintf ks buf m sz fmt args"

definition scnprintf :: "ksyms \<Rightarrow> u32 \<Rightarrow> u8 list \<Rightarrow> u32 \<Rightarrow> u8 list \<Rightarrow> va list \<Rightarrow> (u32 \<times> u8 list \<times> (u32 \<times> u32) list) option" where
  "scnprintf ks buf m sz fmt args = do {
     (i, m, w) \<leftarrow> vsnprintf ks buf m sz fmt args;
     Some (if i \<ge> sz then sz - 1 else i, m, w) }"

definition vsprintf :: "ksyms \<Rightarrow> u32 \<Rightarrow> u8 list \<Rightarrow> u8 list \<Rightarrow> va list \<Rightarrow> (u32 \<times> u8 list \<times> (u32 \<times> u32) list) option" where
  "vsprintf ks buf m fmt args = vsnprintf ks buf m 0x7FFFFFFF fmt args"

definition sprintf :: "ksyms \<Rightarrow> u32 \<Rightarrow> u8 list \<Rightarrow> u8 list \<Rightarrow> va list \<Rightarrow> (u32 \<times> u8 list \<times> (u32 \<times> u32) list) option" where
  "sprintf ks buf m fmt args = vsnprintf ks buf m 0x7FFFFFFF fmt args"

section \<open>The text of a format\<close>

text \<open>The reference: what a format prints, without a buffer. It is undefined for widths and precisions that leave the
  16-bit fields too little room.\<close>

definition spec_ok :: "fmt_spec \<Rightarrow> bool" where
  "spec_ok spec \<longleftrightarrow> -1 \<le> sint (field_width spec) \<and> sint (precision spec) \<le> 32000"

definition char_text :: "u8 \<Rightarrow> fmt_spec \<Rightarrow> u8 list" where
  "char_text c spec =
    (let pad = replicate (nat (sint (field_width spec) - 1)) 32
     in if sp_flags spec AND LEFT = 0 then pad @ [c] else c # pad)"

record txt_state =
  tx_fmt :: "u8 list"
  tx_spec :: fmt_spec
  tx_args :: "va list"
  tx_text :: "u8 list"
  tx_stores :: "(u32 \<times> u32) list"

definition directive_text :: "ksyms \<Rightarrow> u8 list \<Rightarrow> txt_state \<Rightarrow> txt_state option" where
  "directive_text ks old st =
    (let spec = tx_spec st; t = tx_text st in
     case sp_type spec of
       FORMAT_TYPE_NONE \<Rightarrow> Some (st\<lparr>tx_text := t @ take (length old - length (tx_fmt st)) old\<rparr>)
     | FORMAT_TYPE_WIDTH \<Rightarrow> do { (x, args) \<leftarrow> va_int (tx_args st); Some (st\<lparr>tx_args := args, tx_spec := spec\<lparr>field_width := ucast x\<rparr>\<rparr>) }
     | FORMAT_TYPE_PRECISION \<Rightarrow> do { (x, args) \<leftarrow> va_int (tx_args st); Some (st\<lparr>tx_args := args, tx_spec := spec\<lparr>precision := ucast x\<rparr>\<rparr>) }
     | FORMAT_TYPE_PERCENT_CHAR \<Rightarrow> Some (st\<lparr>tx_text := t @ [37]\<rparr>)
     | FORMAT_TYPE_INVALID \<Rightarrow> Some (st\<lparr>tx_text := t @ [37]\<rparr>)
     | FORMAT_TYPE_NRCHARS \<Rightarrow> do { (p, args) \<leftarrow> va_ptr (tx_args st);
         Some (st\<lparr>tx_args := args, tx_stores := tx_stores st @ [(fst p, of_nat (length t))]\<rparr>) }
     | ty \<Rightarrow>
         if \<not> spec_ok spec then None
         else if ty = FORMAT_TYPE_CHAR then do { (x, args) \<leftarrow> va_int (tx_args st);
           Some (st\<lparr>tx_args := args, tx_text := t @ char_text (ucast x) spec\<rparr>) }
         else if ty = FORMAT_TYPE_STR then do { (p, args) \<leftarrow> va_ptr (tx_args st); s \<leftarrow> string_text p (printf_spec.truncate spec);
           Some (st\<lparr>tx_args := args, tx_text := t @ s\<rparr>) }
         else if ty = FORMAT_TYPE_PTR then do { (p, args) \<leftarrow> va_ptr (tx_args st);
           s \<leftarrow> pointer_text ks (tl (tx_fmt st)) p (printf_spec.truncate spec);
           Some (st\<lparr>tx_args := args, tx_text := t @ s, tx_fmt := dropWhile isalnum (tx_fmt st)\<rparr>) }
         else do { (num, args) \<leftarrow> va_number ty (tx_args st);
           Some (st\<lparr>tx_args := args, tx_text := t @ number_text num (printf_spec.truncate spec)\<rparr>) })"

lemma directive_text_fmt:
  "directive_text ks old st = Some st' \<Longrightarrow> length (tx_fmt st') \<le> length (tx_fmt st) \<and> pending (tx_spec st') = pending (tx_spec st)"
  by (auto simp: directive_text_def pending_def Let_def bind_eq_Some_conv length_dropWhile_le case_prod_beta split: format_type.splits if_splits)

function txt_loop :: "ksyms \<Rightarrow> txt_state \<Rightarrow> txt_state option" where
  "txt_loop ks st =
    (case rd (tx_fmt st) 0 of None \<Rightarrow> None
     | Some c \<Rightarrow> if c = 0 then Some st
       else case format_decode (tx_fmt st) (tx_spec st) of None \<Rightarrow> None
       | Some (fmt, spec) \<Rightarrow>
           case directive_text ks (tx_fmt st) (st\<lparr>tx_fmt := fmt, tx_spec := spec\<rparr>) of None \<Rightarrow> None
           | Some st' \<Rightarrow> txt_loop ks st')"
  by pat_completeness auto
termination
proof (relation "measure (\<lambda>(ks, st). 2 * length (tx_fmt st) + pending (tx_spec st))", goal_cases)
  case (2 ks st c p fmt spec st')
  then show ?case using format_decode_progress [of "tx_fmt st" "tx_spec st" fmt spec c] directive_text_fmt by fastforce
qed simp

declare txt_loop.simps [simp del]

definition txt_start :: "u8 list \<Rightarrow> va list \<Rightarrow> txt_state" where
  "txt_start fmt args =
    \<lparr>tx_fmt = fmt, tx_spec = vs_spec (vs_start fmt args []), tx_args = args, tx_text = [], tx_stores = []\<rparr>"

definition format_text :: "ksyms \<Rightarrow> u8 list \<Rightarrow> va list \<Rightarrow> (u8 list \<times> (u32 \<times> u32) list) option" where
  "format_text ks fmt args = map_option (\<lambda>st. (tx_text st, tx_stores st)) (txt_loop ks (txt_start fmt args))"

section \<open>The buffer holds the truncated text\<close>

lemma emits_full: "e \<le> fst ob \<Longrightarrow> emits e t ob = (fst ob + length t, snd ob)"
  by (induction t arbitrary: ob) (auto simp: emit_def)

lemma length_emits [simp]: "length (snd (emits e t ob)) = length (snd ob)"
  by (induction t arbitrary: ob) (auto simp: emit_def)

lemma fst_emits [simp]: "fst (emits e t ob) = fst ob + length t"
  by (induction t arbitrary: ob) (auto simp: emit_def)

lemma copy_text_eq:
  assumes "e \<le> length (snd ob)"
  shows "copy_text e t ob = Some (emits e t ob)"
proof (cases "fst ob < e")
  case True
  then have "emits e t ob = (fst ob + length t,
      take (fst ob) (snd ob) @ take (e - fst ob) t @ drop (fst ob + min (e - fst ob) (length t)) (snd ob))"
    using emits_buffer [OF assms, of "fst ob" t] by simp
  moreover have "take (min (length t) (e - fst ob)) t = take (e - fst ob) t" by (simp add: min_def)
  ultimately show ?thesis using True assms by (simp add: copy_text_def memcpy_in_def min.commute)
next
  case False
  then show ?thesis using emits_full [of e ob t] by (simp add: copy_text_def)
qed

lemma char_pad_eq:
  assumes "-32768 < sint fw"
  shows "char_pad e fw ob = (if 1 \<le> sint fw then 0 else fw - 1, emits e (replicate (nat (sint fw - 1)) 32) ob)"
  using assms
proof (induction e fw ob rule: char_pad.induct)
  case (1 e fw ob)
  note d = s16_dec [OF "1.prems"]
  show ?case
  proof (cases "0 < sint (fw - 1)")
    case True
    then have p: "1 \<le> sint fw" "1 \<le> sint (fw - 1)" "nat (sint fw - 1) = Suc (nat (sint (fw - 1) - 1))" using d by auto
    then show ?thesis using "1.IH" [OF refl True] True by (subst char_pad.simps) (simp add: Let_def)
  next
    case False
    have "fw - 1 = 0" if "1 \<le> sint fw"
      using that False d by (intro signed_word_eqI [of _ 0]) simp
    then show ?thesis using False d by (subst char_pad.simps) (simp add: Let_def)
  qed
qed

lemma char_pad_none: "-32768 < sint fw \<Longrightarrow> sint fw \<le> 1 \<Longrightarrow> snd (char_pad e fw ob) = ob"
  using char_pad_eq [of fw e ob] by simp

definition sim :: "nat \<Rightarrow> u8 list \<Rightarrow> vs_state \<Rightarrow> txt_state \<Rightarrow> bool" where
  "sim e m vs tx \<longleftrightarrow> vs_fmt vs = tx_fmt tx \<and> vs_args vs = tx_args tx \<and> vs_stores vs = tx_stores tx
    \<and> vs_out vs = emits e (tx_text tx) (0, m)
    \<and> (\<exists>x. vs_spec vs = (tx_spec tx)\<lparr>field_width := x\<rparr> \<and> (0 < pending (tx_spec tx) \<longrightarrow> x = field_width (tx_spec tx)))"

text \<open>Where a decoded specification comes from.\<close>

lemma decode_qualifier_conv:
  "decode_qualifier fmt spec = Some (r, s) \<Longrightarrow> \<exists>f p. decode_conversion f p = Some (r, s)"
  by (auto simp: decode_qualifier_def Let_def bind_eq_Some_conv split: if_splits)

lemma decode_precision_conv:
  "decode_precision fmt spec = Some (r, s) \<Longrightarrow> sp_type s = FORMAT_TYPE_PRECISION \<or> (\<exists>f p. decode_conversion f p = Some (r, s))"
  by (auto simp: decode_precision_def Let_def bind_eq_Some_conv split: if_splits dest!: decode_qualifier_conv)

lemma decode_width_conv:
  "decode_width fmt spec = Some (r, s) \<Longrightarrow>
    sp_type s = FORMAT_TYPE_WIDTH \<or> sp_type s = FORMAT_TYPE_PRECISION \<or> (\<exists>f p. decode_conversion f p = Some (r, s))"
  by (auto simp: decode_width_def Let_def bind_eq_Some_conv split: if_splits dest!: decode_precision_conv)

lemma format_decode_conv:
  "format_decode fmt spec = Some (r, s) \<Longrightarrow>
    sp_type s \<in> {FORMAT_TYPE_NONE, FORMAT_TYPE_WIDTH, FORMAT_TYPE_PRECISION} \<or> (\<exists>f p. decode_conversion f p = Some (r, s))"
  by (auto simp: format_decode_def Let_def bind_eq_Some_conv split: if_splits
      dest!: decode_qualifier_conv decode_precision_conv decode_width_conv)

lemma decode_conversion_type: "decode_conversion fmt spec = Some (r, s) \<Longrightarrow> sp_type s \<noteq> FORMAT_TYPE_NONE"
  by (auto simp: decode_conversion_def Let_def bind_eq_Some_conv split: if_splits)

lemma decode_width_type: "decode_width fmt spec = Some (r, s) \<Longrightarrow> sp_type s \<noteq> FORMAT_TYPE_NONE"
  using decode_width_conv decode_conversion_type by fastforce

text \<open>Between conversions the width is stale.\<close>

lemma format_decode_width:
  assumes "pending spec = 0"
  shows "format_decode fmt (spec\<lparr>field_width := x\<rparr>) =
    map_option (\<lambda>(r, s). (r, if sp_type s = FORMAT_TYPE_NONE then s\<lparr>field_width := x\<rparr> else s)) (format_decode fmt spec)"
proof -
  have w: "decode_width q (spec\<lparr>field_width := x, sp_type := FORMAT_TYPE_NONE, sp_flags := g\<rparr>) =
      map_option (\<lambda>(r, s). (r, if sp_type s = FORMAT_TYPE_NONE then s\<lparr>field_width := x\<rparr> else s))
        (decode_width q (spec\<lparr>sp_type := FORMAT_TYPE_NONE, sp_flags := g\<rparr>))" for q g
  proof -
    have "decode_width q (spec\<lparr>field_width := x, sp_type := FORMAT_TYPE_NONE, sp_flags := g\<rparr>) =
        decode_width q (spec\<lparr>sp_type := FORMAT_TYPE_NONE, sp_flags := g\<rparr>)" by (simp add: decode_width_def)
    then show ?thesis using decode_width_type by (cases "decode_width q (spec\<lparr>sp_type := FORMAT_TYPE_NONE, sp_flags := g\<rparr>)") auto
  qed
  have t: "sp_type spec \<noteq> FORMAT_TYPE_WIDTH" "sp_type spec \<noteq> FORMAT_TYPE_PRECISION"
    using assms by (auto simp: pending_def split: if_splits)
  show ?thesis using t unfolding format_decode_def
    by (cases "rd (dropWhile (\<lambda>c. c \<noteq> 0 \<and> c \<noteq> 37) fmt) 0"; cases "flag_loop 0 (tl (dropWhile (\<lambda>c. c \<noteq> 0 \<and> c \<noteq> 37) fmt))")
      (auto simp: Let_def w)
qed

lemma spec_text_writes:
  assumes "spec_ok spec"
  shows "vs_string e p (printf_spec.truncate spec) ob = map_option (\<lambda>t. emits e t ob) (string_text p (printf_spec.truncate spec))"
    and "pointer ks fmt e p (printf_spec.truncate spec) ob = map_option (\<lambda>t. emits e t ob) (pointer_text ks fmt p (printf_spec.truncate spec))"
    and "sp_base spec \<in> {8, 10, 16} \<Longrightarrow>
      number e num (printf_spec.truncate spec) ob = emits e (number_text num (printf_spec.truncate spec)) ob"
  using assms
  by (auto simp: spec_ok_def printf_spec.truncate_def intro!: writesD [OF vs_string_writes] writesD [OF pointer_writes] number_eq)

lemma char_directive:
  assumes "spec_ok spec"
  shows "\<exists>x. char_pad e (fst (if sp_flags spec AND LEFT = 0 then char_pad e (field_width spec) ob else (field_width spec, ob)))
      (emit e c (snd (if sp_flags spec AND LEFT = 0 then char_pad e (field_width spec) ob else (field_width spec, ob)))) =
    (x, emits e (char_text c spec) ob)"
proof -
  have fw: "-32768 < sint (field_width spec)" "sint (field_width spec - 1) = sint (field_width spec) - 1"
    using assms s16_dec [of "field_width spec"] by (auto simp: spec_ok_def)
  show ?thesis
  proof (cases "sp_flags spec AND LEFT = 0")
    case True
    define w where "w = (if 1 \<le> sint (field_width spec) then 0 else field_width spec - 1)"
    have "-32768 < sint w" "sint w \<le> 1" using assms fw by (auto simp: w_def spec_ok_def)
    from char_pad_none [OF this] show ?thesis
      using True char_pad_eq [OF fw(1)] by (simp add: w_def [symmetric] char_text_def emits_app) (metis prod.collapse)
  next
    case False
    then show ?thesis using char_pad_eq [OF fw(1)] by (simp add: char_text_def)
  qed
qed

definition is_num :: "format_type \<Rightarrow> bool" where
  "is_num ty \<longleftrightarrow> ty \<notin> {FORMAT_TYPE_NONE, FORMAT_TYPE_WIDTH, FORMAT_TYPE_PRECISION, FORMAT_TYPE_CHAR, FORMAT_TYPE_STR, FORMAT_TYPE_PTR,
    FORMAT_TYPE_PERCENT_CHAR, FORMAT_TYPE_INVALID, FORMAT_TYPE_NRCHARS}"

lemma vs_directive_num:
  assumes "is_num (sp_type (vs_spec st))"
  shows "vs_directive ks e old st = do { (num, args) \<leftarrow> va_number (sp_type (vs_spec st)) (vs_args st);
    Some (st\<lparr>vs_args := args, vs_out := number e num (printf_spec.truncate (vs_spec st)) (vs_out st)\<rparr>) }"
  using assms by (cases "sp_type (vs_spec st)") (simp_all add: is_num_def vs_directive_def Let_def)

lemma directive_text_num:
  assumes "is_num (sp_type (tx_spec st))"
  shows "directive_text ks old st = (if \<not> spec_ok (tx_spec st) then None
    else do { (num, args) \<leftarrow> va_number (sp_type (tx_spec st)) (tx_args st);
      Some (st\<lparr>tx_args := args, tx_text := tx_text st @ number_text num (printf_spec.truncate (tx_spec st))\<rparr>) })"
  using assms by (cases "sp_type (tx_spec st)") (simp_all add: is_num_def directive_text_def Let_def)

text \<open>When the conversion has been decoded, both sides have the same specification.\<close>

lemma directive_sim:
  assumes f: "vs_fmt vs = tx_fmt tx" "vs_args vs = tx_args tx" "vs_stores vs = tx_stores tx"
    "vs_out vs = emits e (tx_text tx) (0, m)"
    and spec: "\<exists>x. vs_spec vs = (tx_spec tx)\<lparr>field_width := x\<rparr>" "sp_type (tx_spec tx) \<noteq> FORMAT_TYPE_NONE \<longrightarrow> vs_spec vs = tx_spec tx"
    and e: "e \<le> length m" and d: "directive_text ks old tx = Some tx'"
    and base: "is_num (sp_type (tx_spec tx)) \<longrightarrow> sp_base (tx_spec tx) \<in> {8, 10, 16}"
  shows "\<exists>vs'. vs_directive ks e old vs = Some vs' \<and> sim e m vs' tx'"
proof -
  have same: "\<exists>x. s = s\<lparr>field_width := x\<rparr> \<and> (0 < pending s \<longrightarrow> x = field_width s)" for s :: fmt_spec
    by (rule exI [of _ "field_width s"]) simp
  then have samep: "\<exists>x. s\<lparr>precision := p\<rparr> = s\<lparr>precision := p, field_width := x\<rparr> \<and> (0 < pending (s\<lparr>precision := p\<rparr>) \<longrightarrow> x = field_width s)"
    for s :: fmt_spec and p using same [of "s\<lparr>precision := p\<rparr>"] by simp
  show ?thesis
  proof (cases "is_num (sp_type (tx_spec tx))")
    case True
    then have "vs_spec vs = tx_spec tx" using spec(2) by (auto simp: is_num_def)
    then show ?thesis using True d f base
      by (auto simp: directive_text_num vs_directive_num spec_text_writes(3) sim_def same emits_app bind_eq_Some_conv split: if_splits)
  next
    case False
    then consider "sp_type (tx_spec tx) = FORMAT_TYPE_NONE" | "sp_type (tx_spec tx) = FORMAT_TYPE_WIDTH" | "sp_type (tx_spec tx) = FORMAT_TYPE_PRECISION"
      | "sp_type (tx_spec tx) = FORMAT_TYPE_CHAR" | "sp_type (tx_spec tx) = FORMAT_TYPE_STR" | "sp_type (tx_spec tx) = FORMAT_TYPE_PTR"
      | "sp_type (tx_spec tx) = FORMAT_TYPE_PERCENT_CHAR \<or> sp_type (tx_spec tx) = FORMAT_TYPE_INVALID" | "sp_type (tx_spec tx) = FORMAT_TYPE_NRCHARS"
      by (auto simp: is_num_def)
    then show ?thesis
    proof cases
      case 1
      then show ?thesis using d f e spec(1) by (auto simp: directive_text_def vs_directive_def Let_def copy_text_eq sim_def emits_app pending_def)
    next
      case 2
      then show ?thesis using d f spec(2) by (auto simp: directive_text_def vs_directive_def Let_def sim_def same samep bind_eq_Some_conv)
    next
      case 3
      then show ?thesis using d f spec(2) by (auto simp: directive_text_def vs_directive_def Let_def sim_def same samep bind_eq_Some_conv)
    next
      case 4
      then obtain x args where x: "spec_ok (tx_spec tx)" "va_int (tx_args tx) = Some (x, args)"
        "tx' = tx\<lparr>tx_args := args, tx_text := tx_text tx @ char_text (ucast x) (tx_spec tx)\<rparr>"
        using d by (auto simp: directive_text_def Let_def bind_eq_Some_conv split: if_splits)
      obtain w where w: "char_pad e (fst (if sp_flags (tx_spec tx) AND LEFT = 0 then char_pad e (field_width (tx_spec tx)) (vs_out vs)
            else (field_width (tx_spec tx), vs_out vs)))
          (emit e (ucast x) (snd (if sp_flags (tx_spec tx) AND LEFT = 0 then char_pad e (field_width (tx_spec tx)) (vs_out vs)
            else (field_width (tx_spec tx), vs_out vs)))) = (w, emits e (char_text (ucast x) (tx_spec tx)) (vs_out vs))"
        using char_directive [OF x(1)] by blast
      then have "vs_directive ks e old vs = Some (vs\<lparr>vs_args := args, vs_spec := (tx_spec tx)\<lparr>field_width := w\<rparr>,
          vs_out := emits e (char_text (ucast x) (tx_spec tx)) (vs_out vs)\<rparr>)"
        using 4 f(2) x(2) spec(2)
        by (cases "sp_flags (tx_spec tx) AND LEFT = 0") (simp_all add: vs_directive_def Let_def case_prod_beta)
      then show ?thesis using f x 4 by (auto simp: sim_def emits_app pending_def)
    next
      case 5
      then obtain p args t where t: "spec_ok (tx_spec tx)" "va_ptr (tx_args tx) = Some (p, args)" "string_text p (printf_spec.truncate (tx_spec tx)) = Some t"
        "tx' = tx\<lparr>tx_args := args, tx_text := tx_text tx @ t\<rparr>"
        using d by (auto simp: directive_text_def Let_def bind_eq_Some_conv split: if_splits)
      then have "vs_directive ks e old vs = Some (vs\<lparr>vs_args := args, vs_out := emits e t (vs_out vs)\<rparr>)"
        using 5 f(1,2) spec(2) by (simp add: vs_directive_def Let_def spec_text_writes)
      then show ?thesis using f t(4) spec(2) 5 same by (simp add: sim_def emits_app)
    next
      case 6
      then obtain p args t where t: "spec_ok (tx_spec tx)" "va_ptr (tx_args tx) = Some (p, args)" "pointer_text ks (tl (tx_fmt tx)) p (printf_spec.truncate (tx_spec tx)) = Some t"
        "tx' = tx\<lparr>tx_args := args, tx_text := tx_text tx @ t, tx_fmt := dropWhile isalnum (tx_fmt tx)\<rparr>"
        using d by (auto simp: directive_text_def Let_def bind_eq_Some_conv split: if_splits)
      then have "vs_directive ks e old vs = Some (vs\<lparr>vs_args := args, vs_out := emits e t (vs_out vs), vs_fmt := dropWhile isalnum (tx_fmt tx)\<rparr>)"
        using 6 f(1,2) spec(2) by (simp add: vs_directive_def Let_def spec_text_writes)
      then show ?thesis using f t(4) spec(2) 6 same by (simp add: sim_def emits_app)
    next
      case 7
      then show ?thesis using d f spec(2) by (auto simp: directive_text_def vs_directive_def Let_def sim_def same emits_app)
    next
      case 8
      then show ?thesis using d f spec(2) by (auto simp: directive_text_def vs_directive_def Let_def sim_def same samep bind_eq_Some_conv)
    qed
  qed
qed

lemma decode_conversion_base:
  "decode_conversion fmt spec = Some (r, s) \<Longrightarrow> is_num (sp_type s) \<Longrightarrow> sp_base s \<in> {8, 10, 16}"
  by (auto simp: decode_conversion_def is_num_def Let_def bind_eq_Some_conv split: if_splits)

lemma decode_base: "format_decode fmt spec = Some (r, s) \<Longrightarrow> is_num (sp_type s) \<Longrightarrow> sp_base s \<in> {8, 10, 16}"
  using format_decode_conv [of fmt spec r s] decode_conversion_base [of _ _ r s] by (auto simp: is_num_def)

lemma loop_sim:
  assumes "e \<le> length m"
  shows "txt_loop ks tx = Some tx' \<Longrightarrow> sim e m vs tx \<Longrightarrow> \<exists>vs'. vs_loop ks e vs = Some vs' \<and> sim e m vs' tx'"
proof (induction ks tx arbitrary: vs rule: txt_loop.induct)
  case (1 ks tx)
  have fmt: "vs_fmt vs = tx_fmt tx" using "1.prems"(2) by (simp add: sim_def)
  obtain c where c: "rd (tx_fmt tx) 0 = Some c" using "1.prems"(1) by (cases "rd (tx_fmt tx) 0") (simp_all add: txt_loop.simps [of ks tx])
  show ?case
  proof (cases "c = 0")
    case True
    then show ?thesis using "1.prems" c fmt by (auto simp: txt_loop.simps [of ks tx] vs_loop.simps [of ks e vs])
  next
    case False
    obtain r spec where d: "format_decode (tx_fmt tx) (tx_spec tx) = Some (r, spec)"
      using "1.prems"(1) c False by (cases "format_decode (tx_fmt tx) (tx_spec tx)") (auto simp: txt_loop.simps [of ks tx])
    obtain tx1 where t: "directive_text ks (tx_fmt tx) (tx\<lparr>tx_fmt := r, tx_spec := spec\<rparr>) = Some tx1" "txt_loop ks tx1 = Some tx'"
      using "1.prems"(1) c False d
      by (cases "directive_text ks (tx_fmt tx) (tx\<lparr>tx_fmt := r, tx_spec := spec\<rparr>)") (auto simp: txt_loop.simps [of ks tx])
    obtain x where x: "vs_spec vs = (tx_spec tx)\<lparr>field_width := x\<rparr>" "0 < pending (tx_spec tx) \<longrightarrow> x = field_width (tx_spec tx)"
      using "1.prems"(2) by (auto simp: sim_def)
    obtain y where y: "format_decode (tx_fmt tx) (vs_spec vs) = Some (r, spec\<lparr>field_width := y\<rparr>)"
      "sp_type spec \<noteq> FORMAT_TYPE_NONE \<longrightarrow> y = field_width spec"
    proof (cases "pending (tx_spec tx) = 0")
      case True
      from that [of "if sp_type spec = FORMAT_TYPE_NONE then x else field_width spec"] show ?thesis
        using format_decode_width [OF True, of "tx_fmt tx" x] d x(1) by (simp split: if_splits)
    next
      case False
      then have "vs_spec vs = tx_spec tx" using x by simp
      then show ?thesis using that [of "field_width spec"] d by simp
    qed
    have "\<exists>vs'. vs_directive ks e (tx_fmt tx) (vs\<lparr>vs_fmt := r, vs_spec := spec\<lparr>field_width := y\<rparr>\<rparr>) = Some vs' \<and> sim e m vs' tx1"
      using "1.prems"(2) y(2) decode_base [OF d] by (intro directive_sim [OF _ _ _ _ _ _ assms t(1)]) (auto simp: sim_def)
    then obtain vs1 where v: "vs_directive ks e (tx_fmt tx) (vs\<lparr>vs_fmt := r, vs_spec := spec\<lparr>field_width := y\<rparr>\<rparr>) = Some vs1" "sim e m vs1 tx1"
      by blast
    obtain vs' where "vs_loop ks e vs1 = Some vs'" "sim e m vs' tx'"
      using "1.IH" [OF c False d refl t(1) t(2) v(2)] by blast
    then show ?thesis using c False y(1) v(1) fmt by (auto simp: vs_loop.simps [of ks e vs])
  qed
qed

lemma vsnprintf_text:
  assumes "format_text ks fmt args = Some (t, w)" "unat sz < 2 ^ 31" "unat buf + unat sz < 2 ^ 32" "unat sz \<le> length m"
  shows "vsnprintf ks buf m sz fmt args = Some (of_nat (length t),
    if sz = 0 then m else take (unat sz - 1) t @ 0 # drop (min (unat sz) (Suc (length t))) m, w)"
proof -
  obtain tx where tx: "txt_loop ks (txt_start fmt args) = Some tx" "tx_text tx = t" "tx_stores tx = w"
    using assms(1) by (auto simp: format_text_def)
  let ?e = "unat sz"
  have "sim ?e m (vs_start fmt args m) (txt_start fmt args)"
    by (simp add: sim_def vs_start_def txt_start_def)
  then obtain vs where vs: "vs_loop ks ?e (vs_start fmt args m) = Some vs" "sim ?e m vs tx"
    using loop_sim [OF assms(4) tx(1)] by blast
  then have out: "vs_out vs = (length t, take ?e t @ drop (min ?e (length t)) m)" "vs_stores vs = w"
    using emits_buffer [of ?e m 0 t] assms(4) tx by (simp_all add: sim_def)
  have "sint sz = int ?e" by (rule sint_small) (rule assms(2))
  then have pos: "\<not> sint sz < 0" by simp
  have "unat (buf + sz) = unat buf + unat sz" using assms(3) by (rule unat_add_ulong)
  then have nw: "\<not> buf + sz < buf" by (simp add: word_less_nat_alt)
  define M where "M = take ?e t @ drop (min ?e (length t)) m"
  have lM: "length M = length m" using assms(4) by (auto simp: M_def)
  have st: "store M (if length t < ?e then length t else ?e - 1) 0 = Some (take (?e - 1) t @ 0 # drop (min ?e (Suc (length t))) m)"
    if p: "0 < ?e"
  proof (cases "length t < ?e")
    case True
    then obtain y ys where y: "drop (length t) m = y # ys" using assms(4) by (cases "drop (length t) m") auto
    have "drop (Suc (length t)) m = ys" using y by (metis drop_Suc drop_tl list.sel(3))
    moreover have "min ?e (Suc (length t)) = Suc (length t)" "min ?e (length t) = length t" using True by simp_all
    ultimately show ?thesis using True y assms(4) by (simp add: store_def M_def list_update_append)
  next
    case False
    then obtain k where k: "?e = Suc k" using p by (cases ?e) auto
    then have "take (Suc k) t = take k t @ [t ! k]" using False by (simp add: take_Suc_conv_app_nth)
    then show ?thesis using False k assms(4) by (simp add: store_def M_def min_def list_update_append)
  qed
  have z: "0 < ?e \<longleftrightarrow> sz \<noteq> 0" by (simp add: unat_gt_0)
  have "min ?e (length t) \<le> length M" "sz = 0 \<Longrightarrow> M = m" using assms(4) lM by (simp_all add: M_def)
  then show ?thesis
    using pos nw vs(1) out st z lM unfolding vsnprintf_def by (auto simp: Let_def M_def [symmetric])
qed

lemma scnprintf_text:
  assumes "format_text ks fmt args = Some (t, w)" "unat sz < 2 ^ 31" "unat buf + unat sz < 2 ^ 32" "unat sz \<le> length m"
    "length t < 2 ^ 32" "sz \<noteq> 0"
  shows "scnprintf ks buf m sz fmt args = Some (of_nat (min (length t) (unat sz - 1)),
    take (unat sz - 1) t @ 0 # drop (min (unat sz) (Suc (length t))) m, w)"
proof -
  have pos: "0 < unat sz" using assms(6) by (simp add: unat_gt_0)
  have "sz \<le> of_nat (length t) \<longleftrightarrow> unat sz \<le> length t"
    using unat_of_nat_ulong [OF assms(5)] by (simp add: word_le_nat_alt)
  moreover have "of_nat (unat sz - 1) = sz - 1" using pos by (simp add: of_nat_diff)
  ultimately show ?thesis using pos assms(6) vsnprintf_text [OF assms(1-4)] by (auto simp: scnprintf_def min_def)
qed

subsection \<open>Evaluation of formats\<close>

lemmas fmt_eval = format_decode_def decode_width_def decode_precision_def decode_qualifier_def decode_conversion_def rd_def
  directive_text_def Let_def isdigit_iff TOLOWER_def int_type_def va_number_def spec_ok_def flag_defs printf_spec.truncate_def

lemmas number_eval = number_text_def sign_text_def prefix_text_def digit_text_def magnitude_def digits.simps digit_char_def digit_tab_def

lemma txt_end: "rd (tx_fmt st) 0 = Some 0 \<Longrightarrow> txt_loop ks st = Some st"
  by (subst txt_loop.simps) simp

text \<open>The format \<^verbatim>\<open>"%d"\<close>.\<close>

lemma format_d:
  "format_text ks [37, 100, 0] [VInt x] =
    Some (number_text (scast x) \<lparr>sp_flags = SIGN, sp_base = 10, field_width = -1, precision = -1\<rparr>, [])"
  unfolding format_text_def txt_start_def vs_start_def by (subst txt_loop.simps) (simp add: fmt_eval txt_end)

section \<open>Properties\<close>

text \<open>C5: For every format and all arguments for which the reference text is defined, \<^verbatim>\<open>vsnprintf\<close> returns the length of the whole
  text and stores it truncated to the size of the buffer, always terminated when the size is not 0, and touches no
  byte behind; \<^verbatim>\<open>scnprintf\<close> returns the length of what it stored. The text does not depend on the buffer.\<close>

theorem vsnprintf_correct:
  assumes "format_text ks fmt args = Some (t, w)"
    and "unat sz < 2 ^ 31" "unat buf + unat sz < 2 ^ 32" "unat sz \<le> length m" "length t < 2 ^ 32"
  shows "vsnprintf ks buf m sz fmt args = Some (of_nat (length t),
      if sz = 0 then m else take (unat sz - 1) t @ 0 # drop (min (unat sz) (Suc (length t))) m, w)
    \<and> (sz \<noteq> 0 \<longrightarrow> scnprintf ks buf m sz fmt args = Some (of_nat (min (length t) (unat sz - 1)),
      take (unat sz - 1) t @ 0 # drop (min (unat sz) (Suc (length t))) m, w))"
  using vsnprintf_text [OF assms(1-4)] scnprintf_text [OF assms] by blast

text \<open>The number -42 as \<^verbatim>\<open>%d\<close> in a buffer of three bytes.\<close>

theorem vsnprintf_correct_witness:
  "format_text \<lparr>sprint_symbol = \<lambda>v. [0], kallsyms_lookup = \<lambda>v. [0]\<rparr> [37, 100, 0] [VInt 0xFFFFFFD6] = Some ([45, 52, 50], [])
    \<and> scnprintf \<lparr>sprint_symbol = \<lambda>v. [0], kallsyms_lookup = \<lambda>v. [0]\<rparr> 0xC0000000 [1, 2, 3] 3 [37, 100, 0] [VInt 0xFFFFFFD6] =
      Some (2, [45, 52, 0], [])"
proof -
  let ?ks = "\<lparr>sprint_symbol = \<lambda>v. [0], kallsyms_lookup = \<lambda>v. [0]\<rparr>"
  have "format_text ?ks [37, 100, 0] [VInt 0xFFFFFFD6] = Some ([45, 52, 50], [])"
    by (simp add: format_d number_eval flag_defs Let_def)
  with vsnprintf_correct [OF this, of 3 "0xC0000000" "[1, 2, 3]"] show ?thesis by simp
qed


end
