(* ===== verification/Cmdline.thy ===== *)
theory Cmdline
  imports Vsprintf_Number
begin

text \<open>The parsing of kernel and module options of \<^verbatim>\<open>lib/cmdline.c\<close>. Strings are as in \<^verbatim>\<open>lib/string.c\<close>, the
  array of integers is a list of words with the pointers into it as indices, and a store outside of it has
  the result \<open>None\<close>. The index \<open>i\<close> of \<^verbatim>\<open>get_options\<close> is an unbounded integer: a range that could overflow it
  leaves the array long before.\<close>

section \<open>Definitions\<close>

definition set_int :: "u32 list \<Rightarrow> nat \<Rightarrow> u32 \<Rightarrow> u32 list option" where
  "set_int ints p v = (if p < length ints then Some (ints[p := v]) else None)"

lemma sint_inc: "sint x < sint y \<Longrightarrow> sint (x + 1) = sint x + 1" for x y :: u32
proof -
  assume lt: "sint x < sint y"
  have r: "-(2 ^ 31) \<le> sint x" "sint y < 2 ^ 31" using sint_range_size [of x] sint_range_size [of y] by (simp_all add: word_size)
  have "sint (x + 1) = signed_take_bit 31 (sint x + 1)" by (simp add: sint_word_ariths)
  also have "\<dots> = sint x + 1" using lt r by (intro signed_take_bit_int_eq_self) simp_all
  finally show ?thesis .
qed

function get_range_loop :: "u32 list \<Rightarrow> nat \<Rightarrow> u32 \<Rightarrow> u32 \<Rightarrow> u32 list option" where
  "get_range_loop ints p x upper_range =
    (if sint x < sint upper_range then do {
       ints \<leftarrow> set_int ints p x;
       get_range_loop ints (p + 1) (x + 1) upper_range
     } else Some ints)"
  by pat_completeness auto
termination by (relation "measure (\<lambda>(ints, p, x, u). nat (sint u - sint x))") (auto simp: sint_inc)

declare get_range_loop.simps [simp del]

text \<open>The number of values, the string behind the hyphen and the array.\<close>

definition get_range :: "u8 list \<Rightarrow> u32 list \<Rightarrow> nat \<Rightarrow> (u32 \<times> u8 list \<times> u32 list) option" where
  "get_range str ints p = do {
     let str = tl str;
     (upper_range, _) \<leftarrow> simple_strtol str 0;
     let inc_counter = upper_range - ints ! p;
     ints \<leftarrow> get_range_loop ints p (ints ! p) upper_range;
     Some (inc_counter, str, ints)
   }"

text \<open>\<^verbatim>\<open>get_option\<close> on a string that is not \<^verbatim>\<open>NULL\<close>; the comma is 44 and the hyphen 45.\<close>

definition get_option_str :: "u8 list \<Rightarrow> u32 list \<Rightarrow> nat \<Rightarrow> (nat \<times> u8 list \<times> u32 list) option" where
  "get_option_str cur ints p = do {
     c \<leftarrow> rd cur 0;
     if c = 0 then Some (0, cur, ints)
     else do {
       (v, str) \<leftarrow> simple_strtol cur 0;
       ints \<leftarrow> set_int ints p v;
       if length cur = length str then Some (0, str, ints)
       else do {
         d \<leftarrow> rd str 0;
         if d = 44 then Some (2, tl str, ints)
         else if d = 45 then Some (3, str, ints)
         else Some (1, str, ints)
       }
     }
   }"

definition get_option :: "u8 list option \<Rightarrow> u32 list \<Rightarrow> nat \<Rightarrow> (nat \<times> u8 list option \<times> u32 list) option" where
  "get_option str ints p = (case str of
     None \<Rightarrow> Some (0, None, ints)
   | Some cur \<Rightarrow> map_option (\<lambda>(r, s, ints). (r, Some s, ints)) (get_option_str cur ints p))"

lemma strtoull_loop_length: "strtoull_loop b a s = Some (v, t) \<Longrightarrow> length t \<le> length s"
  by (induction b a s rule: strtoull_loop.induct) (auto simp: Let_def split: if_splits)

lemma strtoull_length: "simple_strtoull s b = Some (v, t) \<Longrightarrow> length t \<le> length s"
  by (auto simp: simple_strtoull_def skip_0x_def split: if_splits bind_splits dest!: strtoull_loop_length)

lemma strtol_length: "simple_strtol s b = Some (v, t) \<Longrightarrow> length t \<le> length s"
  by (auto simp: simple_strtol_def simple_strtoul_def split: if_splits bind_splits dest!: strtoull_length)

lemma get_option_consumes: "get_option_str s ints p = Some (r, t, ints') \<Longrightarrow> r \<noteq> 0 \<Longrightarrow> length t < length s"
  by (auto simp: get_option_str_def rd_def split: if_splits bind_splits dest!: strtol_length)

function get_options_loop :: "int \<Rightarrow> int \<Rightarrow> u8 list \<Rightarrow> u32 list \<Rightarrow> (int \<times> u8 list \<times> u32 list) option" where
  "get_options_loop nints i str ints =
    (if i < nints then
       case get_option_str str ints (nat i) of
         None \<Rightarrow> None
       | Some (res, str', ints) \<Rightarrow>
           if res = 0 then Some (i, str', ints)
           else if res = 3 then
             case get_range str' ints (nat i) of
               None \<Rightarrow> None
             | Some (range_nums, str'', ints) \<Rightarrow>
                 if sint range_nums < 0 then Some (i, str'', ints)
                 else get_options_loop nints (i + (sint range_nums - 1) + 1) str'' ints
           else if res = 1 then Some (i + 1, str', ints)
           else get_options_loop nints (i + 1) str' ints
     else Some (i, str, ints))"
  by pat_completeness auto
termination
  by (relation "measure (\<lambda>(n, i, str, ints). length str)")
    (auto simp: get_range_def Let_def dest!: get_option_consumes split: bind_splits)

declare get_options_loop.simps [simp del]

definition get_options :: "u8 list \<Rightarrow> int \<Rightarrow> u32 list \<Rightarrow> (u8 list \<times> u32 list) option" where
  "get_options str nints ints = do {
     (i, str, ints) \<leftarrow> get_options_loop nints 1 str ints;
     ints \<leftarrow> set_int ints 0 (of_int (i - 1));
     Some (str, ints)
   }"

text \<open>The characters \<^verbatim>\<open>G\<close>, \<^verbatim>\<open>M\<close> and \<^verbatim>\<open>K\<close> are 71, 77 and 75. The cases of the switch fall through.\<close>

definition memparse :: "u8 list \<Rightarrow> (u64 \<times> u8 list) option" where
  "memparse ptr = do {
     (ret, endptr) \<leftarrow> simple_strtoull ptr 0;
     c \<leftarrow> rd endptr 0;
     let g = (c = 71 \<or> c = 103);
     let m = (c = 77 \<or> c = 109);
     let k = (c = 75 \<or> c = 107);
     let ret = (if g then push_bit 10 ret else ret);
     let ret = (if g \<or> m then push_bit 10 ret else ret);
     let ret = (if g \<or> m \<or> k then push_bit 10 ret else ret);
     Some (ret, if g \<or> m \<or> k then tl endptr else endptr)
   }"

section \<open>Correctness\<close>

lemma strtoull_suffix:
  assumes "is_cstr s"
  shows "\<exists>v t. simple_strtoull s b = Some (v, t) \<and> suffix t s \<and> is_cstr t"
proof -
  define B where "B = (if b = 0 then if has_0x s \<and> isxdigit (s ! 2) then 16 else if s ! 0 = 48 then 8 else 10 else b)"
  define T where "T = (if B = 16 \<and> has_0x s then drop 2 s else s)"
  have T: "is_cstr T" and v: "simple_strtoull s b = Some (of_nat (numeral_value (unat B) (takeWhile (is_digit_of B) T)), dropWhile (is_digit_of B) T)"
    using strtoull_cstr [OF assms, of b] by (simp_all only: B_def [symmetric] T_def [symmetric] drop_takeWhile)
  have "suffix (dropWhile (is_digit_of B) T) T" by (rule suffix_dropWhile)
  moreover have "suffix T s" by (simp add: T_def suffix_drop)
  moreover have "is_cstr (dropWhile (is_digit_of B) T)" using cstr_dropWhile [OF T, of "is_digit_of B"] digit_nonzero by blast
  ultimately show ?thesis using v suffix_order.trans by blast
qed

lemma strtol_suffix:
  assumes "is_cstr s"
  shows "\<exists>v t. simple_strtol s b = Some (v, t) \<and> suffix t s \<and> is_cstr t"
proof -
  obtain c r where s: "s = c # r" using assms by (cases s) auto
  show ?thesis
  proof (cases "c = 45")
    case True
    then have "is_cstr r" using assms s by simp
    then obtain v t where "simple_strtoull r b = Some (v, t)" "suffix t r" "is_cstr t" using strtoull_suffix by blast
    then show ?thesis using True s by (auto simp: simple_strtol_def simple_strtoul_def rd_def suffix_ConsI)
  next
    case False
    obtain v t where "simple_strtoull s b = Some (v, t)" "suffix t s" "is_cstr t" using strtoull_suffix [OF assms] by blast
    then show ?thesis using False s by (auto simp: simple_strtol_def simple_strtoul_def rd_def)
  qed
qed

lemma suffix_str_of: "suffix t s \<Longrightarrow> is_cstr t \<Longrightarrow> set (str_of t) \<subseteq> set s"
  by (auto simp: str_of_def suffix_def dest: set_takeWhileD)

text \<open>Without a hyphen in the string, no option is taken for a range and no store leaves the array.\<close>

lemma get_option_no_range:
  assumes "is_cstr s" "45 \<notin> set s" "p < length ints"
  shows "\<exists>r t v. get_option_str s ints p = Some (r, t, ints[p := v]) \<and> r \<in> {0, 1, 2} \<and> suffix t s \<and> is_cstr t"
proof -
  obtain c rest where s: "s = c # rest" using assms(1) by (cases s) auto
  show ?thesis
  proof (cases "c = 0")
    case True
    then have "get_option_str s ints p = Some (0, s, ints[p := ints ! p])" by (simp add: get_option_str_def rd_def s)
    then show ?thesis using assms(1) by blast
  next
    case False
    obtain v t where t: "simple_strtol s 0 = Some (v, t)" "suffix t s" "is_cstr t" using strtol_suffix [OF assms(1)] by blast
    obtain d u where d: "t = d # u" using t(3) by (cases t) auto
    have "d \<in> set s" using t(2) d by (auto simp: suffix_def)
    then have d45: "d \<noteq> 45" using assms(2) by blast
    have "suffix u s" using t(2) d by (auto simp: suffix_def)
    moreover have "d = 44 \<Longrightarrow> is_cstr u" using t(3) d by simp
    ultimately show ?thesis using False s t d d45 assms(3)
      by (auto simp: get_option_str_def rd_def set_int_def)
  qed
qed

lemma get_options_loop_safe:
  assumes "is_cstr s" "45 \<notin> set s" "0 \<le> i" "i \<le> nints" "nints \<le> int (length ints)"
  shows "\<exists>j t ints'. get_options_loop nints i s ints = Some (j, t, ints') \<and> i \<le> j \<and> j \<le> nints
    \<and> length ints' = length ints \<and> suffix t s \<and> is_cstr t \<and> (\<forall>k<nat i. ints' ! k = ints ! k)"
  using assms
proof (induction nints i s ints rule: get_options_loop.induct)
  case (1 nints i s ints)
  show ?case
  proof (cases "i < nints")
    case False
    then show ?thesis using "1.prems" by (subst get_options_loop.simps) auto
  next
    case True
    then have "nat i < length ints" using "1.prems" by linarith
    then obtain r t v where o: "get_option_str s ints (nat i) = Some (r, t, ints[nat i := v])" "r \<in> {0, 1, 2}" "suffix t s" "is_cstr t"
      using get_option_no_range [OF "1.prems"(1,2)] by blast
    have eq: "get_options_loop nints i s ints = (if r = 0 then Some (i, t, ints[nat i := v])
        else if r = 1 then Some (i + 1, t, ints[nat i := v]) else get_options_loop nints (i + 1) t (ints[nat i := v]))"
      using True o(1,2) by (subst get_options_loop.simps) auto
    show ?thesis
    proof (cases "r = 2")
      case False
      then show ?thesis using eq o True "1.prems" by (auto split: if_splits)
    next
      case r2: True
      have n45: "45 \<notin> set t" using o(3) "1.prems"(2) by (auto simp: suffix_def)
      obtain j u ints' where "get_options_loop nints (i + 1) t (ints[nat i := v]) = Some (j, u, ints')" "i + 1 \<le> j" "j \<le> nints"
        "length ints' = length ints" "suffix u t" "is_cstr u" "\<forall>k<nat (i + 1). ints' ! k = (ints[nat i := v]) ! k"
        using "1.IH"(2) [OF True o(1) refl refl] r2 n45 o(4) True "1.prems" by auto
      moreover have "\<forall>k<nat i. ints' ! k = ints ! k" using calculation(7) "1.prems"(3) by auto
      ultimately show ?thesis using eq r2 o(3) suffix_order.trans by fastforce
    qed
  qed
qed

subsection \<open>Texts of numbers\<close>

text \<open>The texts a number can be given by: decimal, octal with a leading zero and hexadecimal with \<^verbatim>\<open>0x\<close>.\<close>

definition dec_text :: "nat \<Rightarrow> u8 list" where
  "dec_text n = map (digit_char 0) (rev (digits 10 n))"

definition oct_text :: "nat \<Rightarrow> u8 list" where
  "oct_text n = 48 # map (digit_char 0) (rev (digits 8 n))"

definition hex_text :: "nat \<Rightarrow> u8 list" where
  "hex_text n = 48 # 120 # map (digit_char 32) (rev (digits 16 n))"

fun comma_list :: "(nat \<Rightarrow> u8 list) \<Rightarrow> nat list \<Rightarrow> u8 list" where
  "comma_list pr [] = []"
| "comma_list pr [n] = pr n"
| "comma_list pr (n # ns) = pr n @ 44 # comma_list pr ns"

definition unit_of :: "u8 \<Rightarrow> nat" where
  "unit_of e = (if e = 71 \<or> e = 103 then 2 ^ 30 else if e = 77 \<or> e = 109 then 2 ^ 20 else if e = 75 \<or> e = 107 then 2 ^ 10 else 1)"

lemma comma_list_cstr: "is_cstr (comma_list pr ns @ 0 # r)"
  by (simp add: is_cstr_def)

lemma upd_then_tail:
  assumes "i < length ints"
  shows "take (Suc i) (ints[i := v]) @ xs @ drop (Suc i + k) (ints[i := v]) = take i ints @ v # xs @ drop (Suc (i + k)) ints"
  using assms by (simp add: take_Suc_conv_app_nth)

text \<open>What the option parsers rely on: \<^verbatim>\<open>simple_strtoull\<close> with the base left open reads the text of a number back.\<close>

locale numeral_format =
  fixes pr :: "nat \<Rightarrow> u8 list"
  assumes pr_head: "\<exists>c cs. pr n = c # cs \<and> isxdigit c"
    and pr_parse: "is_cstr (e # r) \<Longrightarrow> \<not> isxdigit e \<Longrightarrow> e \<noteq> 120 \<Longrightarrow> e \<noteq> 88
      \<Longrightarrow> simple_strtoull (pr n @ e # r) 0 = Some (of_nat n, e # r)"
begin

lemma strtol_pr:
  assumes "is_cstr (e # r)" "e \<in> {0, 44, 45}"
  shows "simple_strtol (pr n @ e # r) 0 = Some (of_nat n, e # r)"
proof -
  obtain c cs where c: "pr n = c # cs" "isxdigit c" using pr_head by blast
  have "simple_strtoull (pr n @ e # r) 0 = Some (of_nat n, e # r)"
    by (rule pr_parse) (use assms in \<open>auto simp: isxdigit_iff\<close>)
  moreover have "(ucast (of_nat n :: u64) :: u32) = of_nat n"
    by (intro word_unat_eq_iff [THEN iffD2]) (simp add: unsigned_ucast_eq unat_of_nat take_bit_eq_mod mod_mod_cancel)
  ultimately show ?thesis using c by (auto simp: simple_strtol_def simple_strtoul_def rd_def isxdigit_iff)
qed

lemma get_option_pr:
  assumes "is_cstr (e # r)" "e \<in> {0, 44, 45}" "p < length ints"
  shows "get_option_str (pr n @ e # r) ints p =
    Some (if e = 44 then (2, r, ints[p := of_nat n]) else if e = 45 then (3, e # r, ints[p := of_nat n]) else (1, e # r, ints[p := of_nat n]))"
proof -
  obtain c cs where c: "pr n = c # cs" "isxdigit c" using pr_head by blast
  then have "c \<noteq> 0" by (auto simp: isxdigit_iff)
  then show ?thesis using strtol_pr [OF assms(1,2), of n] c assms(3)
    by (auto simp: get_option_str_def rd_def set_int_def)
qed

lemma get_options_loop_list:
  assumes "ns \<noteq> []" "int (i + length ns) \<le> nints" "nints \<le> int (length ints)"
  shows "get_options_loop nints (int i) (comma_list pr ns @ 0 # r) ints =
    Some (int (i + length ns), 0 # r, take i ints @ map of_nat ns @ drop (i + length ns) ints)"
  using assms
proof (induction ns arbitrary: i ints rule: induct_list012)
  case (2 n)
  then have i: "i < length ints" "int i < nints" by simp_all
  have "get_options_loop nints (int i) (pr n @ 0 # r) ints = Some (int i + 1, 0 # r, ints[i := of_nat n])"
    using get_option_pr [of 0 r i ints n] i by (subst get_options_loop.simps) simp
  then show ?case using upd_conv_take_nth_drop [OF i(1)] by simp
next
  case (3 n m ms)
  then have i: "i < length ints" "int i < nints" by simp_all
  let ?s = "comma_list pr (m # ms) @ 0 # r"
  have "get_options_loop nints (int i) (pr n @ 44 # ?s) ints = get_options_loop nints (int (Suc i)) ?s (ints[i := of_nat n])"
    using get_option_pr [of 44 ?s i ints n] comma_list_cstr [of pr "m # ms" r] i
    by (subst get_options_loop.simps) (simp add: add.commute)
  also have "\<dots> = Some (int (Suc i + length (m # ms)), 0 # r,
      take (Suc i) (ints[i := of_nat n]) @ map of_nat (m # ms) @ drop (Suc i + length (m # ms)) (ints[i := of_nat n]))"
    by (rule "3.IH"(2)) (use "3.prems" in auto)
  finally show ?case unfolding upd_then_tail [OF i(1)] by simp
qed simp

lemma get_options_list:
  assumes "ns \<noteq> []" "int (length ns) < nints" "nints \<le> int (length ints)"
  shows "get_options (comma_list pr ns @ 0 # r) nints ints =
    Some (0 # r, of_nat (length ns) # map of_nat ns @ drop (Suc (length ns)) ints)"
proof -
  obtain x xs where x: "ints = x # xs" using assms by (cases ints) auto
  have "get_options_loop nints 1 (comma_list pr ns @ 0 # r) ints =
      Some (int (1 + length ns), 0 # r, take 1 ints @ map of_nat ns @ drop (1 + length ns) ints)"
    using get_options_loop_list [OF assms(1), of 1 nints ints r] assms by simp
  then show ?thesis using x by (simp add: get_options_def set_int_def)
qed

lemma memparse_pr:
  assumes "is_cstr (e # r)" "\<not> isxdigit e" "e \<noteq> 120" "e \<noteq> 88"
  shows "memparse (pr n @ e # r) = Some (of_nat (n * unit_of e), if unit_of e = 1 then e # r else r)"
proof -
  have "simple_strtoull (pr n @ e # r) 0 = Some (of_nat n, e # r)" using assms by (rule pr_parse)
  moreover have "push_bit 10 (of_nat m :: u64) = of_nat (m * 1024)" for m by (simp add: push_bit_eq_mult)
  ultimately show ?thesis by (auto simp: memparse_def rd_def unit_of_def push_bit_eq_mult)
qed

end

lemma dec_text_cons: "\<exists>c cs. dec_text n = c # cs \<and> isxdigit c"
proof -
  obtain c cs where c: "dec_text n = c # cs" by (cases "dec_text n") (auto simp: dec_text_def)
  then have "c \<in> set (dec_text n)" by simp
  then have "isxdigit c" using digits_lt [of 10] digit_char_value [of _ 0] by (fastforce simp: dec_text_def)
  then show ?thesis using c by blast
qed

interpretation dec: numeral_format dec_text
  by unfold_locales (rule dec_text_cons, simp add: dec_text_def parse_dec)

interpretation oct: numeral_format oct_text
  by unfold_locales (simp_all add: oct_text_def parse_oct isxdigit_iff)

interpretation hex: numeral_format hex_text
  by unfold_locales (simp_all add: hex_text_def parse_hex isxdigit_iff)

section \<open>Properties\<close>

text \<open>C36: \<^verbatim>\<open>get_options\<close> reads a comma-separated list of decimal, octal or hexadecimal numbers back: when the array
  is large enough, it holds their count in its first element and the numbers behind it, the rest is unchanged,
  and the parse ends at the terminator.\<close>

theorem get_options_roundtrip:
  assumes "pr = dec_text \<or> pr = oct_text \<or> pr = hex_text"
    and "ns \<noteq> []" "int (length ns) < nints" "nints \<le> int (length ints)"
  shows "get_options (comma_list pr ns @ 0 # r) nints ints =
    Some (0 # r, of_nat (length ns) # map of_nat ns @ drop (Suc (length ns)) ints)"
  using assms(1) dec.get_options_list [OF assms(2-4)] oct.get_options_list [OF assms(2-4)] hex.get_options_list [OF assms(2-4)]
  by blast

text \<open>The string \<^verbatim>\<open>"0x3,0x40"\<close>.\<close>

theorem get_options_roundtrip_witness:
  "comma_list hex_text [3, 64] = [48, 120, 51, 44, 48, 120, 52, 48]
    \<and> get_options [48, 120, 51, 44, 48, 120, 52, 48, 0] 4 [9, 9, 9, 9] = Some ([0], [2, 3, 64, 9])"
proof -
  have "comma_list hex_text [3, 64] = [48, 120, 51, 44, 48, 120, 52, 48]"
    by (simp add: hex_text_def digits.simps digit_char_def digit_tab_def)
  then show ?thesis using get_options_roundtrip [of hex_text "[3, 64]" 4 "[9, 9, 9, 9]" "[]"] by simp
qed

text \<open>C37: On every string without a hyphen \<^verbatim>\<open>get_options\<close> ends, never stores outside the array, keeps its length and
  returns a position inside the string. With a range the array can be left: the string \<^verbatim>\<open>"1-9"\<close> is stored
  past the end of an array of four integers, although its size is passed.\<close>

theorem get_options_bounds:
  assumes "is_cstr s" "1 \<le> nints" "nints \<le> int (length ints)"
  shows "(45 \<notin> set s \<longrightarrow> (\<exists>t ints'. get_options s nints ints = Some (t, ints') \<and> length ints' = length ints \<and> suffix t s \<and> is_cstr t))
    \<and> get_options [49, 45, 57, 0] 4 (replicate 4 0) = None"
proof -
  have "\<exists>t ints'. get_options s nints ints = Some (t, ints') \<and> length ints' = length ints \<and> suffix t s \<and> is_cstr t"
    if n: "45 \<notin> set s"
  proof -
    obtain j t ints' where "get_options_loop nints 1 s ints = Some (j, t, ints')" "length ints' = length ints" "suffix t s" "is_cstr t"
      using get_options_loop_safe [OF assms(1) n, of 1 nints ints] assms by auto
    then show ?thesis using assms(2,3) by (auto simp: get_options_def set_int_def)
  qed
  moreover have "get_options [49, 45, 57, 0] 4 (replicate 4 0) = None"
  proof -
    have t: "[49, 45, 57, 0] = dec_text 1 @ 45 # dec_text 9 @ 0 # []"
      by (simp add: dec_text_def digits.simps digit_char_def digit_tab_def)
    have "is_cstr (45 # dec_text 9 @ 0 # [])" by (simp add: is_cstr_def)
    then have "get_option_str [49, 45, 57, 0] (replicate 4 0) 1 = Some (3, 45 # dec_text 9 @ 0 # [], (replicate 4 0)[1 := 1])"
      unfolding t using dec.get_option_pr [of 45 "dec_text 9 @ 0 # []" 1 "replicate 4 0" 1] by simp
    moreover have "get_range (45 # dec_text 9 @ 0 # []) ((replicate 4 0)[1 := 1]) 1 = None"
      using dec.strtol_pr [of 0 "[]" 9] by (simp add: get_range_def numeral_eq_Suc get_range_loop.simps set_int_def)
    ultimately have "get_options_loop 4 1 [49, 45, 57, 0] (replicate 4 0) = None" by (subst get_options_loop.simps) simp
    then show ?thesis by (simp add: get_options_def)
  qed
  ultimately show ?thesis by blast
qed

theorem get_options_bounds_witness:
  "is_cstr [55, 0] \<and> (\<exists>t ints'. get_options [55, 0] 2 [0, 0] = Some (t, ints') \<and> length ints' = 2)"
  using get_options_bounds [of "[55, 0]" 2 "[0, 0]"] by auto

end
