(* ===== verification/Bitmap_Text.thy ===== *)
theory Bitmap_Text
  imports Vsnprintf Cmdline Bitmap_Inline
begin

unbundle bit_operations_syntax

text \<open>Printing and parsing of bitmaps of \<^verbatim>\<open>lib/bitmap.c\<close>: hexadecimal chunks of 32 bits and lists of decimal ranges. The
  printing functions append to a buffer with \<^verbatim>\<open>scnprintf\<close>.\<close>

section \<open>Printing\<close>

text \<open>The call \<^verbatim>\<open>len += scnprintf(buf + len, buflen - len, fmt, args)\<close>; a position outside the buffer is \<open>None\<close>.\<close>

definition scn_append :: "ksyms \<Rightarrow> u32 \<Rightarrow> u32 \<Rightarrow> u8 list \<Rightarrow> va list \<Rightarrow> u32 \<times> u8 list \<Rightarrow> (u32 \<times> u8 list) option" where
  "scn_append ks buf buflen fmt args lm =
    (case lm of (len, m) \<Rightarrow>
      if unat len \<le> length m then do {
        (r, m', w) \<leftarrow> scnprintf ks (buf + len) (drop (unat len) m) (buflen - len) fmt args;
        Some (len + r, take (unat len) m @ m') }
      else None)"

text \<open>A string literal as an argument, and the formats \<^verbatim>\<open>"%s%0*lx"\<close>, \<^verbatim>\<open>","\<close>, \<^verbatim>\<open>"%d"\<close> and \<^verbatim>\<open>"%d-%d"\<close>.\<close>

definition fmt_hex :: "u8 list" where "fmt_hex = [37, 115, 37, 48, 42, 108, 120, 0]"
definition fmt_comma :: "u8 list" where "fmt_comma = [44, 0]"
definition fmt_d :: "u8 list" where "fmt_d = [37, 100, 0]"
definition fmt_range :: "u8 list" where "fmt_range = [37, 100, 45, 37, 100, 0]"

definition CHUNKSZ :: nat where "CHUNKSZ = 32"

text \<open>The loop of \<^verbatim>\<open>bitmap_scnprintf\<close> from the chunk at bit \<open>32 * k\<close> down; \<open>k\<close> counts the chunks that are left.\<close>

fun scn_chunks :: "ksyms \<Rightarrow> u32 \<Rightarrow> u32 \<Rightarrow> ulong list \<Rightarrow> nat \<Rightarrow> nat \<Rightarrow> u8 list \<Rightarrow> u32 \<times> u8 list \<Rightarrow> (u32 \<times> u8 list) option" where
  "scn_chunks ks buf buflen maskp 0 chunksz sep lm = Some lm"
| "scn_chunks ks buf buflen maskp (Suc k) chunksz sep lm = do {
     let i = k * CHUNKSZ;
     let chunkmask = (ucast (push_bit chunksz (1 :: u64) - 1) :: u32);
     let val = drop_bit (i mod BITS_PER_LONG) (maskp ! (i div BITS_PER_LONG)) AND chunkmask;
     lm \<leftarrow> scn_append ks buf buflen fmt_hex [VPtr (lit sep), VInt (of_nat ((chunksz + 3) div 4)), VInt val] lm;
     scn_chunks ks buf buflen maskp k CHUNKSZ [44] lm }"

definition bitmap_scnprintf :: "ksyms \<Rightarrow> u32 \<Rightarrow> u8 list \<Rightarrow> u32 \<Rightarrow> ulong list \<Rightarrow> nat \<Rightarrow> (u32 \<times> u8 list) option" where
  "bitmap_scnprintf ks buf m buflen maskp nmaskbits =
    (let chunksz = nmaskbits mod CHUNKSZ;
         chunksz = (if chunksz = 0 then CHUNKSZ else chunksz)
     in scn_chunks ks buf buflen maskp ((nmaskbits + CHUNKSZ - 1) div CHUNKSZ) chunksz [] (0, m))"

definition bscnl_emit :: "ksyms \<Rightarrow> u32 \<Rightarrow> u32 \<Rightarrow> nat \<Rightarrow> nat \<Rightarrow> u32 \<times> u8 list \<Rightarrow> (u32 \<times> u8 list) option" where
  "bscnl_emit ks buf buflen rbot rtop lm = do {
     lm \<leftarrow> (if 0 < sint (fst lm) then scn_append ks buf buflen fmt_comma [] lm else Some lm);
     if rbot = rtop then scn_append ks buf buflen fmt_d [VInt (of_nat rbot)] lm
     else scn_append ks buf buflen fmt_range [VInt (of_nat rbot), VInt (of_nat rtop)] lm }"

lemma next_bit_less: "cur < n \<Longrightarrow> n - find_next_bit maskp n (Suc cur) < n - cur"
  using find_next_bit_next [of maskp n "Suc cur"] by (auto simp: is_next_def)

function scnl_loop :: "ksyms \<Rightarrow> u32 \<Rightarrow> u32 \<Rightarrow> ulong list \<Rightarrow> nat \<Rightarrow> nat \<Rightarrow> nat \<Rightarrow> u32 \<times> u8 list \<Rightarrow> (u32 \<times> u8 list) option" where
  "scnl_loop ks buf buflen maskp n rbot cur lm =
    (if cur < n then
       let rtop = cur; cur = find_next_bit maskp n (cur + 1)
       in if cur \<ge> n \<or> cur > rtop + 1
          then (case bscnl_emit ks buf buflen rbot rtop lm of None \<Rightarrow> None
                | Some lm \<Rightarrow> scnl_loop ks buf buflen maskp n cur cur lm)
          else scnl_loop ks buf buflen maskp n rbot cur lm
     else Some lm)"
  by pat_completeness auto
termination
  by (relation "measure (\<lambda>(ks, buf, buflen, maskp, n, rbot, cur, lm). n - cur)") (simp_all add: next_bit_less)

declare scnl_loop.simps [simp del]

definition bitmap_scnlistprintf :: "ksyms \<Rightarrow> u32 \<Rightarrow> u8 list \<Rightarrow> u32 \<Rightarrow> ulong list \<Rightarrow> nat \<Rightarrow> (u32 \<times> u8 list) option" where
  "bitmap_scnlistprintf ks buf m buflen maskp nmaskbits =
    (if buflen = 0 then Some (0, m)
     else do {
       m \<leftarrow> store m 0 0;
       let cur = find_first_bit maskp nmaskbits;
       scnl_loop ks buf buflen maskp nmaskbits cur cur (0, m) })"

section \<open>Parsing\<close>

definition unhex :: "u8 \<Rightarrow> u32" where
  "unhex c = (if isdigit c then ucast c - 48 else ucast (toupper c) - 65 + 10)"

text \<open>The input of \<^verbatim>\<open>__bitmap_parse\<close> is the list of the \<^verbatim>\<open>buflen\<close> bytes of the buffer; a byte that faults is \<open>None\<close>, which is
  \<^verbatim>\<open>-EFAULT\<close> for a buffer of the user. The inner loop gives the rest, the last character, the digits so far and
  of this chunk, and the chunk.\<close>

fun parse_chunk :: "bool \<Rightarrow> u8 option list \<Rightarrow> u8 \<Rightarrow> nat \<Rightarrow> nat \<Rightarrow> u32 \<Rightarrow> (u8 option list \<times> u8 \<times> nat \<times> nat \<times> u32) kresult option" where
  "parse_chunk is_user [] c totaldigits ndigits chunk = Some (Inr ([], c, totaldigits, ndigits, chunk))"
| "parse_chunk is_user (None # buf) old_c totaldigits ndigits chunk = (if is_user then Some (Inl EFAULT) else None)"
| "parse_chunk is_user (Some c # buf) old_c totaldigits ndigits chunk =
    (if isspace c then parse_chunk is_user buf c totaldigits ndigits chunk
     else if totaldigits \<noteq> 0 \<and> c \<noteq> 0 \<and> isspace old_c then Some (Inl EINVAL)
     else if c = 0 \<or> c = 44 then Some (Inr (buf, c, totaldigits, ndigits, chunk))
     else if \<not> isxdigit c then Some (Inl EINVAL)
     else if chunk AND NOT (push_bit (CHUNKSZ - 4) 1 - 1) \<noteq> 0 then Some (Inl EOVERFLOW)
     else parse_chunk is_user buf c (totaldigits + 1) (ndigits + 1) (push_bit 4 chunk OR unhex c))"

lemma parse_chunk_less:
  "parse_chunk is_user buf c t n ch = Some (Inr (buf', c', t', n', ch')) \<Longrightarrow> length buf' < length buf \<or> buf' = []"
  by (induction is_user buf c t n ch rule: parse_chunk.induct) (auto split: if_splits)

function parse_loop :: "bool \<Rightarrow> nat \<Rightarrow> u8 option list \<Rightarrow> u8 \<Rightarrow> nat \<Rightarrow> nat \<Rightarrow> nat \<Rightarrow> ulong list \<Rightarrow> (unit kresult \<times> ulong list) option" where
  "parse_loop is_user nmaskbits buf c totaldigits nchunks nbits maskp =
    (case parse_chunk is_user buf c totaldigits 0 0 of
       None \<Rightarrow> None
     | Some (Inl e) \<Rightarrow> Some (Inl e, maskp)
     | Some (Inr (buf', c, totaldigits, ndigits, chunk)) \<Rightarrow>
         if ndigits = 0 then Some (Inl EINVAL, maskp)
         else if nchunks = 0 \<and> chunk = 0 then
           if buf' \<noteq> [] \<and> c = 44 then parse_loop is_user nmaskbits buf' c totaldigits nchunks nbits maskp else Some (Inr (), maskp)
         else if maskp = [] then None
         else
           let maskp = lib_bitmap_shift_left True maskp maskp CHUNKSZ nmaskbits;
               maskp = maskp[0 := maskp ! 0 OR chunk];
               nchunks = nchunks + 1;
               nbits = nbits + (if nchunks = 1 then fls chunk else CHUNKSZ)
           in if nbits > nmaskbits then Some (Inl EOVERFLOW, maskp)
              else if buf' \<noteq> [] \<and> c = 44 then parse_loop is_user nmaskbits buf' c totaldigits nchunks nbits maskp
              else Some (Inr (), maskp))"
  by pat_completeness auto
termination
  by (relation "measure (\<lambda>(is_user, n, buf, c, t, nc, nb, m). length buf)") (auto dest: parse_chunk_less)

declare parse_loop.simps [simp del]

definition bitmap_parse :: "u8 option list \<Rightarrow> bool \<Rightarrow> ulong list \<Rightarrow> nat \<Rightarrow> (unit kresult \<times> ulong list) option" where
  "bitmap_parse buf is_user maskp nmaskbits =
    parse_loop is_user nmaskbits buf 0 0 0 0 (bitmap_zero False maskp nmaskbits)"

definition bitmap_parse_user :: "bool \<Rightarrow> u8 option list \<Rightarrow> ulong list \<Rightarrow> nat \<Rightarrow> (unit kresult \<times> ulong list) option" where
  "bitmap_parse_user access_ok ubuf maskp nmaskbits =
    (if \<not> access_ok then Some (Inl EFAULT, maskp) else bitmap_parse ubuf True maskp nmaskbits)"

text \<open>One round of \<^verbatim>\<open>bitmap_parselist\<close>: a number or a range, then its bits and a comma behind it.\<close>

definition parselist_range :: "u8 list \<Rightarrow> (u32 \<times> u32 \<times> u8 list) kresult option" where
  "parselist_range bp = do {
     c \<leftarrow> rd bp 0;
     if \<not> isdigit c then Some (Inl EINVAL)
     else do {
       (a, bp) \<leftarrow> simple_strtoul bp 10;
       c \<leftarrow> rd bp 0;
       if c = 45 then do {
         d \<leftarrow> rd bp 1;
         if \<not> isdigit d then Some (Inl EINVAL)
         else do { (b, bp) \<leftarrow> simple_strtoul (tl bp) 10; Some (Inr (a, b, bp)) } }
       else Some (Inr (a, a, bp)) } }"

definition parselist_item :: "u8 list \<Rightarrow> nat \<Rightarrow> ulong list \<Rightarrow> (u8 list kresult \<times> ulong list) option" where
  "parselist_item bp nmaskbits maskp =
    (case parselist_range bp of
       None \<Rightarrow> None
     | Some (Inl e) \<Rightarrow> Some (Inl e, maskp)
     | Some (Inr (a, b, bp)) \<Rightarrow>
         if \<not> a \<le> b then Some (Inl EINVAL, maskp)
         else if unat b \<ge> nmaskbits then Some (Inl ERANGE, maskp)
         else do {
           let maskp = fold set_bit_bm [unat a..<Suc (unat b)] maskp;
           c \<leftarrow> rd bp 0;
           Some (Inr (if c = 44 then tl bp else bp), maskp) })"

lemma strtoul_consumes:
  assumes "simple_strtoul s 10 = Some (v, t)" "rd s 0 = Some c" "isdigit c"
  shows "length t < length s"
proof -
  obtain r where s: "s = c # r" using assms(2) by (cases s) (auto simp: rd_def)
  have d: "isxdigit c" "digit_value c < 10" using assms(3) unfolding is_digit_of_10 [symmetric] by (simp_all add: is_digit_of_def)
  obtain v' where "simple_strtoull s 10 = Some (v', t)" using assms(1) by (auto simp: simple_strtoul_def)
  then have "\<exists>a. strtoull_loop 10 a r = Some (v', t)" using s d by (auto simp: simple_strtoull_def skip_0x_def Let_def split: if_splits)
  then show ?thesis using strtoull_loop_length s by fastforce
qed

lemma parselist_range_consumes:
  assumes "parselist_range bp = Some (Inr (a, b, r))"
  shows "length r < length bp"
proof -
  obtain c where c: "rd bp 0 = Some c" "isdigit c" using assms by (auto simp: parselist_range_def bind_eq_Some_conv split: if_splits)
  obtain a q where q: "simple_strtoul bp 10 = Some (a, q)" using assms c by (auto simp: parselist_range_def bind_eq_Some_conv)
  have "length q < length bp" by (rule strtoul_consumes [OF q c])
  moreover have "length r \<le> length q"
  proof -
    obtain d where d: "rd q 0 = Some d" using assms c q by (auto simp: parselist_range_def bind_eq_Some_conv)
    show ?thesis
    proof (cases "d = 45")
      case True
      then obtain b where "simple_strtoul (tl q) 10 = Some (b, r)"
        using assms c q d by (auto simp: parselist_range_def bind_eq_Some_conv split: if_splits)
      then show ?thesis using strtoull_length by (fastforce simp: simple_strtoul_def)
    next
      case False
      then show ?thesis using assms c q d by (auto simp: parselist_range_def)
    qed
  qed
  ultimately show ?thesis by simp
qed

lemma parselist_item_consumes:
  "parselist_item bp n maskp = Some (Inr r, maskp') \<Longrightarrow> length r < length bp"
  by (fastforce simp: parselist_item_def Let_def bind_eq_Some_conv split: option.splits sum.splits if_splits prod.splits
      dest: parselist_range_consumes)

function parselist_loop :: "u8 list \<Rightarrow> nat \<Rightarrow> ulong list \<Rightarrow> (unit kresult \<times> ulong list) option" where
  "parselist_loop bp nmaskbits maskp =
    (case parselist_item bp nmaskbits maskp of
       None \<Rightarrow> None
     | Some (Inl e, maskp) \<Rightarrow> Some (Inl e, maskp)
     | Some (Inr bp', maskp) \<Rightarrow>
         (case rd bp' 0 of None \<Rightarrow> None
          | Some c \<Rightarrow> if c \<noteq> 0 \<and> c \<noteq> 10 then parselist_loop bp' nmaskbits maskp else Some (Inr (), maskp)))"
  by pat_completeness auto
termination by (relation "measure (\<lambda>(bp, n, m). length bp)") (auto dest: parselist_item_consumes)

declare parselist_loop.simps [simp del]

definition bitmap_parselist :: "u8 list \<Rightarrow> ulong list \<Rightarrow> nat \<Rightarrow> (unit kresult \<times> ulong list) option" where
  "bitmap_parselist bp maskp nmaskbits = parselist_loop bp nmaskbits (bitmap_zero False maskp nmaskbits)"

section \<open>Appending text\<close>

text \<open>The buffer \<open>m\<close> and its length after the text \<open>t\<close> has been appended piecewise to \<open>m0\<close>, with \<open>B\<close> bytes reserved.\<close>

definition appended :: "nat \<Rightarrow> u8 list \<Rightarrow> u8 list \<Rightarrow> u32 \<times> u8 list \<Rightarrow> bool" where
  "appended B m0 t lm \<longleftrightarrow> fst lm = of_nat (min (length t) (B - 1)) \<and> length (snd lm) = length m0
    \<and> take (min (length t) (B - 1)) (snd lm) = take (B - 1) t
    \<and> drop (Suc (min (length t) (B - 1))) (snd lm) = drop (Suc (min (length t) (B - 1))) m0"

lemma scn_append_text:
  assumes a: "appended (unat buflen) m0 t (len, m)" and f: "format_text ks fmt args = Some (s, w)"
    and B: "0 < unat buflen" "unat buflen < 2 ^ 31" "unat buf + unat buflen < 2 ^ 32" "unat buflen \<le> length m0" and s: "length s < 2 ^ 32"
  shows "\<exists>m'. scn_append ks buf buflen fmt args (len, m) = Some (of_nat (min (length (t @ s)) (unat buflen - 1)), m')
    \<and> appended (unat buflen) m0 (t @ s) (of_nat (min (length (t @ s)) (unat buflen - 1)), m')
    \<and> m' ! min (length (t @ s)) (unat buflen - 1) = 0"
proof -
  define B where "B = unat buflen"
  define L where "L = min (length t) (B - 1)"
  have L: "len = of_nat L" "length m = length m0" "take L m = take (B - 1) t" "drop (Suc L) m = drop (Suc L) m0" "L < B"
    using a B(1) by (auto simp: appended_def L_def B_def)
  have uL: "unat len = L" using L B(2) by (simp add: B_def unat_of_nat_ulong)
  have le: "len \<le> buflen" using uL L(5) by (simp add: word_le_nat_alt B_def)
  have sz: "unat (buflen - len) = B - L" using le uL by (simp add: unat_sub B_def)
  have bf: "unat (buf + len) = unat buf + L" using uL B(3) L(5) by (subst unat_add_ulong) (simp_all add: B_def)
  have n0: "buflen - len \<noteq> 0" using sz L(5) by auto
  define M where "M = take (B - L - 1) s @ 0 # drop (min (B - L) (Suc (length s))) (drop L m)"
  have scn: "scnprintf ks (buf + len) (drop L m) (buflen - len) fmt args = Some (of_nat (min (length s) (B - L - 1)), M, w)"
    using scnprintf_text [OF f, of "buflen - len" "buf + len" "drop L m"] sz bf B L n0 s by (simp add: B_def [symmetric] M_def)
  have len': "min (length (t @ s)) (B - 1) = L + min (length s) (B - L - 1)" by (auto simp: L_def)
  have lenM: "length M = length m - L" using B(4) L(2,5) by (auto simp: M_def B_def)
  have app: "scn_append ks buf buflen fmt args (len, m) = Some (of_nat (L + min (length s) (B - L - 1)), take L m @ M)"
    using scn uL L(2,5) B(4) by (simp add: scn_append_def B_def L(1))
  let ?k = "min (length s) (B - L - 1)"
  have Ml: "L \<le> length m" using L(2,5) B(4) by (simp add: B_def)
  have tk: "take (B - 1) (t @ s) = take (B - 1) t @ take ?k s"
    by (auto simp: L_def min_def)
  have "length (take (B - 1) t) = L" by (simp add: L_def)
  then have nth: "(take L m @ M) ! (L + ?k) = 0" using Ml by (simp add: nth_append M_def L(3) min_def)
  have "take ?k M = take ?k s" by (simp add: M_def min.commute)
  moreover have "take (L + ?k) (take L m @ M) = take L m @ take ?k M" using Ml by (simp add: min_def)
  ultimately have tkM: "take (L + ?k) (take L m @ M) = take (B - 1) (t @ s)" unfolding tk L(3) by simp
  have "min (B - L) (Suc (length s)) = Suc ?k" using L(5) by auto
  then have "drop (Suc ?k) M = drop (Suc ?k) (drop L m)" by (simp add: M_def min_def)
  also have "\<dots> = drop ?k (drop (Suc L) m)" by (simp add: add.commute)
  also have "\<dots> = drop (Suc (L + ?k)) m0" unfolding L(4) by (simp add: add.commute)
  finally have drM: "drop (Suc (L + ?k)) (take L m @ M) = drop (Suc (L + ?k)) m0" using Ml by (simp add: add.commute)
  show ?thesis unfolding B_def [symmetric] len' app appended_def
    using nth tkM drM lenM Ml L(2) by (intro exI [of _ "take L m @ M"]) simp
qed

section \<open>Lists of ranges\<close>

definition range_text :: "nat \<times> nat \<Rightarrow> u8 list" where
  "range_text r = (if fst r = snd r then dec_text (fst r) else dec_text (fst r) @ 45 # dec_text (snd r))"

fun runs_text :: "(nat \<times> nat) list \<Rightarrow> u8 list" where
  "runs_text [] = []"
| "runs_text [r] = range_text r"
| "runs_text (r # rs) = range_text r @ 44 # runs_text rs"

text \<open>The maximal runs of set bits, as the loop finds them.\<close>

function list_runs :: "ulong list \<Rightarrow> nat \<Rightarrow> nat \<Rightarrow> nat \<Rightarrow> (nat \<times> nat) list" where
  "list_runs maskp n rbot cur =
    (if cur < n then
       let rtop = cur; cur = find_next_bit maskp n (cur + 1)
       in if cur \<ge> n \<or> cur > rtop + 1 then (rbot, rtop) # list_runs maskp n cur cur else list_runs maskp n rbot cur
     else [])"
  by pat_completeness auto
termination by (relation "measure (\<lambda>(maskp, n, rbot, cur). n - cur)") (simp_all add: next_bit_less)

declare list_runs.simps [simp del]

lemma list_runs_bits:
  assumes "cur < n \<longrightarrow> rbot \<le> cur \<and> (\<forall>i\<in>{rbot..cur}. test_bit i maskp)"
  shows "(\<Union>r\<in>set (list_runs maskp n rbot cur). {fst r..snd r}) = (if cur < n then {i. rbot \<le> i \<and> i < n \<and> test_bit i maskp} else {})
    \<and> (\<forall>r\<in>set (list_runs maskp n rbot cur). fst r \<le> snd r \<and> snd r < n)"
  using assms
proof (induction maskp n rbot cur rule: list_runs.induct)
  case (1 maskp n rbot cur)
  show ?case
  proof (cases "cur < n")
    case False
    then show ?thesis by (simp add: list_runs.simps [of maskp n rbot cur])
  next
    case c: True
    define nx where "nx = find_next_bit maskp n (cur + 1)"
    have nx: "nx \<le> n" "nx < n \<longrightarrow> cur < nx \<and> test_bit nx maskp" "\<And>i. cur < i \<Longrightarrow> i < nx \<Longrightarrow> \<not> test_bit i maskp"
      using find_next_bit_next [of maskp n "cur + 1"] by (auto simp: is_next_def nx_def)
    have eq: "list_runs maskp n rbot cur = (if nx \<ge> n \<or> nx > cur + 1 then (rbot, cur) # list_runs maskp n nx nx else list_runs maskp n rbot nx)"
      using c by (subst list_runs.simps) (simp only: nx_def Let_def if_True)
    show ?thesis
    proof (cases "nx \<ge> n \<or> nx > cur + 1")
      case True
      have ih: "(\<Union>r\<in>set (list_runs maskp n nx nx). {fst r..snd r}) = (if nx < n then {i. nx \<le> i \<and> i < n \<and> test_bit i maskp} else {})
          \<and> (\<forall>r\<in>set (list_runs maskp n nx nx). fst r \<le> snd r \<and> snd r < n)"
        by (rule "1.IH"(1) [OF c refl nx_def True]) (use nx in auto)
      have "{i. rbot \<le> i \<and> i < n \<and> test_bit i maskp} = {rbot..cur} \<union> (if nx < n then {i. nx \<le> i \<and> i < n \<and> test_bit i maskp} else {})"
        using nx c "1.prems" by (auto simp: not_le) (meson leI le_less_trans not_less)+
      then show ?thesis using ih c True "1.prems" unfolding eq by simp
    next
      case False
      then have n1: "nx = cur + 1" "nx < n" using nx by auto
      then have "\<forall>i\<in>{rbot..nx}. test_bit i maskp" using nx c "1.prems" by (auto simp: le_Suc_eq)
      then have "(\<Union>r\<in>set (list_runs maskp n rbot nx). {fst r..snd r}) = (if nx < n then {i. rbot \<le> i \<and> i < n \<and> test_bit i maskp} else {})
          \<and> (\<forall>r\<in>set (list_runs maskp n rbot nx). fst r \<le> snd r \<and> snd r < n)"
        by (intro "1.IH"(2) [OF c refl nx_def False]) (use n1 c "1.prems" in auto)
      then show ?thesis using c False n1 unfolding eq by simp
    qed
  qed
qed

subsection \<open>The texts that are printed\<close>

lemma dec_number_text:
  assumes "a < 2 ^ 31"
  shows "number_text (scast (of_nat a :: u32)) \<lparr>sp_flags = 2, sp_base = 10, field_width = -1, precision = -1\<rparr> = dec_text a"
proof -
  have u: "unat (of_nat a :: u32) = a" using assms by (intro unat_of_nat_ulong) simp
  have "sint (of_nat a :: u32) = int a" using sint_small [of "of_nat a"] u assms by simp
  then have s: "(scast (of_nat a :: u32) :: u64) = of_nat a" by (simp add: scast_eq)
  have u64: "unat (of_nat a :: u64) = a" using assms by (simp add: unat_of_nat)
  have "sint (of_nat a :: u64) = int a" using assms u64 by (simp add: sint_uint uint_nat signed_take_bit_int_eq_self)
  then show ?thesis unfolding s
    by (simp add: number_text_def sign_text_def prefix_text_def digit_text_def magnitude_def u64 dec_text_def flag_defs rev_map)
qed

lemma format_range:
  assumes "a < 2 ^ 31" "b < 2 ^ 31"
  shows "format_text ks fmt_comma [] = Some ([44], [])"
    "format_text ks fmt_d [VInt (of_nat a)] = Some (dec_text a, [])"
    "format_text ks fmt_range [VInt (of_nat a), VInt (of_nat b)] = Some (dec_text a @ 45 # dec_text b, [])"
proof -
  show "format_text ks fmt_comma [] = Some ([44], [])"
    unfolding format_text_def txt_start_def vs_start_def fmt_comma_def by (subst txt_loop.simps) (simp add: fmt_eval txt_end)
  show "format_text ks fmt_d [VInt (of_nat a)] = Some (dec_text a, [])"
    using format_d [of ks "of_nat a"] dec_number_text [OF assms(1)] by (simp add: fmt_d_def flag_defs)
  show "format_text ks fmt_range [VInt (of_nat a), VInt (of_nat b)] = Some (dec_text a @ 45 # dec_text b, [])"
    unfolding format_text_def txt_start_def vs_start_def fmt_range_def
    by (subst txt_loop.simps, simp add: fmt_eval, subst txt_loop.simps, simp add: fmt_eval, subst txt_loop.simps)
      (simp add: fmt_eval txt_end dec_number_text [OF assms(1)] dec_number_text [OF assms(2)])
qed

lemma length_dec_text: "a < 2 ^ 31 \<Longrightarrow> length (dec_text a) \<le> 10"
  using length_digits [of 10 a 9] by (simp add: dec_text_def)

definition join :: "u8 list \<Rightarrow> u8 list \<Rightarrow> u8 list" where
  "join t s = (if t = [] then s else t @ 44 # s)"

lemma appended_one: "appended 1 m0 t lm \<longleftrightarrow> appended 1 m0 t' lm"
  by (simp add: appended_def)

text \<open>The conditions under which the printing functions are called: a reserved area inside the buffer, which does not wrap.\<close>

definition buf_ok :: "u32 \<Rightarrow> u32 \<Rightarrow> u8 list \<Rightarrow> bool" where
  "buf_ok buf buflen m \<longleftrightarrow> 0 < unat buflen \<and> unat buflen < 2 ^ 31 \<and> unat buf + unat buflen < 2 ^ 32 \<and> unat buflen \<le> length m"

definition terminated :: "u32 \<times> u8 list \<Rightarrow> bool" where
  "terminated lm \<longleftrightarrow> snd lm ! unat (fst lm) = 0"

lemma scn_append_ok:
  assumes "appended (unat buflen) m0 t lm" "format_text ks fmt args = Some (s, w)" "buf_ok buf buflen m0" "length s < 2 ^ 32"
  shows "\<exists>lm'. scn_append ks buf buflen fmt args lm = Some lm' \<and> appended (unat buflen) m0 (t @ s) lm' \<and> terminated lm'"
proof -
  obtain len m where lm: "lm = (len, m)" by (cases lm)
  let ?n = "min (length (t @ s)) (unat buflen - 1)"
  have "?n < 2 ^ 32" using assms(3) by (auto simp: buf_ok_def min_def)
  then have "unat (of_nat ?n :: u32) = ?n" by (rule unat_of_nat_ulong)
  then show ?thesis using scn_append_text [of buflen m0 t len m ks fmt args s w buf] assms by (auto simp: lm buf_ok_def terminated_def)
qed

lemma appended_facts:
  assumes "appended (unat buflen) m t (len, m')" "terminated (len, m')" "buf_ok buf buflen m"
  shows "unat len < unat buflen" "m' ! unat len = 0" "length m' = length m" "drop (unat buflen) m' = drop (unat buflen) m"
    "unat len + 1 < unat buflen \<Longrightarrow> \<exists>r. m' = t @ 0 # r"
proof -
  let ?B = "unat buflen"
  define L where "L = min (length t) (?B - 1)"
  have B: "0 < ?B" "?B < 2 ^ 31" "?B \<le> length m" using assms(3) by (auto simp: buf_ok_def)
  have a: "unat len = L" "length m' = length m" "take L m' = take (?B - 1) t" "drop (Suc L) m' = drop (Suc L) m" "L < ?B"
    using assms(1) B by (auto simp: appended_def L_def unat_of_nat_ulong)
  show "unat len < ?B" "length m' = length m" using a by simp_all
  show z: "m' ! unat len = 0" using assms(2) by (simp add: terminated_def)
  have "drop ?B m' = drop (?B - Suc L) (drop (Suc L) m')" using a(5) by simp
  then show "drop ?B m' = drop ?B m" unfolding a(4) using a(5) by simp
  show "\<exists>r. m' = t @ 0 # r" if "unat len + 1 < ?B"
  proof -
    have "take L m' = t" using that a(1,3) by (simp add: L_def)
    moreover have "L < length m'" using a(2,5) B(3) by simp
    ultimately show ?thesis using id_take_nth_drop [of L m'] a(1) z by (intro exI [of _ "drop (Suc L) m'"]) simp
  qed
qed

lemma bscnl_emit_ok:
  assumes a: "appended (unat buflen) m0 t lm" and ok: "buf_ok buf buflen m0" and r: "fst r < 2 ^ 31" "snd r < 2 ^ 31"
  shows "\<exists>lm'. bscnl_emit ks buf buflen (fst r) (snd r) lm = Some lm' \<and> appended (unat buflen) m0 (join t (range_text r)) lm' \<and> terminated lm'"
proof -
  note f = format_range [OF r]
  have l: "length (range_text r) < 2 ^ 32" using length_dec_text [OF r(1)] length_dec_text [OF r(2)] by (simp add: range_text_def)
  let ?n = "min (length t) (unat buflen - 1)"
  have "?n < 2 ^ 31" using ok by (auto simp: buf_ok_def min_def)
  moreover have fst: "fst lm = of_nat ?n" using a by (simp add: appended_def)
  ultimately have "sint (fst lm) = int ?n" using sint_small [of "fst lm"] by (simp add: unat_of_nat_ulong)
  then have pos: "0 < sint (fst lm) \<longleftrightarrow> t \<noteq> [] \<and> 1 < unat buflen" by auto
  define sep where "sep = (if t \<noteq> [] \<and> 1 < unat buflen then [44] else [] :: u8 list)"
  have "\<exists>lm1. (if 0 < sint (fst lm) then scn_append ks buf buflen fmt_comma [] lm else Some lm) = Some lm1
    \<and> appended (unat buflen) m0 (t @ sep) lm1"
  proof (cases "t \<noteq> [] \<and> 1 < unat buflen")
    case True
    then show ?thesis using scn_append_ok [OF a f(1) ok] unfolding pos sep_def by fastforce
  next
    case False
    then have "\<not> 0 < sint (fst lm)" "sep = []" unfolding pos sep_def by auto
    then show ?thesis using a by (intro exI [of _ lm]) simp
  qed
  then obtain lm1 where lm1: "(if 0 < sint (fst lm) then scn_append ks buf buflen fmt_comma [] lm else Some lm) = Some lm1"
    "appended (unat buflen) m0 (t @ sep) lm1" by blast
  have "\<exists>lm'. bscnl_emit ks buf buflen (fst r) (snd r) lm = Some lm' \<and> appended (unat buflen) m0 ((t @ sep) @ range_text r) lm' \<and> terminated lm'"
    using scn_append_ok [OF lm1(2) f(2) ok] scn_append_ok [OF lm1(2) f(3) ok] l lm1(1)
    by (cases "fst r = snd r") (simp_all add: bscnl_emit_def range_text_def)
  moreover have "appended (unat buflen) m0 ((t @ sep) @ range_text r) lm' = appended (unat buflen) m0 (join t (range_text r)) lm'" for lm'
  proof (cases "t \<noteq> [] \<and> unat buflen = 1")
    case True
    then show ?thesis using appended_one by simp
  next
    case False
    then have "t = [] \<or> 1 < unat buflen" using ok by (auto simp: buf_ok_def)
    then show ?thesis by (auto simp: join_def sep_def)
  qed
  ultimately show ?thesis by simp
qed

lemma join_runs: "rs \<noteq> [] \<Longrightarrow> foldl (\<lambda>t r. join t (range_text r)) t rs = join t (runs_text rs)"
proof (induction rs arbitrary: t rule: runs_text.induct)
  case (3 r r' rs)
  have "range_text r \<noteq> []" by (simp add: range_text_def dec_text_def)
  then have "join t (range_text r) \<noteq> []" by (simp add: join_def)
  then show ?case using "3.IH" [of "join t (range_text r)"] by (simp add: join_def)
qed simp_all

lemma scnl_loop_ok:
  assumes "n \<le> 2 ^ 31" "buf_ok buf buflen m0" "cur < n \<longrightarrow> rbot \<le> cur"
    and "appended (unat buflen) m0 t lm" "terminated lm"
  shows "\<exists>lm'. scnl_loop ks buf buflen maskp n rbot cur lm = Some lm' \<and> terminated lm'
    \<and> appended (unat buflen) m0 (foldl (\<lambda>t r. join t (range_text r)) t (list_runs maskp n rbot cur)) lm'"
  using assms
proof (induction maskp n rbot cur arbitrary: t lm rule: list_runs.induct)
  case (1 maskp n rbot cur)
  show ?case
  proof (cases "cur < n")
    case False
    then show ?thesis using "1.prems" by (simp add: list_runs.simps [of maskp n rbot cur] scnl_loop.simps [of ks buf buflen maskp n rbot cur])
  next
    case c: True
    define nx where "nx = find_next_bit maskp n (cur + 1)"
    have eq: "list_runs maskp n rbot cur = (if nx \<ge> n \<or> nx > cur + 1 then (rbot, cur) # list_runs maskp n nx nx else list_runs maskp n rbot nx)"
      using c by (subst list_runs.simps) (simp only: nx_def Let_def if_True)
    have eq': "scnl_loop ks buf buflen maskp n rbot cur lm = (if nx \<ge> n \<or> nx > cur + 1
        then (case bscnl_emit ks buf buflen rbot cur lm of None \<Rightarrow> None | Some lm \<Rightarrow> scnl_loop ks buf buflen maskp n nx nx lm)
        else scnl_loop ks buf buflen maskp n rbot nx lm)" for lm
      using c by (subst scnl_loop.simps) (simp only: nx_def Let_def if_True)
    show ?thesis
    proof (cases "nx \<ge> n \<or> nx > cur + 1")
      case True
      obtain lm1 where lm1: "bscnl_emit ks buf buflen rbot cur lm = Some lm1" "appended (unat buflen) m0 (join t (range_text (rbot, cur))) lm1" "terminated lm1"
        using bscnl_emit_ok [OF "1.prems"(4,2), of "(rbot, cur)" ks] "1.prems"(1,3) c by auto
      from "1.IH"(1) [OF c refl nx_def True "1.prems"(1,2) _ lm1(2,3)] lm1(1) True show ?thesis unfolding eq eq' by simp
    next
      case False
      have "cur < nx" using find_next_bit_next [of maskp n "cur + 1"] c False by (auto simp: is_next_def nx_def)
      then have "nx < n \<longrightarrow> rbot \<le> nx" using "1.prems"(3) c by simp
      from "1.IH"(2) [OF c refl nx_def False "1.prems"(1,2) this "1.prems"(4,5)] False show ?thesis unfolding eq eq' by simp
    qed
  qed
qed

lemma bitmap_scnlistprintf_text:
  assumes "n \<le> 2 ^ 31" "buf_ok buf buflen m"
  shows "\<exists>lm. bitmap_scnlistprintf ks buf m buflen maskp n = Some lm \<and> terminated lm
    \<and> appended (unat buflen) m (runs_text (list_runs maskp n (find_first_bit maskp n) (find_first_bit maskp n))) lm"
proof -
  obtain x m' where m: "m = x # m'" using assms(2) by (cases m) (auto simp: buf_ok_def)
  have a: "appended (unat buflen) m [] (0, m[0 := 0])" "terminated (0, m[0 := 0])" by (simp_all add: appended_def terminated_def m)
  let ?f = "find_first_bit maskp n"
  have "buflen \<noteq> 0" using assms(2) by (auto simp: buf_ok_def)
  moreover have "foldl (\<lambda>t r. join t (range_text r)) [] rs = runs_text rs" for rs
    using join_runs [of rs "[]"] by (cases "rs = []") (simp_all add: join_def)
  ultimately show ?thesis using scnl_loop_ok [OF assms _ a, of ?f ?f ks maskp] m by (simp add: bitmap_scnlistprintf_def store_def Let_def)
qed

subsection \<open>Parsing it back\<close>

lemma strtoul_dec:
  assumes "is_cstr (e # r)" "\<not> isdigit e" "n < 2 ^ 32"
  shows "simple_strtoul (dec_text n @ e # r) 10 = Some (of_nat n, e # r)"
proof -
  let ?s = "dec_text n @ e # r"
  have h: "\<forall>c\<in>set (dec_text n). is_digit_of 10 c"
    using digits_lt [of 10] digit_char_is_digit [of _ 10] by (auto simp: dec_text_def)
  have e: "\<not> is_digit_of 10 e" using assms(2) by (simp add: is_digit_of_10)
  have "is_cstr ?s" using assms(1) by (auto simp: is_cstr_def)
  then have "simple_strtoull ?s 10 = Some (of_nat n, e # r)"
    using strtoull_cstr(2) [of ?s 10] takeWhile_digits [OF h e] numeral_value_digits [of 10 0 n] by (simp add: dec_text_def)
  moreover have "(ucast (of_nat n :: u64) :: u32) = of_nat n"
    by (intro word_unat_eq_iff [THEN iffD2]) (simp add: unsigned_ucast_eq unat_of_nat take_bit_eq_mod mod_mod_cancel)
  ultimately show ?thesis by (simp add: simple_strtoul_def)
qed

lemma dec_text_digit: "\<exists>c cs. dec_text n = c # cs \<and> isdigit c"
proof -
  obtain c cs where c: "dec_text n = c # cs" by (cases "dec_text n") (auto simp: dec_text_def)
  then have "c \<in> set (dec_text n)" by simp
  then have "is_digit_of 10 c" using digits_lt [of 10] digit_char_is_digit [of _ 10] by (auto simp: dec_text_def)
  then show ?thesis using c by (simp add: is_digit_of_10)
qed

lemma parselist_range_text:
  assumes "is_cstr (e # r)" "e = 0 \<or> e = 44" "fst ab < 2 ^ 32" "snd ab < 2 ^ 32"
  shows "parselist_range (range_text ab @ e # r) = Some (Inr (of_nat (fst ab), of_nat (snd ab), e # r))"
proof -
  have e: "\<not> isdigit e" "e \<noteq> 45" using assms(2) by (auto simp: isdigit_iff)
  obtain c cs where c: "dec_text (fst ab) = c # cs" "isdigit c" using dec_text_digit by blast
  obtain d ds where d: "dec_text (snd ab) = d # ds" "isdigit d" using dec_text_digit by blast
  show ?thesis
  proof (cases "fst ab = snd ab")
    case True
    then show ?thesis using strtoul_dec [OF assms(1) e(1) assms(3)] c e by (simp add: parselist_range_def range_text_def rd_def)
  next
    case False
    have "is_cstr (45 # dec_text (snd ab) @ e # r)" using assms(1) by (auto simp: is_cstr_def)
    then have "simple_strtoul (dec_text (fst ab) @ 45 # dec_text (snd ab) @ e # r) 10 =
        Some (of_nat (fst ab), 45 # dec_text (snd ab) @ e # r)" by (rule strtoul_dec) (use assms(3) in \<open>simp_all add: isdigit_iff\<close>)
    then show ?thesis using False strtoul_dec [OF assms(1) e(1) assms(4)] c d by (simp add: parselist_range_def range_text_def rd_def)
  qed
qed

abbreviation set_range :: "nat \<times> nat \<Rightarrow> ulong list \<Rightarrow> ulong list" where
  "set_range ab maskp \<equiv> fold set_bit_bm [fst ab..<Suc (snd ab)] maskp"

lemma parselist_item_text:
  assumes "is_cstr (e # r)" "e = 0 \<or> e = 44" "fst ab \<le> snd ab" "snd ab < n" "n \<le> 2 ^ 31"
  shows "parselist_item (range_text ab @ e # r) n maskp = Some (Inr (if e = 44 then r else e # r), set_range ab maskp)"
proof -
  have u: "unat (of_nat (fst ab) :: u32) = fst ab" "unat (of_nat (snd ab) :: u32) = snd ab"
    using assms(3-5) by (simp_all add: unat_of_nat_ulong)
  have "parselist_range (range_text ab @ e # r) = Some (Inr (of_nat (fst ab), of_nat (snd ab), e # r))"
    by (rule parselist_range_text) (use assms in auto)
  then show ?thesis using u assms(3,4) by (simp add: parselist_item_def word_le_nat_alt rd_def del: upt_Suc)
qed

lemma runs_text_head: "rs \<noteq> [] \<Longrightarrow> \<exists>c cs. runs_text rs = c # cs \<and> isdigit c"
proof -
  assume "rs \<noteq> []"
  moreover obtain c cs where "dec_text (fst (hd rs)) = c # cs" "isdigit c" using dec_text_digit by blast
  ultimately show ?thesis by (cases rs rule: runs_text.cases) (auto simp: range_text_def)
qed

lemma parselist_runs:
  assumes "rs \<noteq> []" "\<forall>r\<in>set rs. fst r \<le> snd r \<and> snd r < n" "n \<le> 2 ^ 31"
  shows "parselist_loop (runs_text rs @ 0 # r) n maskp = Some (Inr (), fold set_range rs maskp)"
  using assms
proof (induction rs arbitrary: maskp rule: runs_text.induct)
  case (2 ab)
  have "parselist_item (range_text ab @ 0 # r) n maskp = Some (Inr (0 # r), set_range ab maskp)"
    using parselist_item_text [of 0 r ab n maskp] 2 by (simp add: is_cstr_def del: upt_Suc)
  then show ?case by (subst parselist_loop.simps) (simp add: rd_def del: upt_Suc)
next
  case (3 ab ab' rs)
  let ?t = "runs_text (ab' # rs) @ 0 # r"
  obtain c cs where c: "runs_text (ab' # rs) = c # cs" "isdigit c" using runs_text_head by blast
  have "parselist_item (range_text ab @ 44 # ?t) n maskp = Some (Inr ?t, set_range ab maskp)"
    using parselist_item_text [of 44 ?t ab n maskp] 3 by (simp add: is_cstr_def del: upt_Suc)
  moreover have "c \<noteq> 0" "c \<noteq> 10" using c(2) by (auto simp: isdigit_iff)
  moreover have "parselist_loop ?t n (set_range ab maskp) = Some (Inr (), fold set_range (ab' # rs) (set_range ab maskp))"
    using 3 by (intro "3.IH") auto
  ultimately show ?case using c by (subst parselist_loop.simps) (simp add: rd_def del: upt_Suc)
qed simp

lemma length_set_range [simp]: "length (fold set_bit_bm is maskp) = length maskp"
  by (induction "is" arbitrary: maskp) auto

lemma test_bit_set_list:
  "\<forall>i\<in>set is. i < 32 * length maskp \<Longrightarrow> test_bit j (fold set_bit_bm is maskp) \<longleftrightarrow> j \<in> set is \<or> test_bit j maskp"
  by (induction "is" arbitrary: maskp) (auto simp: test_bit_set_bit less_mult_imp_div_less mult.commute)

lemma test_bit_set_runs:
  assumes "\<forall>r\<in>set rs. snd r < 32 * length maskp"
  shows "test_bit j (fold set_range rs maskp) \<longleftrightarrow> j \<in> (\<Union>r\<in>set rs. {fst r..snd r}) \<or> test_bit j maskp"
  using assms
proof (induction rs arbitrary: maskp)
  case (Cons r rs)
  have "test_bit j (set_range r maskp) \<longleftrightarrow> fst r \<le> j \<and> j \<le> snd r \<or> test_bit j maskp"
    using Cons.prems test_bit_set_list [of "[fst r..<Suc (snd r)]" maskp j] by (auto simp del: upt_Suc)
  then show ?case using Cons by (auto simp del: upt_Suc)
qed simp

abbreviation mask_runs :: "ulong list \<Rightarrow> nat \<Rightarrow> (nat \<times> nat) list" where
  "mask_runs maskp n \<equiv> list_runs maskp n (find_first_bit maskp n) (find_first_bit maskp n)"

lemma mask_runs_bits:
  "(\<Union>r\<in>set (mask_runs maskp n). {fst r..snd r}) = bits_of maskp n" "\<forall>r\<in>set (mask_runs maskp n). fst r \<le> snd r \<and> snd r < n"
proof -
  let ?f = "find_first_bit maskp n"
  have nx: "is_next (\<lambda>i. test_bit i maskp) n 0 ?f" unfolding find_first_bit_eq by (rule find_next_bit_next)
  then have f: "?f < n \<longrightarrow> ?f \<le> ?f \<and> (\<forall>i\<in>{?f..?f}. test_bit i maskp)" by (auto simp: is_next_def)
  have "(if ?f < n then {i. ?f \<le> i \<and> i < n \<and> test_bit i maskp} else {}) = bits_of maskp n"
    using nx by (auto simp: is_next_def bits_of_def not_le [symmetric])
  then show "(\<Union>r\<in>set (mask_runs maskp n). {fst r..snd r}) = bits_of maskp n" "\<forall>r\<in>set (mask_runs maskp n). fst r \<le> snd r \<and> snd r < n"
    using list_runs_bits [OF f] by simp_all
qed

lemma mask_runs_empty: "mask_runs maskp n = [] \<longleftrightarrow> bits_of maskp n = {}"
  using mask_runs_bits [of maskp n] by (cases "mask_runs maskp n") force+

lemma bitmap_parselist_runs:
  assumes "n \<le> 2 ^ 31" "n \<le> 32 * length dst"
  shows "\<exists>res dst'. bitmap_parselist (runs_text (mask_runs maskp n) @ 0 # r) dst n = Some (res, dst')
    \<and> res = (if bits_of maskp n = {} then Inl EINVAL else Inr ()) \<and> bits_of dst' n = bits_of maskp n"
proof (cases "bits_of maskp n = {}")
  case True
  have "isdigit 0 = False" by (simp add: isdigit_iff)
  then show ?thesis using True mask_runs_empty [of maskp n] bits_of_zero [OF assms(2), of False]
    by (simp add: bitmap_parselist_def parselist_loop.simps [of "0 # r"] parselist_item_def parselist_range_def rd_def)
next
  case False
  let ?z = "bitmap_zero False dst n" and ?rs = "mask_runs maskp n"
  have "parselist_loop (runs_text ?rs @ 0 # r) n ?z = Some (Inr (), fold set_range ?rs ?z)"
    using parselist_runs mask_runs_bits(2) mask_runs_empty False assms(1) by blast
  moreover have "bits_of (fold set_range ?rs ?z) n = bits_of maskp n"
  proof -
    have "\<forall>r\<in>set ?rs. snd r < 32 * length ?z" using mask_runs_bits(2) [of maskp n] assms(2) by (auto simp: bitmap_zero_def)
    then show ?thesis using test_bit_set_runs [of ?rs ?z] mask_runs_bits(1) [of maskp n] bits_of_zero [OF assms(2), of False]
      unfolding bits_of_def by auto
  qed
  ultimately show ?thesis using False by (simp add: bitmap_parselist_def)
qed

text \<open>C14: \<^verbatim>\<open>bitmap_scnlistprintf\<close> never writes past the reserved bytes and always terminates its text, and what it prints without
  truncation \<^verbatim>\<open>bitmap_parselist\<close> reads back as the same bits, whatever the destination held. The empty bitmap is the exception:
  it prints as the empty string, which \<^verbatim>\<open>bitmap_parselist\<close> rejects with \<open>EINVAL\<close>.\<close>

theorem bitmap_list_roundtrip:
  assumes "n \<le> 2 ^ 31" "buf_ok buf buflen m" "n \<le> 32 * length dst"
  shows "\<exists>len m'. bitmap_scnlistprintf ks buf m buflen maskp n = Some (len, m')
    \<and> unat len < unat buflen \<and> m' ! unat len = 0 \<and> length m' = length m \<and> drop (unat buflen) m' = drop (unat buflen) m
    \<and> (unat len + 1 < unat buflen \<longrightarrow>
        (\<exists>res dst'. bitmap_parselist m' dst n = Some (res, dst')
          \<and> res = (if bits_of maskp n = {} then Inl EINVAL else Inr ()) \<and> bits_of dst' n = bits_of maskp n))"
proof -
  let ?t = "runs_text (mask_runs maskp n)" and ?B = "unat buflen"
  obtain len m' where lm: "bitmap_scnlistprintf ks buf m buflen maskp n = Some (len, m')" "terminated (len, m')" "appended ?B m ?t (len, m')"
    using bitmap_scnlistprintf_text [OF assms(1,2), of ks maskp] by auto
  note a = appended_facts [OF lm(3,2) assms(2)]
  show ?thesis
  proof (cases "unat len + 1 < ?B")
    case True
    then obtain r where "m' = ?t @ 0 # r" using a(5) by blast
    then show ?thesis using bitmap_parselist_runs [OF assms(1,3), of maskp r] lm(1) a by simp
  qed (use lm(1) a in simp)
qed

text \<open>The bits 0, 2, 3 and 5 as \<^verbatim>\<open>"0,2-3,5"\<close>.\<close>

lemma runs_example: "runs_text (mask_runs [0x2D] 8) = [48, 44, 50, 45, 51, 44, 53]"
proof -
  have n: "find_next_bit [0x2D] 8 0 = 0" "find_next_bit [0x2D] 8 (Suc 0) = 2" "find_next_bit [0x2D] 8 3 = 3"
    "find_next_bit [0x2D] 8 4 = 5" "find_next_bit [0x2D] 8 6 = 8"
    by (simp_all add: find_next_bit_def ffs0_def ffs_step_def Let_def found_first_def mask_eq_exp_minus_1 find_bit_loop.simps)
  have "mask_runs [0x2D] 8 = [(0, 0), (2, 3), (5, 5)]"
    by (simp add: find_first_bit_eq n list_runs.simps)
  then show ?thesis by (simp add: range_text_def dec_text_def digits.simps digit_char_def digit_tab_def)
qed

theorem bitmap_list_roundtrip_witness:
  "\<exists>m' dst'. bitmap_scnlistprintf \<lparr>sprint_symbol = \<lambda>v. [0], kallsyms_lookup = \<lambda>v. [0]\<rparr> 0x1000 (replicate 16 1) 16 [0x2D] 8 = Some (7, m')
    \<and> bitmap_parselist m' [0xFFFF] 8 = Some (Inr (), dst') \<and> bits_of dst' 8 = bits_of [0x2D] 8"
proof -
  let ?ks = "\<lparr>sprint_symbol = \<lambda>v. [0], kallsyms_lookup = \<lambda>v. [0]\<rparr>"
  have b: "buf_ok 0x1000 16 (replicate 16 1)" by (simp add: buf_ok_def)
  have "fst lm = 7" if "bitmap_scnlistprintf ?ks 0x1000 (replicate 16 1) 16 [0x2D] 8 = Some lm" for lm
    using bitmap_scnlistprintf_text [OF _ b, of 8 ?ks "[0x2D]"] that by (simp add: appended_def runs_example)
  moreover have "0 \<in> bits_of [0x2D] 8" by (simp add: bits_of_def test_bit_def BIT_WORD_def)
  ultimately show ?thesis using bitmap_list_roundtrip [OF _ b, of 8 "[0xFFFF]" ?ks "[0x2D]"] by fastforce
qed

end
