(* ===== verification/Bitmap_Hex.thy ===== *)
theory Bitmap_Hex
  imports Bitmap_Text
begin

unbundle bit_operations_syntax

text \<open>The hexadecimal format of \<^verbatim>\<open>bitmap_scnprintf\<close> and \<^verbatim>\<open>__bitmap_parse\<close>: chunks of 32 bits, the most significant first,
  separated by commas. What the first prints the second reads back.\<close>

section \<open>One chunk\<close>

definition pad_digits :: "nat \<Rightarrow> nat \<Rightarrow> nat list" where
  "pad_digits w v = replicate (w - length (digits 16 v)) 0 @ rev (digits 16 v)"

definition chunk_text :: "nat \<Rightarrow> nat \<Rightarrow> u8 list" where
  "chunk_text w v = map (digit_char 32) (pad_digits w v)"

lemma digit_char_zero: "digit_char 32 0 = 48"
  by (simp add: digit_char_def digit_tab_def)

lemma chunk_width:
  assumes "w \<le> 8"
  shows "sint (ucast (of_nat w :: u32) :: 16 word) = int w"
proof -
  have "w \<in> {0, 1, 2, 3, 4, 5, 6, 7, 8}" using assms by auto
  then show ?thesis by auto
qed

lemma hex_number_text:
  assumes "w \<le> 8"
  shows "number_text (ucast (val :: u32)) \<lparr>sp_flags = 0x21, sp_base = 16, field_width = ucast (of_nat w :: u32), precision = -1\<rparr>
    = chunk_text w (unat val)"
proof -
  have "unat (ucast val :: u64) = unat val" using unat_ulong_lt [of val] by (simp add: unsigned_ucast_eq take_bit_nat_eq_self)
  then show ?thesis
    by (simp add: chunk_width [OF assms] number_text_def sign_text_def prefix_text_def digit_text_def magnitude_def flag_defs chunk_text_def pad_digits_def
        digit_char_zero rev_map nat_diff_distrib')
qed

lemma format_hex:
  assumes "w \<le> 8" "sep = [] \<or> sep = [44]"
  shows "format_text ks fmt_hex [VPtr (lit sep), VInt (of_nat w), VInt val] = Some (sep @ chunk_text w (unat val), [])"
proof -
  have sep: "string_text (lit sep) \<lparr>sp_flags = 0, sp_base = 10, field_width = -1, precision = -1\<rparr> = Some sep"
    proof -
    have u: "unat (-1 :: u32) = 4294967295" by (simp add: unsigned_minus_1_eq_mask mask_eq_exp_minus_1)
    show ?thesis using assms(2) strnlen_cstr [of "sep @ [0]" "unat (-1 :: u32)"] unfolding u
      by (auto simp: string_text_def lit_def is_cstr_def u)
  qed
  show ?thesis
    unfolding format_text_def txt_start_def vs_start_def fmt_hex_def
    by (subst txt_loop.simps, simp add: fmt_eval sep, subst txt_loop.simps, simp add: fmt_eval, subst txt_loop.simps)
      (simp add: fmt_eval txt_end hex_number_text [OF assms(1)] chunk_width [OF assms(1)])
qed

lemma unhex_digit: "d < 16 \<Longrightarrow> unhex (digit_char 32 d) = of_nat d"
proof -
  assume "d < 16"
  then have "d \<in> set [0, 1, 2, 3, 4, 5, 6, 7, 8, 9, 10, 11, 12, 13, 14, 15]" by simp presburger
  moreover have "\<forall>d\<in>set [0, 1, 2, 3, 4, 5, 6, 7, 8, 9, 10, 11, 12, 13, 14, 15]. unhex (digit_char 32 d) = of_nat d"
    by (simp add: digit_char_def digit_tab_def unhex_def isdigit_iff toupper_def islower_iff)
  ultimately show ?thesis by blast
qed

lemma hex_digit_facts:
  assumes "d < 16"
  shows "isxdigit (digit_char 32 d)" "\<not> isspace (digit_char 32 d)" "digit_char 32 d \<noteq> 0" "digit_char 32 d \<noteq> 44"
proof -
  show x: "isxdigit (digit_char 32 d)" using digit_char_value [OF assms] by simp
  show "\<not> isspace (digit_char 32 d)" using x unfolding isxdigit_iff isspace_iff by linarith
  show "digit_char 32 d \<noteq> 0" "digit_char 32 d \<noteq> 44" using x by (auto simp: isxdigit_iff)
qed

lemma chunk_room:
  assumes "a < 2 ^ 28"
  shows "(of_nat a :: u32) AND NOT (push_bit (CHUNKSZ - 4) 1 - 1) = 0"
proof -
  have t: "take_bit 28 (of_nat a :: u32) = of_nat a" using assms by (simp add: take_bit_of_nat take_bit_nat_eq_self)
  have "push_bit (CHUNKSZ - 4) (1 :: u32) - 1 = mask 28" by (simp add: CHUNKSZ_def mask_eq_exp_minus_1)
  then show ?thesis by (subst t [symmetric]) (simp add: take_bit_eq_mask bit_eq_iff bit_simps)
qed

lemma chunk_shift:
  assumes "d < 16"
  shows "push_bit 4 (of_nat a :: u32) OR of_nat d = of_nat (a * 16 + d)"
proof -
  have "take_bit 4 (of_nat d :: u32) = of_nat d" using assms by (simp add: take_bit_of_nat take_bit_nat_eq_self)
  then have "bit (of_nat d :: u32) n \<Longrightarrow> n < 4" for n by (metis bit_take_bit_iff)
  then have "push_bit 4 (of_nat a :: u32) + of_nat d = push_bit 4 (of_nat a :: u32) OR of_nat d"
    by (intro disjunctive_add) (auto simp: bit_push_bit_iff not_less [symmetric])
  then show ?thesis by (simp add: push_bit_eq_mult mult.commute)
qed

lemma foldl_hex_mono: "x \<le> foldl (\<lambda>v d. v * 16 + d) x ds" for x :: nat
proof (induction ds arbitrary: x)
  case (Cons d ds)
  have "x \<le> x * 16 + d" by simp
  also have "\<dots> \<le> foldl (\<lambda>v d. v * 16 + d) (x * 16 + d) ds" by (rule Cons)
  finally show ?case by simp
qed simp

lemma parse_digits:
  assumes "\<forall>d\<in>set ds. d < 16" "a < 2 ^ 32" "e = 0 \<or> e = 44" "\<not> isspace c"
    and "foldl (\<lambda>v d. v * 16 + d) a ds < 2 ^ 32"
  shows "parse_chunk u (map (Some \<circ> digit_char 32) ds @ Some e # buf) c t k (of_nat a) =
    Some (Inr (buf, e, t + length ds, k + length ds, of_nat (foldl (\<lambda>v d. v * 16 + d) a ds)))"
  using assms
proof (induction ds arbitrary: a c t k)
  case Nil
  then show ?case by (auto simp: isspace_iff)
next
  case (Cons d ds)
  have lt: "a * 16 + d < 2 ^ 32" using foldl_hex_mono [of "a * 16 + d" ds] Cons.prems(5) by simp
  then have a: "a < 2 ^ 28" by simp
  have d: "d < 16" using Cons.prems by simp
  have "parse_chunk u (map (Some \<circ> digit_char 32) ds @ Some e # buf) (digit_char 32 d) (t + 1) (k + 1) (of_nat (a * 16 + d)) =
      Some (Inr (buf, e, t + 1 + length ds, k + 1 + length ds, of_nat (foldl (\<lambda>v d. v * 16 + d) (a * 16 + d) ds)))"
    using Cons.prems lt hex_digit_facts(2) by (intro Cons.IH) auto
  then show ?case using chunk_room [OF a] chunk_shift [OF d] hex_digit_facts [OF d] unhex_digit [OF d] Cons.prems(4) by (simp add: o_def)
qed

lemma pad_digits_facts:
  assumes "v < 16 ^ w" "0 < w"
  shows "\<forall>d\<in>set (pad_digits w v). d < 16" "length (pad_digits w v) = w" "foldl (\<lambda>v d. v * 16 + d) 0 (pad_digits w v) = v"
proof -
  have "length (digits 16 v) \<le> w" using length_digits [of 16 v "w - 1"] assms by simp
  then show "length (pad_digits w v) = w" by (simp add: pad_digits_def)
  show "\<forall>d\<in>set (pad_digits w v). d < 16" using digits_lt [of 16 _ v] by (auto simp: pad_digits_def)
  have "foldl (\<lambda>v d. v * 16 + d) 0 (replicate n 0) = (0 :: nat)" for n by (induction n) auto
  then show "foldl (\<lambda>v d. v * 16 + d) 0 (pad_digits w v) = v"
    using digits_value [of 16 v] by (simp add: pad_digits_def foldl_conv_foldr)
qed

lemma parse_chunk_text:
  assumes "v < 16 ^ w" "0 < w" "v < 2 ^ 32" "e = 0 \<or> e = 44" "\<not> isspace c"
  shows "parse_chunk u (map Some (chunk_text w v) @ Some e # buf) c t 0 0 = Some (Inr (buf, e, t + w, w, of_nat v))"
  using parse_digits [of "pad_digits w v" 0 e c u buf t 0] pad_digits_facts [OF assms(1,2)] assms by (simp add: chunk_text_def)

section \<open>The chunks of a bitmap\<close>

definition chunk_size :: "nat \<Rightarrow> nat \<Rightarrow> nat" where
  "chunk_size n k = min 32 (n - 32 * k)"

definition chunk_val :: "ulong list \<Rightarrow> nat \<Rightarrow> nat \<Rightarrow> u32" where
  "chunk_val maskp n k = maskp ! k AND mask (chunk_size n k)"

fun bitmap_hex :: "ulong list \<Rightarrow> nat \<Rightarrow> nat \<Rightarrow> u8 list" where
  "bitmap_hex maskp n 0 = []"
| "bitmap_hex maskp n (Suc k) =
    chunk_text ((chunk_size n k + 3) div 4) (unat (chunk_val maskp n k)) @ (if k = 0 then [] else 44 # bitmap_hex maskp n k)"

lemma bit_chunk_val: "bit (chunk_val maskp n k) i \<longleftrightarrow> i < 32 \<and> i + 32 * k < n \<and> test_bit (i + 32 * k) maskp"
proof (cases "i < 32")
  case True
  then have "(i + 32 * k) div 32 = k" "(i + 32 * k) mod 32 = i" by simp_all
  then show ?thesis using True by (auto simp: chunk_val_def chunk_size_def test_bit_iff bit_simps)
qed (auto simp: bit_word_simps dest: bit_imp_le_length)

lemma chunk_val_lt: "unat (chunk_val maskp n k) < 2 ^ chunk_size n k" "unat (chunk_val maskp n k) < 2 ^ 32"
proof -
  have "chunk_val maskp n k = take_bit (chunk_size n k) (maskp ! k)" by (simp add: chunk_val_def take_bit_eq_mask)
  then have "unat (chunk_val maskp n k) = take_bit (chunk_size n k) (unat (maskp ! k))" by (simp add: unsigned_take_bit_eq)
  then show "unat (chunk_val maskp n k) < 2 ^ chunk_size n k" by (simp add: take_bit_nat_less_exp)
  show "unat (chunk_val maskp n k) < 2 ^ 32" by (rule unat_ulong_lt)
qed

lemma chunk_val_width: "unat (chunk_val maskp n k) < 16 ^ ((chunk_size n k + 3) div 4)"
proof -
  have "unat (chunk_val maskp n k) < 2 ^ chunk_size n k" by (rule chunk_val_lt)
  also have "\<dots> \<le> 2 ^ (4 * ((chunk_size n k + 3) div 4))" by (intro power_increasing) simp_all
  finally show ?thesis by (simp add: power_mult)
qed

lemma chunk_digits: "32 * k < n \<Longrightarrow> 0 < (chunk_size n k + 3) div 4"
proof -
  assume "32 * k < n"
  then have "1 \<le> chunk_size n k" by (simp add: chunk_size_def)
  then show ?thesis by simp
qed

lemma fls_chunk_val: "fls (chunk_val maskp n k) \<le> chunk_size n k"
proof (cases "chunk_val maskp n k = 0")
  case False
  then have "bit (chunk_val maskp n k) (fls0 (chunk_val maskp n k))" using fls0_correct by blast
  then show ?thesis using False by (auto simp: fls_correct bit_chunk_val chunk_size_def)
qed (simp add: fls_correct)

subsection \<open>Printing\<close>

lemma chunk_mask:
  assumes "c \<le> 32"
  shows "(ucast (push_bit c (1 :: u64) - 1) :: u32) = mask c"
proof -
  have "push_bit c (1 :: u64) - 1 = mask c" by (simp add: mask_eq_exp_minus_1)
  then show ?thesis using assms by (auto simp: bit_eq_iff bit_simps)
qed

lemma scn_chunks_ok:
  assumes "buf_ok buf buflen m0" "appended (unat buflen) m0 t lm" "sep = [] \<or> sep = [44]"
    and "0 < k \<longrightarrow> chunksz = chunk_size n (k - 1) \<and> 32 * (k - 1) < n"
  shows "\<exists>lm'. scn_chunks ks buf buflen maskp k chunksz sep lm = Some lm' \<and> (0 < k \<longrightarrow> terminated lm')
    \<and> appended (unat buflen) m0 (t @ (if k = 0 then [] else sep @ bitmap_hex maskp n k)) lm'"
  using assms
proof (induction k arbitrary: chunksz sep t lm)
  case (Suc k)
  let ?w = "(chunk_size n k + 3) div 4" and ?v = "chunk_val maskp n k"
  let ?s = "sep @ chunk_text ?w (unat ?v)"
  have c: "chunksz = chunk_size n k" "chunk_size n k \<le> 32" using Suc.prems(4) by (simp_all add: chunk_size_def)
  then have w: "?w \<le> 8" by simp
  have v: "drop_bit (k * CHUNKSZ mod 32) (maskp ! (k * CHUNKSZ div 32)) AND ucast (push_bit chunksz (1 :: u64) - 1) = ?v"
    unfolding c(1) chunk_mask [OF c(2)] by (simp add: CHUNKSZ_def chunk_val_def)
  have "0 < ?w" using Suc.prems(4) chunk_digits by simp
  then have "length ?s < 2 ^ 32" using Suc.prems(3) w pad_digits_facts(2) [OF chunk_val_width] by (auto simp: chunk_text_def)
  then obtain lm1 where lm1: "scn_append ks buf buflen fmt_hex [VPtr (lit sep), VInt (of_nat ?w), VInt ?v] lm = Some lm1"
      "appended (unat buflen) m0 (t @ ?s) lm1" "terminated lm1"
    using scn_append_ok [OF Suc.prems(2) format_hex [OF w Suc.prems(3)] Suc.prems(1)] by blast
  have "0 < k \<longrightarrow> CHUNKSZ = chunk_size n (k - 1) \<and> 32 * (k - 1) < n"
    using Suc.prems(4) by (auto simp: chunk_size_def CHUNKSZ_def)
  from Suc.IH [OF Suc.prems(1) lm1(2) _ this, of "[44]"] obtain lm' where lm': "scn_chunks ks buf buflen maskp k CHUNKSZ [44] lm1 = Some lm'"
      "0 < k \<longrightarrow> terminated lm'" "appended (unat buflen) m0 ((t @ ?s) @ (if k = 0 then [] else [44] @ bitmap_hex maskp n k)) lm'" by blast
  have "k = 0 \<longrightarrow> lm' = lm1" using lm'(1) by auto
  then have "terminated lm'" using lm'(2) lm1(3) by auto
  moreover have "scn_chunks ks buf buflen maskp (Suc k) chunksz sep lm = Some lm'"
    unfolding scn_chunks.simps(2) Let_def v unfolding c(1) using lm1(1) lm'(1) by simp
  ultimately show ?case using lm'(3) by (cases "k = 0") auto
qed simp

subsection \<open>Parsing\<close>

lemma test_bit_chunk_step:
  assumes "0 < n" "n \<le> 32 * length D" "i < n"
  defines "D1 \<equiv> lib_bitmap_shift_left True D D CHUNKSZ n"
  shows "test_bit i (D1[0 := D1 ! 0 OR v]) \<longleftrightarrow> 32 \<le> i \<and> test_bit (i - 32) D \<or> i < 32 \<and> bit v i"
proof -
  have l: "0 < length D1" using assms(1,2) by (cases D) (simp_all add: D1_def lib_bitmap_shift_left_def Let_def)
  have "1 \<le> BITS_TO_LONGS n" using assms(1) by (simp add: BITS_TO_LONGS_def)
  then have t: "test_bit i D1 \<longleftrightarrow> i < n \<and> 32 \<le> i \<and> test_bit (i - 32) D"
    unfolding D1_def shift_left_inplace using assms BITS_TO_LONGS_ge [of n]
    by (subst test_bit_shift_left) (simp_all add: CHUNKSZ_def)
  then show ?thesis using assms(3) unfolding test_bit_update [OF l]
    by (auto simp: bit_or_iff test_bit_iff [of i D1])
qed

text \<open>The state in front of the last \<open>k\<close> chunks: the destination holds the bits that were read, shifted down.\<close>

definition parse_inv :: "ulong list \<Rightarrow> nat \<Rightarrow> nat \<Rightarrow> nat \<Rightarrow> nat \<Rightarrow> ulong list \<Rightarrow> bool" where
  "parse_inv maskp n k nchunks nbits D \<longleftrightarrow>
    (\<forall>i<n. test_bit i D \<longleftrightarrow> i + 32 * k < n \<and> test_bit (i + 32 * k) maskp) \<and> n \<le> 32 * length D
    \<and> (if nchunks = 0 then nbits = 0 \<and> (\<forall>i<n. 32 * k \<le> i \<longrightarrow> \<not> test_bit i maskp) else nbits + 32 * k \<le> n)"

lemma parse_inv_skip:
  assumes "parse_inv maskp n (Suc k) 0 nbits D" "chunk_val maskp n k = 0"
  shows "parse_inv maskp n k 0 nbits D"
proof -
  have z: "\<not> test_bit i maskp" if "i < n" "32 * k \<le> i" for i
  proof (cases "32 * Suc k \<le> i")
    case False
    then have "\<not> bit (chunk_val maskp n k) (i - 32 * k)" "i - 32 * k < 32" using assms(2) that by auto
    then show ?thesis using that by (simp add: bit_chunk_val)
  qed (use assms(1) that in \<open>simp add: parse_inv_def\<close>)
  then show ?thesis using assms(1) by (auto simp: parse_inv_def)
qed

lemma parse_inv_step:
  assumes "parse_inv maskp n (Suc k) nchunks nbits D" "32 * k < n" "nchunks = 0 \<longrightarrow> chunk_val maskp n k \<noteq> 0"
  defines "D1 \<equiv> lib_bitmap_shift_left True D D CHUNKSZ n"
  shows "parse_inv maskp n k (Suc nchunks) (nbits + (if nchunks = 0 then fls (chunk_val maskp n k) else CHUNKSZ)) (D1[0 := D1 ! 0 OR chunk_val maskp n k])"
proof -
  have n: "n \<le> 32 * length D" using assms(1) by (simp add: parse_inv_def)
  have "test_bit i (D1[0 := D1 ! 0 OR chunk_val maskp n k]) \<longleftrightarrow> i + 32 * k < n \<and> test_bit (i + 32 * k) maskp" if "i < n" for i
  proof -
    have "test_bit (i - 32) D \<longleftrightarrow> i + 32 * k < n \<and> test_bit (i + 32 * k) maskp" if "32 \<le> i"
    proof -
      have "i - 32 < n" "i - 32 + 32 * Suc k = i + 32 * k" using \<open>i < n\<close> that by simp_all
      then show ?thesis using assms(1) unfolding parse_inv_def by metis
    qed
    then show ?thesis using test_bit_chunk_step [OF _ n that, of "chunk_val maskp n k"] that unfolding D1_def [symmetric]
      by (cases "i < 32") (auto simp: bit_chunk_val)
  qed
  moreover have "nbits + (if nchunks = 0 then fls (chunk_val maskp n k) else CHUNKSZ) + 32 * k \<le> n"
    using assms(1,2) fls_chunk_val [of maskp n k] by (auto simp: parse_inv_def CHUNKSZ_def chunk_size_def split: if_splits)
  ultimately show ?thesis using n by (simp add: parse_inv_def D1_def lib_bitmap_shift_left_def Let_def)
qed

lemma parse_inv_done: "parse_inv maskp n 0 nchunks nbits D \<Longrightarrow> bits_of D n = bits_of maskp n"
  by (auto simp: parse_inv_def bits_of_def)

lemma parse_loop_round:
  assumes "parse_inv maskp n (Suc k) nchunks nbits D" "32 * k < n" "\<not> isspace c" "e = 0 \<or> e = 44"
  defines "w \<equiv> (chunk_size n k + 3) div 4" and "v \<equiv> chunk_val maskp n k"
  shows "\<exists>nc nb D'. parse_inv maskp n k nc nb D'
    \<and> parse_loop u n (map Some (chunk_text w (unat v)) @ Some e # buf) c t nchunks nbits D =
      (if buf \<noteq> [] \<and> e = 44 then parse_loop u n buf e (t + w) nc nb D' else Some (Inr (), D'))"
proof -
  have w: "0 < w" "unat v < 16 ^ w" using chunk_digits [OF assms(2)] chunk_val_width by (simp_all add: w_def v_def)
  have "parse_chunk u (map Some (chunk_text w (unat v)) @ Some e # buf) c t 0 0 = Some (Inr (buf, e, t + w, w, v))"
    using parse_chunk_text [OF w(2,1) unat_ulong_lt assms(4,3)] by simp
  note eq = parse_loop.simps [of u n "map Some (chunk_text w (unat v)) @ Some e # buf" c t nchunks nbits D, unfolded this]
  show ?thesis
  proof (cases "nchunks = 0 \<and> v = 0")
    case True
    then have i: "parse_inv maskp n k nchunks nbits D" using parse_inv_skip assms(1) by (auto simp: v_def)
    have "parse_loop u n (map Some (chunk_text w (unat v)) @ Some e # buf) c t nchunks nbits D =
        (if buf \<noteq> [] \<and> e = 44 then parse_loop u n buf e (t + w) nchunks nbits D else Some (Inr (), D))"
      unfolding eq using True w(1) by simp
    with i show ?thesis by blast
  next
    case False
    let ?D1 = "lib_bitmap_shift_left True D D CHUNKSZ n"
    let ?nb = "nbits + (if nchunks = 0 then fls v else CHUNKSZ)"
    have i: "parse_inv maskp n k (Suc nchunks) ?nb (?D1[0 := ?D1 ! 0 OR v])"
      using parse_inv_step [OF assms(1,2)] False by (auto simp: v_def)
    then have nb: "\<not> n < ?nb" by (simp add: parse_inv_def)
    have "D \<noteq> []" using assms(1,2) by (auto simp: parse_inv_def)
    then show ?thesis using False w(1) i nb
      by (intro exI [of _ "Suc nchunks"] exI [of _ ?nb] exI [of _ "?D1[0 := ?D1 ! 0 OR v]"]) (auto simp: eq Let_def)
  qed
qed

lemma parse_loop_text:
  assumes "parse_inv maskp n (Suc k) nchunks nbits D" "32 * k < n" "\<not> isspace c"
  shows "\<exists>D'. parse_loop u n (map Some (bitmap_hex maskp n (Suc k)) @ Some 0 # r) c t nchunks nbits D = Some (Inr (), D')
    \<and> bits_of D' n = bits_of maskp n"
  using assms
proof (induction k arbitrary: nchunks nbits D c t)
  case 0
  from parse_loop_round [OF 0, of 0 u r t] show ?case using parse_inv_done by (auto simp: bitmap_hex.simps)
next
  case (Suc k)
  let ?b = "map Some (bitmap_hex maskp n (Suc k)) @ Some 0 # r" and ?w = "(chunk_size n (Suc k) + 3) div 4"
  obtain nc nb D' where r: "parse_inv maskp n (Suc k) nc nb D'"
      "parse_loop u n (map Some (chunk_text ?w (unat (chunk_val maskp n (Suc k)))) @ Some 44 # ?b) c t nchunks nbits D
        = parse_loop u n ?b 44 (t + ?w) nc nb D'"
    using parse_loop_round [OF Suc.prems, of 44 u ?b t] by auto
  have "\<not> isspace 44" "32 * k < n" using Suc.prems(2) by (simp_all add: isspace_iff)
  from Suc.IH [OF r(1) this(2,1), of "t + ?w"] show ?case using r(2) by (simp add: bitmap_hex.simps(2) [of _ _ "Suc k"])
qed

lemma chunk_count:
  assumes "0 < n"
  obtains k where "(n + 31) div 32 = Suc k" "32 * k < n" "n \<le> 32 * Suc k"
proof
  have "n + 31 = (n - 1) + 32" using assms by simp
  then show "(n + 31) div 32 = Suc ((n - 1) div 32)" by simp
  have "32 * ((n - 1) div 32) + (n - 1) mod 32 = n - 1" "(n - 1) mod 32 < 32" by simp_all
  then show "32 * ((n - 1) div 32) < n" "n \<le> 32 * Suc ((n - 1) div 32)" using assms unfolding mult_Suc_right by linarith+
qed

lemma first_chunk_size:
  assumes "32 * k < n" "n \<le> 32 * Suc k"
  shows "chunk_size n k = (if n mod 32 = 0 then 32 else n mod 32)"
proof -
  obtain j where j: "n = j + 32 * k" "0 < j" "j \<le> 32" using assms by (intro that [of "n - 32 * k"]) auto
  then show ?thesis by (cases "j = 32") (simp_all add: chunk_size_def)
qed

lemma bitmap_parse_text:
  assumes "0 < n" "n \<le> 32 * length dst"
  shows "\<exists>dst'. bitmap_parse (map Some (bitmap_hex maskp n ((n + 31) div 32)) @ Some 0 # r) u dst n = Some (Inr (), dst')
    \<and> bits_of dst' n = bits_of maskp n"
proof -
  obtain k where k: "(n + 31) div 32 = Suc k" "32 * k < n" "n \<le> 32 * Suc k" by (rule chunk_count [OF assms(1)])
  have "bits_of (bitmap_zero False dst n) n = {}" by (rule bits_of_zero [OF assms(2)])
  then have "parse_inv maskp n (Suc k) 0 0 (bitmap_zero False dst n)"
    using k(3) assms(2) by (auto simp: parse_inv_def bits_of_def bitmap_zero_def)
  from parse_loop_text [OF this k(2)] show ?thesis unfolding k(1) bitmap_parse_def by (simp add: isspace_iff)
qed

lemma bitmap_scnprintf_text:
  assumes "0 < n" "buf_ok buf buflen m"
  shows "\<exists>lm. bitmap_scnprintf ks buf m buflen maskp n = Some lm \<and> terminated lm
    \<and> appended (unat buflen) m (bitmap_hex maskp n ((n + 31) div 32)) lm"
proof -
  obtain k where k: "(n + 31) div 32 = Suc k" "32 * k < n" "n \<le> 32 * Suc k" by (rule chunk_count [OF assms(1)])
  have c: "chunk_size n k = (if n mod CHUNKSZ = 0 then CHUNKSZ else n mod CHUNKSZ)" "(n + CHUNKSZ - 1) div CHUNKSZ = Suc k"
    using first_chunk_size [OF k(2,3)] k(1) by (simp_all add: CHUNKSZ_def)
  have "appended (unat buflen) m [] (0, m)" by (simp add: appended_def)
  from scn_chunks_ok [OF assms(2) this, of "[]" "Suc k" "chunk_size n k" n ks maskp] k(2) obtain lm where
    lm: "scn_chunks ks buf buflen maskp (Suc k) (chunk_size n k) [] (0, m) = Some lm" "terminated lm"
      "appended (unat buflen) m (bitmap_hex maskp n (Suc k)) lm" by auto
  then have "bitmap_scnprintf ks buf m buflen maskp n = Some lm" by (simp only: bitmap_scnprintf_def Let_def c)
  then show ?thesis using lm k(1) by simp
qed

text \<open>The low 12 bits of 0x7A5F as \<^verbatim>\<open>"a5f"\<close>.\<close>

lemma hex_example: "bitmap_hex [0x7A5F] 12 (Suc 0) = [97, 53, 102]"
proof -
  have "chunk_size 12 0 = 12" "chunk_val [0x7A5F] 12 0 = 0xA5F" by (simp_all add: chunk_size_def chunk_val_def mask_eq_exp_minus_1)
  then show ?thesis by (simp add: chunk_text_def pad_digits_def digits.simps digit_char_def digit_tab_def)
qed

text \<open>C13: \<^verbatim>\<open>bitmap_scnprintf\<close> never writes past the reserved bytes and terminates its text, and what it prints without truncation
  \<^verbatim>\<open>__bitmap_parse\<close> reads back as the same bits, from a buffer of the kernel or of the user. Bits at and behind \<^verbatim>\<open>nmaskbits\<close>
  are not printed.\<close>

theorem bitmap_hex_roundtrip:
  assumes "0 < n" "buf_ok buf buflen m" "n \<le> 32 * length dst"
  shows "\<exists>len m'. bitmap_scnprintf ks buf m buflen maskp n = Some (len, m')
    \<and> unat len < unat buflen \<and> m' ! unat len = 0 \<and> length m' = length m \<and> drop (unat buflen) m' = drop (unat buflen) m
    \<and> (unat len + 1 < unat buflen \<longrightarrow>
        (\<exists>dst'. bitmap_parse (map Some m') u dst n = Some (Inr (), dst') \<and> bits_of dst' n = bits_of maskp n))"
proof -
  let ?t = "bitmap_hex maskp n ((n + 31) div 32)"
  obtain len m' where lm: "bitmap_scnprintf ks buf m buflen maskp n = Some (len, m')" "terminated (len, m')"
      "appended (unat buflen) m ?t (len, m')"
    using bitmap_scnprintf_text [OF assms(1,2), of ks maskp] by auto
  note a = appended_facts [OF lm(3,2) assms(2)]
  show ?thesis
  proof (cases "unat len + 1 < unat buflen")
    case True
    then obtain r where "m' = ?t @ 0 # r" using a(5) by blast
    then show ?thesis using bitmap_parse_text [OF assms(1,3), of maskp "map Some r" u] lm(1) a by simp
  qed (use lm(1) a in simp)
qed

theorem bitmap_hex_roundtrip_witness:
  "\<exists>m' dst'. bitmap_scnprintf \<lparr>sprint_symbol = \<lambda>v. [0], kallsyms_lookup = \<lambda>v. [0]\<rparr> 0x1000 (replicate 16 1) 16 [0x7A5F] 12 = Some (3, m')
    \<and> bitmap_parse (map Some m') True [0xFFFF] 12 = Some (Inr (), dst') \<and> bits_of dst' 12 = bits_of [0x7A5F] 12"
proof -
  let ?ks = "\<lparr>sprint_symbol = \<lambda>v. [0], kallsyms_lookup = \<lambda>v. [0]\<rparr>"
  have b: "buf_ok 0x1000 16 (replicate 16 1)" by (simp add: buf_ok_def)
  have "fst lm = 3" if "bitmap_scnprintf ?ks 0x1000 (replicate 16 1) 16 [0x7A5F] 12 = Some lm" for lm
    using bitmap_scnprintf_text [OF _ b, of 12 ?ks "[0x7A5F]"] that by (simp add: appended_def hex_example del: bitmap_hex.simps)
  then show ?thesis using bitmap_hex_roundtrip [OF _ b, of 12 "[0xFFFF]" ?ks "[0x7A5F]" True] by fastforce
qed

text \<open>With a reserved size of 0 the first chunk makes the length -1, and the second is printed in front of the buffer.\<close>

lemma bitmap_scnprintf_zero_size:
  assumes "32 < n" "length m < 2 ^ 32 - 1"
  shows "bitmap_scnprintf ks buf m 0 maskp n = None"
proof -
  define c where "c = (if n mod CHUNKSZ = 0 then CHUNKSZ else n mod CHUNKSZ)"
  have "0 < (n - 1) div 32" using assms(1) by (simp add: div_greater_zero_iff)
  moreover have "(n + CHUNKSZ - 1) div CHUNKSZ = Suc ((n - 1) div 32)"
    using assms(1) div_add_self2 [of 32 "n - 1"] by (simp add: CHUNKSZ_def)
  ultimately obtain k where k: "(n + CHUNKSZ - 1) div CHUNKSZ = Suc (Suc k)" by (metis gr0_implies_Suc)
  have w: "(c + 3) div 4 \<le> 8"
  proof -
    have "c \<le> 32" by (auto simp: c_def CHUNKSZ_def)
    then show ?thesis by simp
  qed
  have a: "scn_append ks buf 0 fmt_hex [VPtr (lit []), VInt (of_nat ((c + 3) div 4)), VInt v] (0, m) = Some (0xFFFFFFFF, m)" for v
    using vsnprintf_text [OF format_hex [OF w, of "[]" ks v], of 0 buf m] unat_ulong_lt [of buf]
    by (simp add: scn_append_def scnprintf_def)
  have "scn_append ks buf 0 fmt args (0xFFFFFFFF, m) = None" for fmt args
    using assms(2) by (simp add: scn_append_def)
  then show ?thesis unfolding bitmap_scnprintf_def Let_def k c_def [symmetric] scn_chunks.simps(2) a by simp
qed

end
