(* ===== verification/Ashmem.thy ===== *)
theory Ashmem
  imports Bitmap_Region
begin

text \<open>
  The anonymous shared memory driver, \<^verbatim>\<open>mm/ashmem.c\<close>: areas with a list of unpinned page ranges each, and
  one LRU list of the ranges that have not been purged. Pointers to areas, ranges and files are numbers;
  a linked list is the list of the addresses of its entries. Each operation runs under
  \<^verbatim>\<open>ashmem_mutex\<close> and is one function of the state.
\<close>

unbundle bit_operations_syntax

section \<open>Data\<close>

type_synonym aid = nat
type_synonym rid = nat
type_synonym fid = nat

abbreviation (input) ASHMEM_NAME_LEN :: nat where "ASHMEM_NAME_LEN \<equiv> 256"

text \<open>The bytes of \<^verbatim>\<open>"dev/ashmem/"\<close> and of \<^verbatim>\<open>"dev/ashmem"\<close> with its terminator.\<close>

definition ASHMEM_NAME_PREFIX :: "u8 list" where
  "ASHMEM_NAME_PREFIX = [0x64, 0x65, 0x76, 0x2F, 0x61, 0x73, 0x68, 0x6D, 0x65, 0x6D, 0x2F]"

abbreviation (input) ASHMEM_NAME_PREFIX_LEN :: nat where "ASHMEM_NAME_PREFIX_LEN \<equiv> 11"

abbreviation (input) ASHMEM_FULL_NAME_LEN :: nat where
  "ASHMEM_FULL_NAME_LEN \<equiv> ASHMEM_NAME_LEN + ASHMEM_NAME_PREFIX_LEN"

definition ASHMEM_NAME_DEF :: "u8 list" where
  "ASHMEM_NAME_DEF = [0x64, 0x65, 0x76, 0x2F, 0x61, 0x73, 0x68, 0x6D, 0x65, 0x6D, 0]"

record ashmem_area =
  area_name :: "u8 list"
  unpinned_list :: "rid list"
  area_file :: "fid option"
  area_size :: size_t
  vm_start :: ulong
  prot_mask :: ulong

text \<open>The field \<open>purged\<close> is true for \<^verbatim>\<open>ASHMEM_WAS_PURGED\<close>, the only other value that the code stores is
  \<^verbatim>\<open>ASHMEM_NOT_PURGED\<close>.\<close>

record ashmem_range =
  range_asma :: aid
  pgstart :: size_t
  pgend :: size_t
  purged :: bool

record kfile =
  f_count :: nat
  f_pos :: int

text \<open>
  The state of the driver: the areas and ranges that are allocated, the LRU list, the backing files
  and, as a log, the arguments of the calls of \<^verbatim>\<open>vmtruncate_range\<close>.
\<close>

record ashmem_state =
  areas :: "aid \<rightharpoonup> ashmem_area"
  ranges :: "rid \<rightharpoonup> ashmem_range"
  ashmem_lru_list :: "rid list"
  lru_count :: ulong
  files :: "fid \<rightharpoonup> kfile"
  truncated :: "(fid \<times> ulong \<times> ulong) list"

abbreviation (input) PAGE_SIZE :: ulong where "PAGE_SIZE \<equiv> 4096"

definition PAGE_ALIGN :: "ulong \<Rightarrow> ulong" where
  "PAGE_ALIGN addr = ALIGN_MASK addr (PAGE_SIZE - 1)"

definition range_size :: "ashmem_range \<Rightarrow> size_t" where
  "range_size r = pgend r - pgstart r + 1"

definition range_on_lru :: "ashmem_range \<Rightarrow> bool" where
  "range_on_lru r \<longleftrightarrow> \<not> purged r"

definition page_range_subsumes_range :: "ashmem_range \<Rightarrow> size_t \<Rightarrow> size_t \<Rightarrow> bool" where
  "page_range_subsumes_range r start stop \<longleftrightarrow> pgstart r \<ge> start \<and> pgend r \<le> stop"

definition page_range_subsumed_by_range :: "ashmem_range \<Rightarrow> size_t \<Rightarrow> size_t \<Rightarrow> bool" where
  "page_range_subsumed_by_range r start stop \<longleftrightarrow> pgstart r \<le> start \<and> pgend r \<ge> stop"

definition page_in_range :: "ashmem_range \<Rightarrow> size_t \<Rightarrow> bool" where
  "page_in_range r page \<longleftrightarrow> pgstart r \<le> page \<and> pgend r \<ge> page"

definition page_range_in_range :: "ashmem_range \<Rightarrow> size_t \<Rightarrow> size_t \<Rightarrow> bool" where
  "page_range_in_range r start stop \<longleftrightarrow>
    page_in_range r start \<or> page_in_range r stop \<or> page_range_subsumes_range r start stop"

definition range_before_page :: "ashmem_range \<Rightarrow> size_t \<Rightarrow> bool" where
  "range_before_page r page \<longleftrightarrow> pgend r < page"

section \<open>Ranges and the LRU list\<close>

abbreviation (input) range_at :: "ashmem_state \<Rightarrow> rid \<Rightarrow> ashmem_range" where
  "range_at s x \<equiv> the (ranges s x)"

abbreviation (input) area_at :: "ashmem_state \<Rightarrow> aid \<Rightarrow> ashmem_area" where
  "area_at s a \<equiv> the (areas s a)"

definition lru_add :: "rid \<Rightarrow> ashmem_state \<Rightarrow> ashmem_state" where
  "lru_add x s = s\<lparr>ashmem_lru_list := ashmem_lru_list s @ [x],
                   lru_count := lru_count s + range_size (range_at s x)\<rparr>"

definition lru_del :: "rid \<Rightarrow> ashmem_state \<Rightarrow> ashmem_state" where
  "lru_del x s = s\<lparr>ashmem_lru_list := remove1 x (ashmem_lru_list s),
                   lru_count := lru_count s - range_size (range_at s x)\<rparr>"

text \<open>
  \<^verbatim>\<open>list_add_tail(&range->unpinned, &prev_range->unpinned)\<close> links the new range in front of
  \<open>prev_range\<close>; when the loop of the caller ran to the end, \<open>prev_range\<close> stands for the list head
  (\<open>None\<close>) and the new range becomes the last one.
\<close>

fun insert_before :: "'a option \<Rightarrow> 'a \<Rightarrow> 'a list \<Rightarrow> 'a list" where
  "insert_before p x [] = [x]"
| "insert_before p x (y # ys) = (if p = Some y then x # y # ys else y # insert_before p x ys)"

definition upd_area :: "aid \<Rightarrow> (ashmem_area \<Rightarrow> ashmem_area) \<Rightarrow> ashmem_state \<Rightarrow> ashmem_state" where
  "upd_area a f s = s\<lparr>areas := (areas s)(a := map_option f (areas s a))\<rparr>"

text \<open>The result of \<^verbatim>\<open>kmem_cache_zalloc\<close> is the parameter \<open>alloc\<close>: an address, or \<open>None\<close> for NULL.\<close>

definition range_alloc :: "rid option \<Rightarrow> aid \<Rightarrow> rid option \<Rightarrow> bool \<Rightarrow> size_t \<Rightarrow> size_t \<Rightarrow> ashmem_state
    \<Rightarrow> unit kresult \<times> ashmem_state" where
  "range_alloc alloc asma prev_range purg start stop s =
    (case alloc of
       None \<Rightarrow> (Inl ENOMEM, s)
     | Some x \<Rightarrow>
         let r = \<lparr>range_asma = asma, pgstart = start, pgend = stop, purged = purg\<rparr>;
             s = s\<lparr>ranges := (ranges s)(x \<mapsto> r)\<rparr>;
             s = upd_area asma (unpinned_list_update (insert_before prev_range x)) s;
             s = (if range_on_lru r then lru_add x s else s)
         in (Inr (), s))"

definition range_del :: "rid \<Rightarrow> ashmem_state \<Rightarrow> ashmem_state" where
  "range_del x s =
    (let r = range_at s x;
         s = upd_area (range_asma r) (unpinned_list_update (remove1 x)) s;
         s = (if range_on_lru r then lru_del x s else s)
     in s\<lparr>ranges := (ranges s)(x := None)\<rparr>)"

definition range_shrink :: "rid \<Rightarrow> size_t \<Rightarrow> size_t \<Rightarrow> ashmem_state \<Rightarrow> ashmem_state" where
  "range_shrink x start stop s =
    (let r = range_at s x;
         pre = range_size r;
         r = r\<lparr>pgstart := start, pgend := stop\<rparr>;
         s = s\<lparr>ranges := (ranges s)(x \<mapsto> r)\<rparr>
     in if range_on_lru r then s\<lparr>lru_count := lru_count s - (pre - range_size r)\<rparr> else s)"

section \<open>Pinning and unpinning\<close>

text \<open>
  The loops run over the list as it was at the start: the only entry that a round removes is the one it
  is at, and the next entry has been read before.
\<close>

fun ashmem_pin_loop :: "rid option \<Rightarrow> aid \<Rightarrow> size_t \<Rightarrow> size_t \<Rightarrow> rid list \<Rightarrow> bool \<Rightarrow> ashmem_state \<Rightarrow> bool \<times> ashmem_state" where
  "ashmem_pin_loop alloc asma ps pe [] ret s = (ret, s)"
| "ashmem_pin_loop alloc asma ps pe (x # xs) ret s =
    (let r = range_at s x in
     if range_before_page r ps then (ret, s)
     else if page_range_in_range r ps pe then
       (let ret = (ret \<or> purged r) in
        if page_range_subsumes_range r ps pe then
          ashmem_pin_loop alloc asma ps pe xs ret (range_del x s)
        else if pgstart r \<ge> ps then
          ashmem_pin_loop alloc asma ps pe xs ret (range_shrink x (pe + 1) (pgend r) s)
        else if pgend r \<le> pe then
          ashmem_pin_loop alloc asma ps pe xs ret (range_shrink x (pgstart r) (ps - 1) s)
        else
          (ret, range_shrink x (pgstart r) (ps - 1)
                  (snd (range_alloc alloc asma (Some x) (purged r) (pe + 1) (pgend r) s))))
     else ashmem_pin_loop alloc asma ps pe xs ret s)"

definition ashmem_pin :: "rid option \<Rightarrow> aid \<Rightarrow> size_t \<Rightarrow> size_t \<Rightarrow> ashmem_state \<Rightarrow> bool \<times> ashmem_state" where
  "ashmem_pin alloc asma ps pe s =
    ashmem_pin_loop alloc asma ps pe (unpinned_list (area_at s asma)) False s"

datatype unpin_scan = Already_unpinned | Merge_with rid | Insert_at "rid option"

fun ashmem_unpin_scan :: "size_t \<Rightarrow> size_t \<Rightarrow> rid list \<Rightarrow> ashmem_state \<Rightarrow> unpin_scan" where
  "ashmem_unpin_scan ps pe [] s = Insert_at None"
| "ashmem_unpin_scan ps pe (x # xs) s =
    (let r = range_at s x in
     if range_before_page r ps then Insert_at (Some x)
     else if page_range_subsumed_by_range r ps pe then Already_unpinned
     else if page_range_in_range r ps pe then Merge_with x
     else ashmem_unpin_scan ps pe xs s)"

lemma ashmem_unpin_scan_mem: "ashmem_unpin_scan ps pe xs s = Merge_with x \<Longrightarrow> x \<in> set xs"
  by (induction xs) (auto simp: Let_def split: if_splits)

lemma unpinned_range_del:
  "range_asma (range_at s x) = a \<Longrightarrow>
    unpinned_list (area_at (range_del x s) a) = remove1 x (unpinned_list (area_at s a)) \<or> areas s a = None"
  by (auto simp: range_del_def Let_def upd_area_def lru_del_def)

text \<open>
  \<^verbatim>\<open>goto restart\<close> is the recursive call. The guard on the owner of the range holds for every range of
  the list; it makes the recursion end on every argument.
\<close>

function ashmem_unpin_loop :: "rid option \<Rightarrow> aid \<Rightarrow> size_t \<Rightarrow> size_t \<Rightarrow> bool \<Rightarrow> ashmem_state \<Rightarrow> unit kresult \<times> ashmem_state" where
  "ashmem_unpin_loop alloc asma ps pe purg s =
    (case areas s asma of None \<Rightarrow> (Inr (), s) | Some A \<Rightarrow>
     (case ashmem_unpin_scan ps pe (unpinned_list A) s of
        Already_unpinned \<Rightarrow> (Inr (), s)
      | Merge_with x \<Rightarrow>
          (let r = range_at s x in
           if range_asma r \<noteq> asma then (Inr (), s)
           else ashmem_unpin_loop alloc asma (min (pgstart r) ps) (max (pgend r) pe) (purg \<or> purged r) (range_del x s))
      | Insert_at p \<Rightarrow> range_alloc alloc asma p purg ps pe s))"
  by pat_completeness auto
termination
proof (relation "measure (\<lambda>(alloc, asma, ps, pe, purg, s). length (unpinned_list (area_at s asma)))", goal_cases)
  case 1
  then show ?case by simp
next
  case (2 alloc asma ps pe purg s A x r)
  then have "x \<in> set (unpinned_list A)" using ashmem_unpin_scan_mem by simp
  moreover from this have "0 < length (unpinned_list A)" by (cases "unpinned_list A") auto
  moreover have "unpinned_list (area_at (range_del x s) asma) = remove1 x (unpinned_list A)"
    using unpinned_range_del [of s x asma] 2 by auto
  ultimately show ?case using 2 by (simp add: length_remove1)
qed

declare ashmem_unpin_loop.simps [simp del]

definition ashmem_unpin :: "rid option \<Rightarrow> aid \<Rightarrow> size_t \<Rightarrow> size_t \<Rightarrow> ashmem_state \<Rightarrow> unit kresult \<times> ashmem_state" where
  "ashmem_unpin alloc asma ps pe s = ashmem_unpin_loop alloc asma ps pe False s"

fun pin_status_loop :: "size_t \<Rightarrow> size_t \<Rightarrow> rid list \<Rightarrow> ashmem_state \<Rightarrow> bool" where
  "pin_status_loop ps pe [] s = False"
| "pin_status_loop ps pe (x # xs) s =
    (let r = range_at s x in
     if range_before_page r ps then False
     else if page_range_in_range r ps pe then True
     else pin_status_loop ps pe xs s)"

text \<open>The result is true for \<^verbatim>\<open>ASHMEM_IS_UNPINNED\<close>.\<close>

definition ashmem_get_pin_status :: "aid \<Rightarrow> size_t \<Rightarrow> size_t \<Rightarrow> ashmem_state \<Rightarrow> bool" where
  "ashmem_get_pin_status asma ps pe s = pin_status_loop ps pe (unpinned_list (area_at s asma)) s"

section \<open>File operations\<close>

text \<open>
  \<open>gfo\<close> is the result of \<^verbatim>\<open>generic_file_open\<close>, \<open>alloc\<close> that of \<^verbatim>\<open>kmem_cache_zalloc\<close>. The area that the
  call returns is what the source stores in \<^verbatim>\<open>file->private_data\<close>.
\<close>

definition PROT_READ :: ulong where "PROT_READ = 1"
definition PROT_WRITE :: ulong where "PROT_WRITE = 2"
definition PROT_EXEC :: ulong where "PROT_EXEC = 4"

definition PROT_MASK :: ulong where
  "PROT_MASK = PROT_EXEC OR PROT_READ OR PROT_WRITE"

definition ashmem_open :: "unit kresult \<Rightarrow> aid option \<Rightarrow> ashmem_state \<Rightarrow> aid kresult \<times> ashmem_state" where
  "ashmem_open gfo alloc s =
    (case gfo of
       Inl e \<Rightarrow> (Inl e, s)
     | Inr _ \<Rightarrow>
         (case alloc of
            None \<Rightarrow> (Inl ENOMEM, s)
          | Some a \<Rightarrow>
              (Inr a, s\<lparr>areas := (areas s)(a \<mapsto>
                 \<lparr>area_name = ASHMEM_NAME_PREFIX @ replicate ASHMEM_NAME_LEN 0, unpinned_list = [],
                  area_file = None, area_size = 0, vm_start = 0, prot_mask = PROT_MASK\<rparr>)\<rparr>)))"

definition fput :: "fid \<Rightarrow> ashmem_state \<Rightarrow> ashmem_state" where
  "fput f s = s\<lparr>files := (files s)(f := map_option (f_count_update (\<lambda>n. n - 1)) (files s f))\<rparr>"

definition get_file :: "fid \<Rightarrow> ashmem_state \<Rightarrow> ashmem_state" where
  "get_file f s = s\<lparr>files := (files s)(f := map_option (f_count_update Suc) (files s f))\<rparr>"

definition ashmem_release :: "aid \<Rightarrow> ashmem_state \<Rightarrow> ashmem_state" where
  "ashmem_release a s =
    (let s = fold range_del (unpinned_list (area_at s a)) s;
         s = (case area_file (area_at s a) of Some f \<Rightarrow> fput f s | None \<Rightarrow> s)
     in s\<lparr>areas := (areas s)(a := None)\<rparr>)"

text \<open>
  The methods of the backing file belong to \<^verbatim>\<open>mm/shmem.c\<close> and are parameters: \<open>rd\<close> maps the position to
  the value that \<^verbatim>\<open>f_op->read\<close> returns and the new position, \<open>seek\<close> maps the position of the backing
  file to the value that \<^verbatim>\<open>f_op->llseek\<close> returns and its new position. A negative value is an error code.
\<close>

definition ashmem_read :: "(int \<Rightarrow> int \<times> int) \<Rightarrow> aid \<Rightarrow> int \<Rightarrow> ashmem_state \<Rightarrow> int kresult \<times> int \<times> ashmem_state" where
  "ashmem_read rd a pos s =
    (let A = area_at s a in
     if area_size A = 0 then (Inr 0, pos, s)
     else case area_file A of
       None \<Rightarrow> (Inl EBADF, pos, s)
     | Some f \<Rightarrow>
         let (ret, pos') = rd pos in
         if ret < 0 then (Inr ret, pos', s)
         else (Inr ret, pos', s\<lparr>files := (files s)(f := map_option (f_pos_update (\<lambda>_. pos')) (files s f))\<rparr>))"

text \<open>The result is the value returned and the new \<^verbatim>\<open>file->f_pos\<close>, when the call changes it. The \<^verbatim>\<open>loff_t\<close> that
  \<^verbatim>\<open>f_op->llseek\<close> returns is kept in an \<open>int\<close>, so its low 32 bits are what is tested and returned.\<close>

definition ashmem_llseek :: "(int \<Rightarrow> int \<times> int) \<Rightarrow> aid \<Rightarrow> ashmem_state \<Rightarrow> int kresult \<times> int option \<times> ashmem_state" where
  "ashmem_llseek seek a s =
    (let A = area_at s a in
     if area_size A = 0 then (Inl EINVAL, None, s)
     else case area_file A of
       None \<Rightarrow> (Inl EBADF, None, s)
     | Some f \<Rightarrow>
         let (lret, fpos) = seek (f_pos (the (files s f)));
             ret = signed_take_bit 31 lret;
             s = s\<lparr>files := (files s)(f := map_option (f_pos_update (\<lambda>_. fpos)) (files s f))\<rparr>
         in if ret < 0 then (Inr ret, None, s) else (Inr ret, Some fpos, s))"

definition VM_READ :: ulong where "VM_READ = 0x1"
definition VM_WRITE :: ulong where "VM_WRITE = 0x2"
definition VM_EXEC :: ulong where "VM_EXEC = 0x4"
definition VM_SHARED :: ulong where "VM_SHARED = 0x8"
definition VM_MAYREAD :: ulong where "VM_MAYREAD = 0x10"
definition VM_MAYWRITE :: ulong where "VM_MAYWRITE = 0x20"
definition VM_MAYEXEC :: ulong where "VM_MAYEXEC = 0x40"
definition VM_CAN_NONLINEAR :: ulong where "VM_CAN_NONLINEAR = 0x08000000"

definition calc_vm_trans :: "ulong \<Rightarrow> ulong \<Rightarrow> ulong \<Rightarrow> ulong" where
  "calc_vm_trans x bit1 bit2 =
    (if bit1 \<le> bit2 then (x AND bit1) * (bit2 div bit1) else (x AND bit1) div (bit1 div bit2))"

text \<open>On ARM \<^verbatim>\<open>arch_calc_vm_prot_bits\<close> is 0.\<close>

definition calc_vm_prot_bits :: "ulong \<Rightarrow> ulong" where
  "calc_vm_prot_bits prot =
    calc_vm_trans prot PROT_READ VM_READ OR calc_vm_trans prot PROT_WRITE VM_WRITE
      OR calc_vm_trans prot PROT_EXEC VM_EXEC"

definition calc_vm_may_flags :: "ulong \<Rightarrow> ulong" where
  "calc_vm_may_flags prot =
    calc_vm_trans prot PROT_READ VM_MAYREAD OR calc_vm_trans prot PROT_WRITE VM_MAYWRITE
      OR calc_vm_trans prot PROT_EXEC VM_MAYEXEC"

record vm_area =
  vm_flags :: ulong
  vma_start :: ulong
  vm_file :: "fid option"
  vm_ops_shmem :: bool

definition shmem_set_file :: "fid \<Rightarrow> vm_area \<Rightarrow> ashmem_state \<Rightarrow> vm_area \<times> ashmem_state" where
  "shmem_set_file f vma s =
    (let s = (case vm_file vma of Some g \<Rightarrow> fput g s | None \<Rightarrow> s)
     in (vma\<lparr>vm_file := Some f, vm_ops_shmem := True\<rparr>, s))"

text \<open>
  \<open>vmfile\<close> is the result of \<^verbatim>\<open>shmem_file_setup\<close>: an error, or a new file with one reference. The name it is
  given is \<open>ashmem_map_name\<close>.
\<close>

definition ashmem_map_name :: "ashmem_area \<Rightarrow> u8 list" where
  "ashmem_map_name A =
    (if area_name A ! ASHMEM_NAME_PREFIX_LEN \<noteq> 0 then area_name A else ASHMEM_NAME_DEF)"

definition ashmem_mmap :: "fid kresult \<Rightarrow> aid \<Rightarrow> vm_area \<Rightarrow> ashmem_state \<Rightarrow> unit kresult \<times> vm_area \<times> ashmem_state" where
  "ashmem_mmap vmfile a vma s =
    (let A = area_at s a in
     if area_size A = 0 then (Inl EINVAL, vma, s)
     else if (vm_flags vma AND NOT (calc_vm_prot_bits (prot_mask A))) AND calc_vm_prot_bits PROT_MASK \<noteq> 0
     then (Inl EPERM, vma, s)
     else
       let vma = vma\<lparr>vm_flags := vm_flags vma AND NOT (calc_vm_may_flags (NOT (prot_mask A)))\<rparr>;
           opened = (case area_file A of
               Some f \<Rightarrow> Inr (f, s)
             | None \<Rightarrow>
                 (case vmfile of
                    Inl e \<Rightarrow> Inl e
                  | Inr f \<Rightarrow> Inr (f, upd_area a (area_file_update (\<lambda>_. Some f))
                                     (s\<lparr>files := (files s)(f \<mapsto> \<lparr>f_count = 1, f_pos = 0\<rparr>)\<rparr>))))
       in case opened of
            Inl e \<Rightarrow> (Inl e, vma, s)
          | Inr (f, s) \<Rightarrow>
              let s = get_file f s;
                  (vma, s) =
                    (if vm_flags vma AND VM_SHARED \<noteq> 0 then shmem_set_file f vma s
                     else (vma\<lparr>vm_file := Some f\<rparr>,
                           case vm_file vma of Some g \<Rightarrow> fput g s | None \<Rightarrow> s));
                  vma = vma\<lparr>vm_flags := vm_flags vma OR VM_CAN_NONLINEAR\<rparr>;
                  s = upd_area a (vm_start_update (\<lambda>_. vma_start vma)) s
              in (Inr (), vma, s))"

section \<open>The shrinker\<close>

text \<open>
  \<open>None\<close> is the dereference of a NULL backing file. \<^verbatim>\<open>nr_to_scan\<close> is an \<open>int\<close> from which a
  \<^verbatim>\<open>size_t\<close> is subtracted: 32-bit arithmetic whose result is compared as a signed number.
\<close>

fun ashmem_shrink_loop :: "rid list \<Rightarrow> ulong \<Rightarrow> ashmem_state \<Rightarrow> ashmem_state option" where
  "ashmem_shrink_loop [] nr_to_scan s = Some s"
| "ashmem_shrink_loop (x # xs) nr_to_scan s =
    (let r = range_at s x in
     case area_file (area_at s (range_asma r)) of
       None \<Rightarrow> None
     | Some f \<Rightarrow>
         let start = pgstart r * PAGE_SIZE;
             stop = (pgend r + 1) * PAGE_SIZE - 1;
             s = s\<lparr>truncated := truncated s @ [(f, start, stop)]\<rparr>;
             s = s\<lparr>ranges := (ranges s)(x \<mapsto> r\<lparr>purged := True\<rparr>)\<rparr>;
             s = lru_del x s;
             nr_to_scan = nr_to_scan - range_size r
         in if sint nr_to_scan \<le> 0 then Some s else ashmem_shrink_loop xs nr_to_scan s)"

definition GFP_FS :: ulong where "GFP_FS = 0x80"
definition GFP_KERNEL :: ulong where "GFP_KERNEL = 0x10 OR 0x40 OR GFP_FS"

definition ashmem_shrink :: "ulong \<Rightarrow> ulong \<Rightarrow> ashmem_state \<Rightarrow> (ulong \<times> ashmem_state) option" where
  "ashmem_shrink nr_to_scan gfp_mask s =
    (if nr_to_scan \<noteq> 0 \<and> gfp_mask AND GFP_FS = 0 then Some (- 1, s)
     else if nr_to_scan = 0 then Some (lru_count s, s)
     else map_option (\<lambda>s. (lru_count s, s)) (ashmem_shrink_loop (ashmem_lru_list s) nr_to_scan s))"

section \<open>Control\<close>

definition READ_IMPLIES_EXEC :: ulong where "READ_IMPLIES_EXEC = 0x0400000"

definition set_prot_mask :: "ulong \<Rightarrow> aid \<Rightarrow> ulong \<Rightarrow> ashmem_state \<Rightarrow> unit kresult \<times> ashmem_state" where
  "set_prot_mask personality a prot s =
    (if prot_mask (area_at s a) AND prot \<noteq> prot then (Inl EINVAL, s)
     else
       let prot = (if prot AND PROT_READ \<noteq> 0 \<and> personality AND READ_IMPLIES_EXEC \<noteq> 0
                   then prot OR PROT_EXEC else prot)
       in (Inr (), upd_area a (prot_mask_update (\<lambda>_. prot)) s))"

text \<open>\<open>buf\<close> is what \<^verbatim>\<open>copy_from_user\<close> leaves in the 256 bytes of the name, \<open>fault\<close> that it failed.\<close>

definition set_name :: "u8 list \<Rightarrow> bool \<Rightarrow> aid \<Rightarrow> ashmem_state \<Rightarrow> unit kresult \<times> ashmem_state" where
  "set_name buf fault a s =
    (if area_file (area_at s a) \<noteq> None then (Inl EINVAL, s)
     else
       (if fault then Inl EFAULT else Inr (),
        upd_area a (area_name_update (\<lambda>name.
          (take ASHMEM_NAME_PREFIX_LEN name @ buf)[ASHMEM_FULL_NAME_LEN - 1 := 0])) s))"

fun strlen :: "u8 list \<Rightarrow> nat" where
  "strlen [] = 0"
| "strlen (c # cs) = (if c = 0 then 0 else Suc (strlen cs))"

text \<open>The bytes that are copied to the user.\<close>

definition get_name_bytes :: "ashmem_area \<Rightarrow> u8 list" where
  "get_name_bytes A =
    (if area_name A ! ASHMEM_NAME_PREFIX_LEN \<noteq> 0 then
       let rest = drop ASHMEM_NAME_PREFIX_LEN (area_name A) in take (strlen rest + 1) rest
     else ASHMEM_NAME_DEF)"

definition get_name :: "bool \<Rightarrow> aid \<Rightarrow> ashmem_state \<Rightarrow> u8 list kresult" where
  "get_name fault a s = (if fault then Inl EFAULT else Inr (get_name_bytes (area_at s a)))"

datatype pin_cmd = ASHMEM_PIN | ASHMEM_UNPIN | ASHMEM_GET_PIN_STATUS

text \<open>The page numbers that a pin request stands for, with the checks in the order of the source.\<close>

definition pin_request :: "ulong \<Rightarrow> u32 \<times> u32 \<Rightarrow> (size_t \<times> size_t) kresult" where
  "pin_request sz pin =
    (let (offset, len) = pin;
         len = (if len = 0 then PAGE_ALIGN sz - offset else len)
     in if (offset OR len) AND (PAGE_SIZE - 1) \<noteq> 0 then Inl EINVAL
        else if (- 1) - offset < len then Inl EINVAL
        else if PAGE_ALIGN sz < offset + len then Inl EINVAL
        else let ps = offset div PAGE_SIZE in Inr (ps, ps + len div PAGE_SIZE - 1))"

text \<open>\<open>pin = None\<close>: \<^verbatim>\<open>copy_from_user\<close> failed. The value of a success is the \<open>int\<close> that is returned.\<close>

definition ashmem_pin_unpin :: "rid option \<Rightarrow> pin_cmd \<Rightarrow> (u32 \<times> u32) option \<Rightarrow> aid \<Rightarrow> ashmem_state
    \<Rightarrow> ulong kresult \<times> ashmem_state" where
  "ashmem_pin_unpin alloc cmd pin a s =
    (if area_file (area_at s a) = None then (Inl EINVAL, s)
     else case pin of None \<Rightarrow> (Inl EFAULT, s) | Some pin \<Rightarrow>
       (case pin_request (area_size (area_at s a)) pin of
          Inl e \<Rightarrow> (Inl e, s)
        | Inr (ps, pe) \<Rightarrow>
            (case cmd of
               ASHMEM_PIN \<Rightarrow> let (p, s) = ashmem_pin alloc a ps pe s in (Inr (of_bool p), s)
             | ASHMEM_UNPIN \<Rightarrow>
                 let (r, s) = ashmem_unpin alloc a ps pe s
                 in (case r of Inl e \<Rightarrow> Inl e | Inr _ \<Rightarrow> Inr 0, s)
             | ASHMEM_GET_PIN_STATUS \<Rightarrow> (Inr (of_bool (\<not> ashmem_get_pin_status a ps pe s)), s))))"

datatype cache_cmd = ASHMEM_CACHE_FLUSH_RANGE | ASHMEM_CACHE_CLEAN_RANGE

text \<open>
  The range of addresses that is flushed or cleaned, if any. Without \<^verbatim>\<open>CONFIG_OUTER_CACHE\<close>, as the
  configurations of the tree have it; the function returns 0 on every path.
\<close>

definition ashmem_flush_cache_range :: "aid \<Rightarrow> cache_cmd \<Rightarrow> ashmem_state \<Rightarrow> (cache_cmd \<times> ulong \<times> ulong) option \<times> ulong" where
  "ashmem_flush_cache_range a cmd s =
    (let size' = area_size (area_at s a); addr = vm_start (area_at s a)
     in if addr = 0 \<or> addr AND (PAGE_SIZE - 1) \<noteq> 0 \<or> size' = 0 \<or> size' AND (PAGE_SIZE - 1) \<noteq> 0
        then (None, 0)
        else (Some (cmd, addr, addr + size'), 0))"

datatype ashmem_cmd =
    SET_NAME "u8 list" bool
  | GET_NAME bool
  | SET_SIZE size_t
  | GET_SIZE
  | SET_PROT_MASK ulong
  | GET_PROT_MASK
  | PIN_CMD pin_cmd "(u32 \<times> u32) option"
  | PURGE_ALL_CACHES
  | CACHE_CMD cache_cmd
  | OTHER_CMD

text \<open>
  The environment of a call: \<open>alloc\<close> the result of an allocation, \<open>pers\<close> the personality of the caller,
  \<open>admin\<close> the answer of \<^verbatim>\<open>capable(CAP_SYS_ADMIN)\<close>.
\<close>

definition ashmem_ioctl :: "rid option \<Rightarrow> ulong \<Rightarrow> bool \<Rightarrow> aid \<Rightarrow> ashmem_cmd \<Rightarrow> ashmem_state
    \<Rightarrow> (ulong kresult \<times> ashmem_state) option" where
  "ashmem_ioctl alloc pers admin a cmd s =
    (case cmd of
       SET_NAME buf fault \<Rightarrow> let (r, s) = set_name buf fault a s in Some (map_sum id (\<lambda>_. 0) r, s)
     | GET_NAME fault \<Rightarrow> Some (map_sum id (\<lambda>_. 0) (get_name fault a s), s)
     | SET_SIZE sz \<Rightarrow>
         if area_file (area_at s a) = None then Some (Inr 0, upd_area a (area_size_update (\<lambda>_. sz)) s)
         else Some (Inl EINVAL, s)
     | GET_SIZE \<Rightarrow> Some (Inr (area_size (area_at s a)), s)
     | SET_PROT_MASK prot \<Rightarrow> let (r, s) = set_prot_mask pers a prot s in Some (map_sum id (\<lambda>_. 0) r, s)
     | GET_PROT_MASK \<Rightarrow> Some (Inr (prot_mask (area_at s a)), s)
     | PIN_CMD c pin \<Rightarrow> Some (ashmem_pin_unpin alloc c pin a s)
     | PURGE_ALL_CACHES \<Rightarrow>
         if admin then
           (case ashmem_shrink 0 GFP_KERNEL s of None \<Rightarrow> None | Some (ret, s) \<Rightarrow>
            (case ashmem_shrink ret GFP_KERNEL s of None \<Rightarrow> None | Some (_, s) \<Rightarrow> Some (Inr ret, s)))
         else Some (Inl EPERM, s)
     | CACHE_CMD c \<Rightarrow> Some (Inr (snd (ashmem_flush_cache_range a c s)), s)
     | OTHER_CMD \<Rightarrow> Some (Inl ENOTTY, s))"

end
