(* ===== verification/Ashmem_Inv.thy ===== *)
theory Ashmem_Inv
  imports Ashmem
begin

text \<open>
  The invariant of the ashmem driver: the ranges of an area are disjoint and sorted by descending page
  number, the LRU list holds exactly the ranges that have not been purged and \<^verbatim>\<open>lru_count\<close> is the sum of
  their sizes. The operations on single ranges keep it.
\<close>

unbundle bit_operations_syntax

section \<open>Page intervals\<close>

text \<open>
  A range stands for the pages from \<open>lo\<close> up to \<open>hi\<close>, the latter excluded. A request of length zero at the
  end of the area makes an empty range, whose \<open>pgend\<close> is one below its \<open>pgstart\<close>.
\<close>

definition lo :: "ashmem_range \<Rightarrow> nat" where
  "lo r = unat (pgstart r)"

definition hi :: "ashmem_range \<Rightarrow> nat" where
  "hi r = unat (pgend r) + 1"

definition pages :: "ashmem_range \<Rightarrow> nat set" where
  "pages r = {lo r..<hi r}"

definition range_wf :: "ashmem_range \<Rightarrow> bool" where
  "range_wf r \<longleftrightarrow> lo r \<le> hi r"

lemmas range_preds = range_before_page_def page_range_in_range_def page_in_range_def
  page_range_subsumes_range_def page_range_subsumed_by_range_def word_le_nat_alt word_less_nat_alt

section \<open>The invariant\<close>

definition area_ok :: "ashmem_state \<Rightarrow> aid \<Rightarrow> ashmem_area \<Rightarrow> bool" where
  "area_ok s a A \<longleftrightarrow> distinct (unpinned_list A)
    \<and> (\<forall>x\<in>set (unpinned_list A). \<exists>r. ranges s x = Some r \<and> range_asma r = a \<and> range_wf r)
    \<and> sorted_wrt (\<lambda>x y. hi (range_at s y) \<le> lo (range_at s x)) (unpinned_list A)
    \<and> (unpinned_list A \<noteq> [] \<longrightarrow> area_file A \<noteq> None)"

definition ashmem_inv :: "ashmem_state \<Rightarrow> bool" where
  "ashmem_inv s \<longleftrightarrow>
    (\<forall>a A. areas s a = Some A \<longrightarrow> area_ok s a A)
    \<and> (\<forall>x r. ranges s x = Some r \<longrightarrow> (\<exists>A. areas s (range_asma r) = Some A \<and> x \<in> set (unpinned_list A)))
    \<and> distinct (ashmem_lru_list s)
    \<and> set (ashmem_lru_list s) = {x. \<exists>r. ranges s x = Some r \<and> \<not> purged r}
    \<and> lru_count s = (\<Sum>x\<leftarrow>ashmem_lru_list s. range_size (range_at s x))"

lemma sum_list_remove1_word:
  "x \<in> set xs \<Longrightarrow> (\<Sum>y\<leftarrow>remove1 x xs. f y) = (\<Sum>y\<leftarrow>xs. f y) - (f x :: ulong)"
  by (induction xs) (auto simp: algebra_simps)

lemma sum_list_change_word:
  "distinct xs \<Longrightarrow> x \<in> set xs \<Longrightarrow> (\<And>y. y \<noteq> x \<Longrightarrow> g y = f y) \<Longrightarrow>
    (\<Sum>y\<leftarrow>xs. g y) = (\<Sum>y\<leftarrow>xs. f y) - (f x - (g x :: ulong))"
proof (induction xs)
  case (Cons z xs)
  show ?case
  proof (cases "z = x")
    case True
    have "map g xs = map f xs"
    proof (intro map_cong refl)
      fix y assume "y \<in> set xs"
      with True Cons.prems(1) have "y \<noteq> x" by auto
      then show "g y = f y" by (rule Cons.prems(3))
    qed
    with True show ?thesis by (simp del: map_eq_conv)
  next
    case False
    with Cons show ?thesis by (simp add: algebra_simps)
  qed
qed simp

lemma sum_list_same_word:
  "(\<And>y. y \<in> set xs \<Longrightarrow> g y = f y) \<Longrightarrow> (\<Sum>y\<leftarrow>xs. g y) = (\<Sum>y\<leftarrow>xs. (f y :: ulong))"
  by (metis map_eq_conv)

lemma sorted_wrt_remove1: "sorted_wrt R xs \<Longrightarrow> sorted_wrt R (remove1 x xs)"
  by (induction xs) (auto dest: notin_set_remove1 intro: set_remove1_subset [THEN subsetD])

text \<open>Removing a range keeps the invariant.\<close>

lemma range_del_simps [simp]:
  "areas (range_del x s) = (areas s)(range_asma (range_at s x) :=
     map_option (unpinned_list_update (remove1 x)) (areas s (range_asma (range_at s x))))"
  "ranges (range_del x s) = (ranges s)(x := None)"
  "files (range_del x s) = files s"
  "truncated (range_del x s) = truncated s"
  by (simp_all add: range_del_def Let_def upd_area_def lru_del_def)

lemma range_del_lru:
  "ashmem_lru_list (range_del x s) = (if purged (range_at s x) then ashmem_lru_list s else remove1 x (ashmem_lru_list s))"
  "lru_count (range_del x s) = (if purged (range_at s x) then lru_count s else lru_count s - range_size (range_at s x))"
  by (simp_all add: range_del_def Let_def upd_area_def lru_del_def range_on_lru_def)

lemma inv_range_del:
  assumes inv: "ashmem_inv s" and x: "ranges s x = Some r"
  shows "ashmem_inv (range_del x s)"
proof -
  let ?s = "range_del x s"
  from inv x obtain A where A: "areas s (range_asma r) = Some A" "x \<in> set (unpinned_list A)"
    unfolding ashmem_inv_def by blast
  have ok: "area_ok s a B" if "areas s a = Some B" for a B using inv that by (simp add: ashmem_inv_def)
  have owner: "range_asma r = a" if "areas s a = Some B" "x \<in> set (unpinned_list B)" for a B
    using ok [OF that(1)] that(2) x unfolding area_ok_def by force
  have "area_ok ?s a B'" if B': "areas ?s a = Some B'" for a B'
  proof -
    obtain B where B: "areas s a = Some B" and eq: "B' = (if a = range_asma r then unpinned_list_update (remove1 x) B else B)"
      using B' x by (auto split: if_splits)
    have x_in: "x \<notin> set (unpinned_list B')"
      using owner [OF B] ok [OF B] eq by (auto simp: area_ok_def)
    have sub: "set (unpinned_list B') \<subseteq> set (unpinned_list B)"
      using eq by (auto split: if_splits dest: set_remove1_subset [THEN subsetD])
    have "sorted_wrt (\<lambda>x y. hi (range_at s y) \<le> lo (range_at s x)) (unpinned_list B')"
      using ok [OF B] eq by (auto simp: area_ok_def sorted_wrt_remove1)
    then have "sorted_wrt (\<lambda>x y. hi (range_at ?s y) \<le> lo (range_at ?s x)) (unpinned_list B')"
      by (rule sorted_wrt_mono_rel [rotated]) (use x_in in auto)
    moreover have "distinct (unpinned_list B')" "unpinned_list B' \<noteq> [] \<longrightarrow> area_file B' \<noteq> None"
      using ok [OF B] eq by (auto simp: area_ok_def split: if_splits)
    ultimately show ?thesis using ok [OF B] sub x_in unfolding area_ok_def by fastforce
  qed
  moreover have "\<exists>B. areas ?s (range_asma q) = Some B \<and> y \<in> set (unpinned_list B)" if "ranges ?s y = Some q" for y q
  proof -
    from that have y: "ranges s y = Some q" "y \<noteq> x" by (auto split: if_splits)
    then obtain B where "areas s (range_asma q) = Some B" "y \<in> set (unpinned_list B)"
      using inv unfolding ashmem_inv_def by blast
    with y(2) show ?thesis by auto
  qed
  moreover have "distinct (ashmem_lru_list ?s)" "set (ashmem_lru_list ?s) = {y. \<exists>q. ranges ?s y = Some q \<and> \<not> purged q}"
    using inv x unfolding ashmem_inv_def by (auto simp: range_del_lru)
  moreover have "lru_count ?s = (\<Sum>y\<leftarrow>ashmem_lru_list ?s. range_size (range_at ?s y))"
  proof -
    have out: "x \<notin> set (ashmem_lru_list ?s)" using inv x unfolding ashmem_inv_def by (auto simp: range_del_lru)
    then have "(\<Sum>y\<leftarrow>ashmem_lru_list ?s. range_size (range_at ?s y)) = (\<Sum>y\<leftarrow>ashmem_lru_list ?s. range_size (range_at s y))"
      by (intro sum_list_same_word) auto
    also have "\<dots> = lru_count ?s"
      using inv x unfolding ashmem_inv_def by (auto simp: range_del_lru sum_list_remove1_word)
    finally show ?thesis by simp
  qed
  ultimately show ?thesis unfolding ashmem_inv_def by blast
qed


text \<open>Shrinking a range to a part of it keeps the invariant.\<close>

lemma range_shrink_simps [simp]:
  "areas (range_shrink x ps pe s) = areas s"
  "ranges (range_shrink x ps pe s) = (ranges s)(x \<mapsto> (range_at s x)\<lparr>pgstart := ps, pgend := pe\<rparr>)"
  "files (range_shrink x ps pe s) = files s"
  "truncated (range_shrink x ps pe s) = truncated s"
  "ashmem_lru_list (range_shrink x ps pe s) = ashmem_lru_list s"
  by (simp_all add: range_shrink_def Let_def)

lemma range_shrink_count:
  "lru_count (range_shrink x ps pe s) = (if purged (range_at s x) then lru_count s
     else lru_count s - (range_size (range_at s x) - range_size ((range_at s x)\<lparr>pgstart := ps, pgend := pe\<rparr>)))"
  by (simp add: range_shrink_def Let_def range_on_lru_def)

lemma inv_range_shrink:
  assumes inv: "ashmem_inv s" and x: "ranges s x = Some r"
    and sub: "lo r \<le> unat ps" "unat pe + 1 \<le> hi r" "unat ps \<le> unat pe + 1"
  shows "ashmem_inv (range_shrink x ps pe s)"
proof -
  let ?s = "range_shrink x ps pe s"
  have ok: "area_ok s a B" if "areas s a = Some B" for a B using inv that by (simp add: ashmem_inv_def)
  have "area_ok ?s a B" if B: "areas ?s a = Some B" for a B
  proof -
    from B have okB: "area_ok s a B" using ok by simp
    then have "sorted_wrt (\<lambda>x y. hi (range_at s y) \<le> lo (range_at s x)) (unpinned_list B)" by (simp add: area_ok_def)
    then have "sorted_wrt (\<lambda>x y. hi (range_at ?s y) \<le> lo (range_at ?s x)) (unpinned_list B)"
      by (rule sorted_wrt_mono_rel [rotated]) (use x sub in \<open>auto simp: lo_def hi_def\<close>)
    with okB x sub show ?thesis unfolding area_ok_def by (fastforce simp: range_wf_def lo_def hi_def)
  qed
  moreover have "\<exists>B. areas ?s (range_asma q) = Some B \<and> y \<in> set (unpinned_list B)" if "ranges ?s y = Some q" for y q
  proof (cases "y = x")
    case True
    then have "q = r\<lparr>pgstart := ps, pgend := pe\<rparr>" using that x by simp
    with True x inv show ?thesis by (simp add: ashmem_inv_def)
  next
    case False
    with that have "ranges s y = Some q" by simp
    with inv show ?thesis by (simp add: ashmem_inv_def)
  qed
  moreover have "distinct (ashmem_lru_list ?s)" "set (ashmem_lru_list ?s) = {y. \<exists>q. ranges ?s y = Some q \<and> \<not> purged q}"
    using inv x unfolding ashmem_inv_def by auto
  moreover have "lru_count ?s = (\<Sum>y\<leftarrow>ashmem_lru_list ?s. range_size (range_at ?s y))"
  proof (cases "purged r")
    case True
    then have "x \<notin> set (ashmem_lru_list s)" using inv x unfolding ashmem_inv_def by auto
    then have "(\<Sum>y\<leftarrow>ashmem_lru_list s. range_size (range_at ?s y)) = (\<Sum>y\<leftarrow>ashmem_lru_list s. range_size (range_at s y))"
      by (intro sum_list_same_word) auto
    with True x inv show ?thesis by (simp add: range_shrink_count ashmem_inv_def)
  next
    case False
    then have "x \<in> set (ashmem_lru_list s)" "distinct (ashmem_lru_list s)" using inv x unfolding ashmem_inv_def by auto
    then have "(\<Sum>y\<leftarrow>ashmem_lru_list s. range_size (range_at ?s y)) = (\<Sum>y\<leftarrow>ashmem_lru_list s. range_size (range_at s y))
        - (range_size (range_at s x) - range_size (range_at ?s x))"
      by (intro sum_list_change_word) auto
    with False x inv show ?thesis by (simp add: range_shrink_count ashmem_inv_def)
  qed
  ultimately show ?thesis unfolding ashmem_inv_def by blast
qed

text \<open>Linking a new range into the gap where it belongs keeps the invariant.\<close>

lemma insert_before_append: "y \<notin> set pre \<Longrightarrow> insert_before (Some y) x (pre @ y # post) = pre @ x # y # post"
  by (induction pre) auto

lemma insert_before_None: "insert_before None x xs = xs @ [x]"
  by (induction xs) auto

definition gap_at :: "rid option \<Rightarrow> rid list \<Rightarrow> rid list \<Rightarrow> rid list \<Rightarrow> bool" where
  "gap_at p xs pre post \<longleftrightarrow> xs = pre @ post \<and> p = (case post of [] \<Rightarrow> None | y # ys \<Rightarrow> Some y)"

lemma insert_before_gap: "distinct xs \<Longrightarrow> gap_at p xs pre post \<Longrightarrow> insert_before p x xs = pre @ x # post"
  by (cases post) (auto simp: gap_at_def insert_before_None intro: insert_before_append)

lemma range_alloc_Some:
  "fst (range_alloc (Some n) a p pu ps pe s) = Inr ()"
  "areas (snd (range_alloc (Some n) a p pu ps pe s)) = (areas s)(a := map_option (unpinned_list_update (insert_before p n)) (areas s a))"
  "ranges (snd (range_alloc (Some n) a p pu ps pe s)) = (ranges s)(n \<mapsto> \<lparr>range_asma = a, pgstart = ps, pgend = pe, purged = pu\<rparr>)"
  "files (snd (range_alloc (Some n) a p pu ps pe s)) = files s"
  "truncated (snd (range_alloc (Some n) a p pu ps pe s)) = truncated s"
  "ashmem_lru_list (snd (range_alloc (Some n) a p pu ps pe s)) = (if pu then ashmem_lru_list s else ashmem_lru_list s @ [n])"
  "lru_count (snd (range_alloc (Some n) a p pu ps pe s))
    = (if pu then lru_count s else lru_count s + range_size \<lparr>range_asma = a, pgstart = ps, pgend = pe, purged = pu\<rparr>)"
  by (simp_all add: range_alloc_def Let_def upd_area_def lru_add_def range_on_lru_def)

lemma range_alloc_None [simp]: "range_alloc None a p pu ps pe s = (Inl ENOMEM, s)"
  by (simp add: range_alloc_def)

lemma inv_range_alloc:
  assumes inv: "ashmem_inv s" and fresh: "ranges s n = None"
    and A: "areas s a = Some A" "area_file A \<noteq> None" and gap: "gap_at p (unpinned_list A) pre post"
    and wf: "unat ps \<le> unat pe + 1"
    and above: "\<And>y. y \<in> set pre \<Longrightarrow> unat pe + 1 \<le> lo (range_at s y)"
    and below: "\<And>y. y \<in> set post \<Longrightarrow> hi (range_at s y) \<le> unat ps"
  shows "ashmem_inv (snd (range_alloc (Some n) a p pu ps pe s))"
proof -
  let ?s = "snd (range_alloc (Some n) a p pu ps pe s)"
  let ?r = "\<lparr>range_asma = a, pgstart = ps, pgend = pe, purged = pu\<rparr>"
  note S = range_alloc_Some [of n a p pu ps pe s]
  have ok: "area_ok s b B" if "areas s b = Some B" for b B using inv that by (simp add: ashmem_inv_def)
  have fresh': "n \<notin> set (unpinned_list B)" if "areas s b = Some B" for b B
    using ok [OF that] fresh by (force simp: area_ok_def)
  have ins: "insert_before p n (unpinned_list A) = pre @ n # post"
    using ok [OF A(1)] gap by (intro insert_before_gap) (auto simp: area_ok_def)
  have xs: "unpinned_list A = pre @ post" using gap by (simp add: gap_at_def)
  have "area_ok ?s b B'" if B': "areas ?s b = Some B'" for b B'
  proof (cases "b = a")
    case True
    with B' A ins have B'_eq: "B' = A\<lparr>unpinned_list := pre @ n # post\<rparr>" by (cases A) (auto simp: S)
    have "n \<notin> set pre" "n \<notin> set post" using fresh' [OF A(1)] xs by auto
    moreover have srt: "sorted_wrt (\<lambda>x y. hi (range_at s y) \<le> lo (range_at s x)) (pre @ post)"
      using ok [OF A(1)] xs by (simp add: area_ok_def)
    ultimately have "sorted_wrt (\<lambda>x y. hi (range_at ?s y) \<le> lo (range_at ?s x)) (pre @ n # post)"
      using above below unfolding S sorted_wrt_append sorted_wrt.simps
      by (auto simp: lo_def hi_def elim!: sorted_wrt_mono_rel [rotated])
    then show ?thesis using ok [OF A(1)] xs A(2) True wf \<open>n \<notin> set pre\<close> \<open>n \<notin> set post\<close>
      unfolding area_ok_def B'_eq by (auto simp: S range_wf_def lo_def hi_def)
  next
    case False
    with B' have B: "areas s b = Some B'" by (simp add: S)
    then have "sorted_wrt (\<lambda>x y. hi (range_at ?s y) \<le> lo (range_at ?s x)) (unpinned_list B')"
      using ok [OF B] fresh' [OF B] unfolding area_ok_def S by (auto elim!: sorted_wrt_mono_rel [rotated])
    then show ?thesis using ok [OF B] fresh' [OF B] unfolding area_ok_def by (auto simp: S)
  qed
  moreover have "\<exists>B. areas ?s (range_asma q) = Some B \<and> y \<in> set (unpinned_list B)" if "ranges ?s y = Some q" for y q
  proof (cases "y = n")
    case True
    with that A ins show ?thesis by (auto simp: S)
  next
    case False
    with that have "ranges s y = Some q" by (simp add: S)
    with inv obtain B where "areas s (range_asma q) = Some B" "y \<in> set (unpinned_list B)"
      unfolding ashmem_inv_def by blast
    with A ins xs show ?thesis by (auto simp: S)
  qed
  moreover have notin: "n \<notin> set (ashmem_lru_list s)" using inv fresh unfolding ashmem_inv_def by auto
  then have "distinct (ashmem_lru_list ?s)" "set (ashmem_lru_list ?s) = {y. \<exists>q. ranges ?s y = Some q \<and> \<not> purged q}"
    using inv fresh unfolding ashmem_inv_def by (auto simp: S)
  moreover have "lru_count ?s = (\<Sum>y\<leftarrow>ashmem_lru_list ?s. range_size (range_at ?s y))"
  proof -
    have "(\<Sum>y\<leftarrow>ashmem_lru_list s. range_size (range_at ?s y)) = (\<Sum>y\<leftarrow>ashmem_lru_list s. range_size (range_at s y))"
      using notin by (intro sum_list_same_word) (auto simp: S)
    with inv show ?thesis by (simp add: ashmem_inv_def S)
  qed
  ultimately show ?thesis unfolding ashmem_inv_def by blast
qed

end
