(* ===== verification/Ashmem_Pin.thy ===== *)
theory Ashmem_Pin
  imports Ashmem_Inv
begin

text \<open>
  Pinning and unpinning, as operations on the set of unpinned pages of an area: \<^verbatim>\<open>ashmem_pin\<close> removes the
  pages of the request, \<^verbatim>\<open>ashmem_unpin\<close> adds them, and both keep the invariant and the other areas. When the
  request lies inside a range and the allocation for the second half fails, \<^verbatim>\<open>ashmem_pin\<close> ignores the failure
  and removes the pages behind the request as well.
\<close>

section \<open>Pinning\<close>

text \<open>
  The pages of the ranges in a list; \<open>Q\<close> selects the ranges by their purge state, so that the same facts
  speak about all unpinned pages and about the purged ones.
\<close>

definition pages_of :: "(bool \<Rightarrow> bool) \<Rightarrow> ashmem_state \<Rightarrow> rid list \<Rightarrow> nat set" where
  "pages_of Q s xs = (\<Union>x\<in>{x \<in> set xs. Q (purged (range_at s x))}. pages (range_at s x))"

definition unpinned_pages :: "ashmem_state \<Rightarrow> aid \<Rightarrow> nat set" where
  "unpinned_pages s a = pages_of (\<lambda>_. True) s (unpinned_list (area_at s a))"

definition purged_pages :: "ashmem_state \<Rightarrow> aid \<Rightarrow> nat set" where
  "purged_pages s a = pages_of (\<lambda>p. p) s (unpinned_list (area_at s a))"

lemma pages_of_simps [simp]:
  "pages_of Q s [] = {}"
  "pages_of Q s (x # xs) = (if Q (purged (range_at s x)) then pages (range_at s x) else {}) \<union> pages_of Q s xs"
  "pages_of Q s (xs @ ys) = pages_of Q s xs \<union> pages_of Q s ys"
  by (auto simp: pages_of_def)

lemma pages_of_cong:
  "(\<And>x. x \<in> set xs \<Longrightarrow> ranges s x = ranges s' x) \<Longrightarrow> pages_of Q s xs = pages_of Q s' xs"
  by (auto simp: pages_of_def)

text \<open>The pages below a range, those of the ranges after it.\<close>

lemma pages_of_below:
  assumes "\<And>y. y \<in> set ys \<Longrightarrow> hi (range_at s y) \<le> k"
  shows "pages_of Q s ys \<subseteq> {..<k}"
  using assms by (fastforce simp: pages_of_def pages_def)

lemma inv_area:
  assumes "ashmem_inv s" "areas s a = Some A"
  shows "distinct (unpinned_list A)" "\<And>x. x \<in> set (unpinned_list A) \<Longrightarrow> \<exists>r. ranges s x = Some r \<and> range_asma r = a \<and> range_wf r"
    "sorted_wrt (\<lambda>x y. hi (range_at s y) \<le> lo (range_at s x)) (unpinned_list A)"
    "unpinned_list A \<noteq> [] \<Longrightarrow> area_file A \<noteq> None"
  using assms by (auto simp: ashmem_inv_def area_ok_def)

text \<open>What the tests of the source say about the intervals, for a request \<open>l..<h\<close>.\<close>

lemma tests_iff:
  fixes ps pe :: size_t
  defines "l \<equiv> unat ps" and "h \<equiv> unat pe + 1"
  shows "range_before_page r ps \<longleftrightarrow> hi r \<le> l"
    "page_range_subsumes_range r ps pe \<longleftrightarrow> l \<le> lo r \<and> hi r \<le> h"
    "page_range_subsumed_by_range r ps pe \<longleftrightarrow> lo r \<le> l \<and> h \<le> hi r"
    "page_range_in_range r ps pe \<longleftrightarrow> (lo r \<le> l \<and> l < hi r) \<or> (lo r < h \<and> h \<le> hi r) \<or> (l \<le> lo r \<and> hi r \<le> h)"
    "pgstart r \<ge> ps \<longleftrightarrow> l \<le> lo r" "pgend r \<le> pe \<longleftrightarrow> hi r \<le> h"
  by (auto simp: range_preds lo_def hi_def l_def h_def)

lemma not_in_range_above:
  assumes "\<not> range_before_page r ps" "\<not> page_range_in_range r ps pe" "unat ps \<le> unat pe + 1"
  shows "unat pe + 1 \<le> lo r"
  using assms unfolding tests_iff by linarith

lemma unat_succ: "unat (w :: ulong) + 1 < 2 ^ 32 \<Longrightarrow> unat (w + 1) = unat w + 1"
  using unat_add_ulong [of w 1] by simp

lemma unat_pred: "0 < unat (w :: ulong) \<Longrightarrow> unat (w - 1) = unat w - 1"
  by (rule unat_minus_one) auto

lemma hi_le: "hi r \<le> 2 ^ 32"
  using unat_ulong_lt [of "pgend r"] by (simp add: hi_def)

lemma shrink_alloc_commute:
  assumes "ranges s x = Some r" "n \<noteq> x"
  shows "range_shrink x ps pe (snd (range_alloc (Some n) a p pu ps' pe' s))
    = snd (range_alloc (Some n) a p pu ps' pe' (range_shrink x ps pe s))"
  using assms by (simp add: range_alloc_def range_shrink_def Let_def upd_area_def lru_add_def range_on_lru_def fun_upd_twist algebra_simps)

definition fresh_alloc :: "rid option \<Rightarrow> ashmem_state \<Rightarrow> bool" where
  "fresh_alloc alloc s \<longleftrightarrow> (\<forall>n. alloc = Some n \<longrightarrow> ranges s n = None)"

definition pin_hit :: "size_t \<Rightarrow> size_t \<Rightarrow> ashmem_range \<Rightarrow> bool" where
  "pin_hit ps pe r \<longleftrightarrow> page_range_in_range r ps pe \<and> \<not> range_before_page r ps \<and> purged r"

text \<open>What a round of the pin loop needs and keeps of the state.\<close>

definition same_areas :: "aid \<Rightarrow> ashmem_state \<Rightarrow> ashmem_state \<Rightarrow> bool" where
  "same_areas a s s' \<longleftrightarrow> (\<forall>b. b \<noteq> a \<longrightarrow> areas s' b = areas s b)
    \<and> (\<exists>A B. areas s a = Some A \<and> areas s' a = Some B \<and> B\<lparr>unpinned_list := unpinned_list A\<rparr> = A)"

lemma same_areas_trans: "same_areas a s s' \<Longrightarrow> same_areas a s' s'' \<Longrightarrow> same_areas a s s''"
  unfolding same_areas_def by (metis (no_types, lifting) ashmem_area.surjective ashmem_area.update_convs(2) option.inject)

lemma same_areas_refl: "areas s a = Some A \<Longrightarrow> same_areas a s s"
  by (simp add: same_areas_def)


definition others_kept :: "aid \<Rightarrow> ashmem_state \<Rightarrow> ashmem_state \<Rightarrow> bool" where
  "others_kept a s s' \<longleftrightarrow> same_areas a s s' \<and> (\<forall>y q. ranges s y = Some q \<and> range_asma q \<noteq> a \<longrightarrow> ranges s' y = Some q)"

lemma others_kept_trans: "others_kept a s s' \<Longrightarrow> others_kept a s' s'' \<Longrightarrow> others_kept a s s''"
  unfolding others_kept_def using same_areas_trans by blast

lemma others_kept_refl: "areas s a = Some A \<Longrightarrow> others_kept a s s"
  by (simp add: others_kept_def same_areas_refl)

lemma others_kept_del:
  "areas s a = Some A \<Longrightarrow> ranges s x = Some r \<Longrightarrow> range_asma r = a \<Longrightarrow> others_kept a s (range_del x s)"
  by (auto simp: others_kept_def same_areas_def)

lemma others_kept_shrink:
  "areas s a = Some A \<Longrightarrow> ranges s x = Some r \<Longrightarrow> range_asma r = a \<Longrightarrow> others_kept a s (range_shrink x ps pe s)"
  by (auto simp: others_kept_def same_areas_def)

lemma others_kept_alloc:
  "areas s a = Some A \<Longrightarrow> ranges s n = None \<Longrightarrow> others_kept a s (snd (range_alloc (Some n) a p pu ps pe s))"
  by (auto simp: others_kept_def same_areas_def range_alloc_Some)

text \<open>The pages that are left of a range; when the second half of a split range cannot be allocated it is lost.\<close>

definition pages_left :: "rid option \<Rightarrow> size_t \<Rightarrow> size_t \<Rightarrow> ashmem_range \<Rightarrow> nat set" where
  "pages_left alloc ps pe r = pages r - {unat ps..<unat pe + 1} - (if alloc = None \<and> lo r < unat ps then {unat pe + 1..} else {})"

definition left_of :: "rid option \<Rightarrow> size_t \<Rightarrow> size_t \<Rightarrow> (bool \<Rightarrow> bool) \<Rightarrow> ashmem_state \<Rightarrow> rid list \<Rightarrow> nat set" where
  "left_of alloc ps pe Q s xs = (\<Union>x\<in>{x \<in> set xs. Q (purged (range_at s x))}. pages_left alloc ps pe (range_at s x))"

lemma left_of_simps [simp]:
  "left_of alloc ps pe Q s [] = {}"
  "left_of alloc ps pe Q s (x # xs)
    = (if Q (purged (range_at s x)) then pages_left alloc ps pe (range_at s x) else {}) \<union> left_of alloc ps pe Q s xs"
  by (auto simp: left_of_def)

lemma left_of_cong:
  "(\<And>x. x \<in> set xs \<Longrightarrow> ranges s x = ranges s' x) \<Longrightarrow> left_of alloc ps pe Q s xs = left_of alloc ps pe Q s' xs"
  by (auto simp: left_of_def)

lemma left_of_below:
  assumes "\<And>y. y \<in> set ys \<Longrightarrow> hi (range_at s y) \<le> unat ps" "unat ps \<le> unat pe + 1"
  shows "left_of alloc ps pe Q s ys = pages_of Q s ys"
proof -
  have "pages_left alloc ps pe (range_at s y) = pages (range_at s y)" if "y \<in> set ys" for y
    using assms(1) [OF that] assms(2) by (auto simp: pages_left_def pages_def)
  then show ?thesis by (auto simp: left_of_def pages_of_def)
qed

definition pin_post :: "rid option \<Rightarrow> aid \<Rightarrow> size_t \<Rightarrow> size_t \<Rightarrow> bool \<Rightarrow> rid list \<Rightarrow> rid list \<Rightarrow> ashmem_state \<Rightarrow> bool \<times> ashmem_state \<Rightarrow> bool" where
  "pin_post alloc a ps pe ret dn xs s out \<longleftrightarrow>
    ashmem_inv (snd out) \<and> others_kept a s (snd out)
    \<and> (fst out \<longleftrightarrow> ret \<or> (\<exists>x\<in>set xs. pin_hit ps pe (range_at s x)))
    \<and> (\<forall>Q. pages_of Q (snd out) (unpinned_list (area_at (snd out) a)) = pages_of Q s dn \<union> left_of alloc ps pe Q s xs)"

text \<open>A round that leaves \<open>x\<close> as a part of the list that is done, in the state \<open>s'\<close>, or takes it out.\<close>

lemma pin_post_step:
  assumes post: "pin_post alloc a ps pe ret' (dn @ ys) xs s' out"
    and kept: "others_kept a s s'"
    and same: "\<And>y. y \<in> set dn \<union> set xs \<Longrightarrow> ranges s' y = ranges s y"
    and hit: "ret' \<longleftrightarrow> ret \<or> pin_hit ps pe (range_at s x)"
    and pg: "\<And>Q. pages_of Q s' ys = left_of alloc ps pe Q s [x]"
  shows "pin_post alloc a ps pe ret dn (x # xs) s out"
proof -
  have "pages_of Q s' dn = pages_of Q s dn" for Q using same by (auto intro!: pages_of_cong)
  moreover have "left_of alloc ps pe Q s' xs = left_of alloc ps pe Q s xs" for Q using same by (auto intro!: left_of_cong)
  moreover have "(\<exists>y\<in>set xs. pin_hit ps pe (range_at s' y)) \<longleftrightarrow> (\<exists>y\<in>set xs. pin_hit ps pe (range_at s y))"
    using same by auto
  ultimately show ?thesis
    using post others_kept_trans [OF kept] hit pg unfolding pin_post_def by (simp add: Un_assoc)
qed

lemma pin_post_stop:
  assumes "ashmem_inv s" "areas s a = Some A" "unpinned_list A = dn @ xs"
    and "\<And>y. y \<in> set xs \<Longrightarrow> hi (range_at s y) \<le> unat ps" "unat ps \<le> unat pe + 1"
    and "\<And>y. y \<in> set xs \<Longrightarrow> \<not> pin_hit ps pe (range_at s y)"
  shows "pin_post alloc a ps pe ret dn xs s (ret, s)"
  using assms(1,2,3,6) left_of_below [OF assms(4,5)] by (auto simp: pin_post_def others_kept_refl)

text \<open>The last case of the source: the request lies inside a range, which is split.\<close>

lemma pin_post_split:
  assumes inv: "ashmem_inv s" and A: "areas s a = Some A" "unpinned_list A = dn @ x # xs"
    and r: "ranges s x = Some r" and fresh: "fresh_alloc alloc s" and req: "unat ps \<le> unat pe + 1"
    and inside: "lo r < unat ps" "unat pe + 1 < hi r"
    and hit: "ret' \<longleftrightarrow> ret \<or> purged r"
  shows "pin_post alloc a ps pe ret dn (x # xs) s
    (ret', range_shrink x (pgstart r) (ps - 1) (snd (range_alloc alloc a (Some x) (purged r) (pe + 1) (pgend r) s)))"
proof -
  note ia = inv_area [OF inv A(1)]
  let ?s1 = "range_shrink x (pgstart r) (ps - 1) s"
  have asma: "range_asma r = a" and wf: "range_wf r" using ia(2) [of x] A(2) r by auto
  have u: "unat (ps - 1) = unat ps - 1" "unat (pe + 1) = unat pe + 1"
    using inside hi_le [of r] unat_pred [of ps] unat_succ [of pe] by auto
  have later: "hi (range_at s y) \<le> lo r" if "y \<in> set xs" for y
    using ia(3) that r unfolding A(2) by (auto simp: sorted_wrt_append)
  have earlier: "hi r \<le> lo (range_at s y)" if "y \<in> set dn" for y
    using ia(3) that r unfolding A(2) by (auto simp: sorted_wrt_append)
  have dist: "x \<notin> set dn" "x \<notin> set xs" using ia(1) A(2) by auto
  have inv1: "ashmem_inv ?s1"
    using inside req by (intro inv_range_shrink [OF inv r]) (auto simp: u lo_def hi_def)
  have kept1: "others_kept a s ?s1" using others_kept_shrink [OF A(1) r asma] .
  have nohit: "\<not> pin_hit ps pe (range_at s y)" if "y \<in> set xs" for y
    using later [OF that] inside by (auto simp: pin_hit_def tests_iff)
  have cong: "pages_of Q ?s1 dn = pages_of Q s dn" "pages_of Q ?s1 xs = pages_of Q s xs" for Q
    using dist by (auto intro!: pages_of_cong)
  have pg1: "pages (range_at ?s1 x) = {lo r..<unat ps}" using r u inside by (auto simp: pages_def lo_def hi_def)
  have pur1: "purged (range_at ?s1 x) = purged r" using r by simp
  have pin: "pin_hit ps pe (range_at s x) \<longleftrightarrow> purged r" using r inside req by (auto simp: pin_hit_def tests_iff)
  have "left_of alloc ps pe Q s xs = pages_of Q s xs" for Q
    by (rule left_of_below) (use later inside req in \<open>auto intro: order_trans less_imp_le\<close>)
  then have rhs: "left_of alloc ps pe Q s (x # xs)
      = (if Q (purged r) then {lo r..<unat ps} \<union> (if alloc = None then {} else {unat pe + 1..<hi r}) else {}) \<union> pages_of Q s xs" for Q
    using inside req by (auto simp: r pages_left_def pages_def)
  show ?thesis
  proof (cases alloc)
    case None
    have "pages_of Q ?s1 (unpinned_list (area_at ?s1 a)) = pages_of Q s dn \<union> left_of alloc ps pe Q s (x # xs)" for Q
      unfolding rhs using A None by (auto simp: cong pg1 pur1 simp del: range_shrink_simps(2))
    then show ?thesis using None inv1 kept1 hit pin nohit by (auto simp: pin_post_def simp del: left_of_simps)
  next
    case (Some n)
    have n: "ranges s n = None" using fresh Some by (simp add: fresh_alloc_def)
    then have nx: "n \<noteq> x" "n \<notin> set dn" "n \<notin> set xs" using r ia(2) A(2) by force+
    let ?s2 = "snd (range_alloc (Some n) a (Some x) (purged r) (pe + 1) (pgend r) ?s1)"
    have n1: "ranges ?s1 n = None" using n nx by simp
    have A1: "areas ?s1 a = Some A" using A by simp
    have gap: "gap_at (Some x) (unpinned_list A) dn (x # xs)" by (simp add: gap_at_def A)
    have inv2: "ashmem_inv ?s2"
    proof (rule inv_range_alloc [OF inv1 n1 A1 _ gap])
      show "area_file A \<noteq> None" using ia(4) A(2) by simp
      show "unat (pe + 1) \<le> unat (pgend r) + 1" using inside by (simp add: u hi_def)
      show "unat (pgend r) + 1 \<le> lo (range_at ?s1 y)" if "y \<in> set dn" for y
        using earlier [OF that] that dist by (auto simp: hi_def)
      show "hi (range_at ?s1 y) \<le> unat (pe + 1)" if "y \<in> set (x # xs)" for y
        using that later [of y] inside req dist by (auto simp: u hi_def r)
    qed
    have lst2: "unpinned_list (area_at ?s2 a) = dn @ n # x # xs"
      using A dist by (simp add: range_alloc_Some insert_before_append)
    have "pages_of Q ?s2 dn = pages_of Q ?s1 dn" "pages_of Q ?s2 xs = pages_of Q ?s1 xs" "pages_of Q ?s2 [x] = pages_of Q ?s1 [x]" for Q
      using nx by (auto intro!: pages_of_cong simp: range_alloc_Some)
    moreover have "pages_of Q ?s2 [n] = (if Q (purged r) then {unat pe + 1..<hi r} else {})" for Q
      by (simp add: range_alloc_Some pages_def lo_def hi_def u)
    moreover have "pages_of Q ?s1 [x] = (if Q (purged r) then {lo r..<unat ps} else {})" for Q
      using pg1 pur1 by (simp del: range_shrink_simps(2))
    moreover have "pages_of Q ?s2 (dn @ n # x # xs) = pages_of Q ?s2 dn \<union> pages_of Q ?s2 [n] \<union> pages_of Q ?s2 [x] \<union> pages_of Q ?s2 xs" for Q
      by auto
    ultimately have "pages_of Q ?s2 (dn @ n # x # xs) = pages_of Q s dn \<union> left_of alloc ps pe Q s (x # xs)" for Q
      unfolding rhs by (auto simp: cong Some)
    moreover have "others_kept a s ?s2" using others_kept_trans [OF kept1 others_kept_alloc [OF A1 n1]] .
    ultimately show ?thesis
      using Some inv2 hit pin nohit unfolding Some shrink_alloc_commute [OF r nx(1)]
      by (auto simp: pin_post_def lst2 simp del: left_of_simps)
  qed
qed

lemma pin_loop_post:
  assumes "ashmem_inv s" "areas s a = Some A" "unpinned_list A = dn @ xs" "unat ps \<le> unat pe + 1" "fresh_alloc alloc s"
  shows "pin_post alloc a ps pe ret dn xs s (ashmem_pin_loop alloc a ps pe xs ret s)"
  using assms
proof (induction xs arbitrary: s A dn ret)
  case Nil
  then show ?case by (auto simp: pin_post_def others_kept_refl)
next
  case (Cons x xs)
  note inv = Cons.prems(1) and A = Cons.prems(2) and lst = Cons.prems(3) and req = Cons.prems(4) and fresh = Cons.prems(5)
  define l h where "l = unat ps" and "h = unat pe + 1"
  note ia = inv_area [OF inv A]
  obtain r where r: "ranges s x = Some r" "range_asma r = a" "range_wf r" using ia(2) [of x] lst by auto
  have later: "hi (range_at s y) \<le> lo r" if "y \<in> set xs" for y
    using ia(3) that r unfolding lst by (auto simp: sorted_wrt_append)
  have earlier: "hi r \<le> lo (range_at s y)" if "y \<in> set dn" for y
    using ia(3) that r unfolding lst by (auto simp: sorted_wrt_append)
  have dist: "x \<notin> set dn" "x \<notin> set xs" "distinct (dn @ x # xs)" using ia(1) lst by auto
  have tests: "range_before_page r ps \<longleftrightarrow> hi r \<le> l"
    "page_range_subsumes_range r ps pe \<longleftrightarrow> l \<le> lo r \<and> hi r \<le> h"
    "page_range_in_range r ps pe \<longleftrightarrow> (lo r \<le> l \<and> l < hi r) \<or> (lo r < h \<and> h \<le> hi r) \<or> (l \<le> lo r \<and> hi r \<le> h)"
    "pgstart r \<ge> ps \<longleftrightarrow> l \<le> lo r" "pgend r \<le> pe \<longleftrightarrow> hi r \<le> h"
    unfolding l_def h_def by (rule tests_iff)+
  have lh: "l \<le> h" "0 < h" using req by (simp_all add: l_def h_def)
  show ?case
  proof (cases "range_before_page r ps")
    case before: True
    then have hl: "hi r \<le> l" by (simp add: tests)
    have "hi (range_at s y) \<le> unat ps" if "y \<in> set (x # xs)" for y
      using that hl later [of y] r by (auto simp: range_wf_def l_def)
    moreover have "\<not> pin_hit ps pe (range_at s y)" if "y \<in> set (x # xs)" for y
      using that hl later [of y] r(3) by (auto simp: pin_hit_def tests_iff l_def [symmetric] r range_wf_def)
    ultimately show ?thesis using before r pin_post_stop [OF inv A lst _ req] by simp
  next
    case nb: False
    then have hl: "l < hi r" by (simp add: tests)
    show ?thesis
    proof (cases "page_range_in_range r ps pe")
      case out: False
      then have "h \<le> lo r" using not_in_range_above [OF nb out req] by (simp add: h_def)
      then have "pages_of Q s [x] = left_of alloc ps pe Q s [x]" for Q
        using lh unfolding l_def h_def by (auto simp: r pages_left_def pages_def)
      moreover have "unpinned_list A = (dn @ [x]) @ xs" using lst by simp
      note post = Cons.IH [OF inv A this req fresh, of ret]
      ultimately have "pin_post alloc a ps pe ret dn (x # xs) s (ashmem_pin_loop alloc a ps pe xs ret s)"
        using out r by (intro pin_post_step [OF post others_kept_refl [OF A]]) (auto simp: pin_hit_def)
      then show ?thesis using nb out r by simp
    next
      case in_range: True
      have hit: "pin_hit ps pe (range_at s x) \<longleftrightarrow> purged r" using r in_range nb by (simp add: pin_hit_def)
      show ?thesis
      proof (cases "l \<le> lo r \<and> hi r \<le> h")
        case subsumes: True
        let ?s1 = "range_del x s" and ?A1 = "unpinned_list_update (remove1 x) A"
        have A1: "areas ?s1 a = Some ?A1" using A r by simp
        have lst1: "unpinned_list ?A1 = (dn @ []) @ xs" using lst dist by (simp add: remove1_append)
        have "fresh_alloc alloc ?s1" using fresh by (simp add: fresh_alloc_def)
        note post = Cons.IH [OF inv_range_del [OF inv r(1)] A1 lst1 req this, of "ret \<or> purged r"]
        have "pin_post alloc a ps pe ret dn (x # xs) s (ashmem_pin_loop alloc a ps pe xs (ret \<or> purged r) ?s1)"
          by (rule pin_post_step [OF post others_kept_del [OF A r(1,2)]])
            (use hit dist subsumes r in \<open>auto simp: pages_left_def pages_def l_def h_def\<close>)
        then show ?thesis using nb in_range subsumes r by (simp add: tests Let_def)
      next
        case nsub: False
        have shrunk: "pin_post alloc a ps pe ret dn (x # xs) s (ashmem_pin_loop alloc a ps pe xs (ret \<or> purged r) (range_shrink x u v s))"
          if uv: "lo r \<le> unat u" "unat v + 1 \<le> hi r" "unat u \<le> unat v + 1" "{unat u..<unat v + 1} = pages_left alloc ps pe r" for u v
        proof -
          let ?s1 = "range_shrink x u v s"
          have A1: "areas ?s1 a = Some A" using A by simp
          have lst1: "unpinned_list A = (dn @ [x]) @ xs" using lst by simp
          have "fresh_alloc alloc ?s1" using fresh r by (auto simp: fresh_alloc_def)
          note post = Cons.IH [OF inv_range_shrink [OF inv r(1) uv(1-3)] A1 lst1 req this, of "ret \<or> purged r"]
          show ?thesis
            by (rule pin_post_step [OF post others_kept_shrink [OF A r(1,2)]])
              (use hit dist r uv(4) in \<open>auto simp: pages_def lo_def hi_def\<close>)
        qed
        show ?thesis
        proof (cases "l \<le> lo r")
          case front: True
          then have "h < hi r" "lo r \<le> h" using nsub in_range lh unfolding tests by auto
          moreover from this have u: "unat (pe + 1) = h" using unat_succ [of pe] hi_le [of r] by (simp add: h_def)
          ultimately have "pin_post alloc a ps pe ret dn (x # xs) s (ashmem_pin_loop alloc a ps pe xs (ret \<or> purged r) (range_shrink x (pe + 1) (pgend r) s))"
            using front by (intro shrunk) (auto simp: hi_def u pages_left_def pages_def l_def h_def)
          then show ?thesis using nb in_range nsub front r by (simp add: tests Let_def)
        next
          case nfront: False
          then have u: "unat (ps - 1) + 1 = l" using unat_pred [of ps] by (simp add: l_def)
          show ?thesis
          proof (cases "hi r \<le> h")
            case rear: True
            have "pin_post alloc a ps pe ret dn (x # xs) s (ashmem_pin_loop alloc a ps pe xs (ret \<or> purged r) (range_shrink x (pgstart r) (ps - 1) s))"
              by (rule shrunk) (use rear nfront hl u in \<open>auto simp: lo_def pages_left_def pages_def l_def h_def\<close>)
            then show ?thesis using nb in_range nsub nfront rear r by (simp add: tests Let_def)
          next
            case False
            then show ?thesis
              using nb in_range nfront r pin_post_split [OF inv A lst r(1) fresh req, of "ret \<or> purged r" ret]
              by (simp add: tests Let_def l_def h_def)
          qed
        qed
      qed
    qed
  qed
qed


lemma pin_post:
  assumes "ashmem_inv s" "areas s a = Some A" "unat ps \<le> unat pe + 1" "fresh_alloc alloc s"
  shows "pin_post alloc a ps pe False [] (unpinned_list A) s (ashmem_pin alloc a ps pe s)"
  using pin_loop_post [OF assms(1,2) _ assms(3,4), of "[]"] assms(2) by (simp add: ashmem_pin_def)

text \<open>The pages behind the request in the range that it splits, if it splits one.\<close>

definition split_tail :: "size_t \<Rightarrow> size_t \<Rightarrow> ashmem_state \<Rightarrow> aid \<Rightarrow> nat set" where
  "split_tail ps pe s a =
    (\<Union>x\<in>{x \<in> set (unpinned_list (area_at s a)). lo (range_at s x) < unat ps}. {unat pe + 1..<hi (range_at s x)})"

lemma pages_disjoint:
  assumes "sorted_wrt (\<lambda>x y. hi (range_at s y) \<le> lo (range_at s x)) xs" "x \<in> set xs" "y \<in> set xs"
    and "p \<in> pages (range_at s x)" "p \<in> pages (range_at s y)"
  shows "x = y"
  using assms by (induction xs) (fastforce simp: pages_def)+

lemma left_of_tail:
  assumes "ashmem_inv s" "areas s a = Some A" "unat ps \<le> unat pe + 1"
  shows "left_of alloc ps pe Q s (unpinned_list A)
    = pages_of Q s (unpinned_list A) - {unat ps..<unat pe + 1} - (if alloc = None then split_tail ps pe s a else {})"
proof -
  have uniq: "x = y" if "x \<in> set (unpinned_list A)" "y \<in> set (unpinned_list A)" "lo (range_at s x) < unat ps"
    "unat pe + 1 \<le> p" "p < hi (range_at s x)" "p \<in> pages (range_at s y)" for x y p
    by (rule pages_disjoint [OF inv_area(3) [OF assms(1,2)] that(1,2) _ that(6)]) (use that(3-5) assms(3) in \<open>simp add: pages_def\<close>)
  show ?thesis
  proof (cases "alloc = None")
    case True
    have "p \<in> pages_left alloc ps pe (range_at s y) \<longleftrightarrow>
        p \<in> pages (range_at s y) \<and> p \<notin> {unat ps..<unat pe + 1} \<and> p \<notin> split_tail ps pe s a" if "y \<in> set (unpinned_list A)" for p y
      using uniq [OF _ that] that assms(2) True by (auto simp: pages_left_def split_tail_def pages_def)
    then show ?thesis using True by (auto simp: left_of_def pages_of_def)
  next
    case False
    then show ?thesis by (auto simp: left_of_def pages_of_def pages_left_def)
  qed
qed

section \<open>Unpinning\<close>

definition insert_ok :: "size_t \<Rightarrow> size_t \<Rightarrow> ashmem_state \<Rightarrow> rid option \<Rightarrow> rid list \<Rightarrow> bool" where
  "insert_ok ps pe s p xs \<longleftrightarrow> (\<exists>pre post. gap_at p xs pre post
    \<and> (\<forall>y\<in>set pre. unat pe + 1 \<le> lo (range_at s y)) \<and> (\<forall>y\<in>set post. hi (range_at s y) \<le> unat ps))"

lemma insert_ok_Nil: "insert_ok ps pe s None []"
  unfolding insert_ok_def gap_at_def by (rule exI [of _ "[]"], rule exI [of _ "[]"]) simp

lemma insert_ok_here: "(\<And>y. y \<in> set (x # xs) \<Longrightarrow> hi (range_at s y) \<le> unat ps) \<Longrightarrow> insert_ok ps pe s (Some x) (x # xs)"
  unfolding insert_ok_def gap_at_def by (rule exI [of _ "[]"], rule exI [of _ "x # xs"]) simp

lemma insert_ok_Cons: "insert_ok ps pe s p xs \<Longrightarrow> unat pe + 1 \<le> lo (range_at s x) \<Longrightarrow> insert_ok ps pe s p (x # xs)"
  unfolding insert_ok_def gap_at_def by (metis append_Cons set_ConsD)

lemma unpin_scan_cases:
  assumes "sorted_wrt (\<lambda>x y. hi (range_at s y) \<le> lo (range_at s x)) xs"
    and "\<And>x. x \<in> set xs \<Longrightarrow> range_wf (range_at s x)" and req: "unat ps \<le> unat pe + 1"
  shows "case ashmem_unpin_scan ps pe xs s of
      Already_unpinned \<Rightarrow> {unat ps..<unat pe + 1} \<subseteq> pages_of (\<lambda>_. True) s xs
    | Merge_with x \<Rightarrow> x \<in> set xs \<and> page_range_in_range (range_at s x) ps pe
    | Insert_at p \<Rightarrow> insert_ok ps pe s p xs"
  using assms(1,2)
proof (induction xs)
  case Nil
  then show ?case by (simp add: insert_ok_Nil)
next
  case (Cons x xs)
  let ?r = "range_at s x"
  show ?case
  proof (cases "range_before_page ?r ps")
    case True
    have "hi (range_at s y) \<le> unat ps" if "y \<in> set (x # xs)" for y
    proof -
      have "hi ?r \<le> unat ps" "lo ?r \<le> hi ?r" using True Cons.prems(2) [of x] by (simp_all add: tests_iff range_wf_def)
      with that Cons.prems(1) show ?thesis by (auto intro: order_trans)
    qed
    from insert_ok_here [OF this] True show ?thesis by (simp add: Let_def)
  next
    case nb: False
    consider "page_range_subsumed_by_range ?r ps pe" | "\<not> page_range_subsumed_by_range ?r ps pe" "page_range_in_range ?r ps pe"
      | "\<not> page_range_subsumed_by_range ?r ps pe" "\<not> page_range_in_range ?r ps pe" by blast
    then show ?thesis
    proof cases
      case 1
      then have "{unat ps..<unat pe + 1} \<subseteq> pages ?r" by (auto simp: tests_iff pages_def)
      with 1 nb show ?thesis by (auto simp: Let_def)
    next
      case 2
      with nb show ?thesis by (simp add: Let_def)
    next
      case 3
      have "unat pe + 1 \<le> lo ?r" using not_in_range_above [OF nb 3(2) req] .
      with 3 nb Cons show ?thesis by (auto simp: Let_def insert_ok_Cons split: unpin_scan.splits)
    qed
  qed
qed

text \<open>Intervals that touch: their union is the interval from the smaller start to the greater end.\<close>

lemma merge_interval:
  assumes "page_range_in_range r ps pe" "unat ps \<le> unat pe + 1" "range_wf r"
  shows "{unat (min (pgstart r) ps)..<unat (max (pgend r) pe) + 1} = pages r \<union> {unat ps..<unat pe + 1}"
    and "unat (min (pgstart r) ps) \<le> unat (max (pgend r) pe) + 1"
proof -
  have m: "unat (min (pgstart r) ps) = min (lo r) (unat ps)" "unat (max (pgend r) pe) + 1 = max (hi r) (unat pe + 1)"
    by (auto simp: min_def max_def lo_def hi_def word_le_nat_alt)
  show "unat (min (pgstart r) ps) \<le> unat (max (pgend r) pe) + 1" unfolding m using assms(2) by simp
  show "{unat (min (pgstart r) ps)..<unat (max (pgend r) pe) + 1} = pages r \<union> {unat ps..<unat pe + 1}"
    unfolding m pages_def using assms unfolding tests_iff range_wf_def by auto
qed

lemma pages_of_remove1:
  assumes "distinct xs" "x \<in> set xs"
  shows "pages_of Q s xs = (if Q (purged (range_at s x)) then pages (range_at s x) else {}) \<union> pages_of Q (range_del x s) (remove1 x xs)"
proof -
  have "pages_of Q (range_del x s) (remove1 x xs) = pages_of Q s (remove1 x xs)"
    using assms(1) by (intro pages_of_cong) auto
  with assms show ?thesis by (auto simp: pages_of_def)
qed

lemma range_pages_disjoint:
  assumes "sorted_wrt (\<lambda>x y. hi (range_at s y) \<le> lo (range_at s x)) xs" "x \<in> set xs" "y \<in> set xs" "x \<noteq> y"
  shows "pages (range_at s x) \<inter> pages (range_at s y) = {}"
  using assms by (induction xs) (auto simp: pages_def)

text \<open>
  \<open>G\<close> is the set of purged pages whose ranges the loop has taken out so far; they lie in the
  interval that is to be linked in.
\<close>

definition unpin_post :: "rid option \<Rightarrow> aid \<Rightarrow> size_t \<Rightarrow> size_t \<Rightarrow> nat set \<Rightarrow> ashmem_state \<Rightarrow> unit kresult \<times> ashmem_state \<Rightarrow> bool" where
  "unpin_post alloc a ps pe G s out \<longleftrightarrow>
    ashmem_inv (snd out) \<and> others_kept a s (snd out)
    \<and> (case fst out of
         Inr _ \<Rightarrow> unpinned_pages (snd out) a = unpinned_pages s a \<union> {unat ps..<unat pe + 1}
           \<and> purged_pages s a \<union> G \<subseteq> purged_pages (snd out) a
       | Inl e \<Rightarrow> e = ENOMEM \<and> alloc = None \<and> unpinned_pages (snd out) a \<subseteq> unpinned_pages s a)"

lemma unpin_loop_post:
  assumes "ashmem_inv s" "areas s a = Some A" "area_file A \<noteq> None" "unat ps \<le> unat pe + 1" "fresh_alloc alloc s"
    "G \<subseteq> {unat ps..<unat pe + 1}" "G \<inter> unpinned_pages s a = {}" "G \<noteq> {} \<longrightarrow> purg"
  shows "unpin_post alloc a ps pe G s (ashmem_unpin_loop alloc a ps pe purg s)"
  using assms
proof (induction alloc a ps pe purg s arbitrary: A G rule: ashmem_unpin_loop.induct)
  case (1 alloc a ps pe purg s)
  note inv = "1.prems"(1) and A = "1.prems"(2) and fl = "1.prems"(3) and req = "1.prems"(4) and fresh = "1.prems"(5)
    and G = "1.prems"(6-8)
  note ia = inv_area [OF inv A]
  have wf: "range_wf (range_at s x)" if "x \<in> set (unpinned_list A)" for x using ia(2) [OF that] by auto
  note scan = unpin_scan_cases [OF ia(3) wf req]
  show ?case
  proof (cases "ashmem_unpin_scan ps pe (unpinned_list A) s")
    case Already_unpinned
    with scan have "{unat ps..<unat pe + 1} \<subseteq> unpinned_pages s a" using A by (simp add: unpinned_pages_def)
    moreover from this G have "G = {}" by blast
    moreover have "ashmem_unpin_loop alloc a ps pe purg s = (Inr (), s)"
      using Already_unpinned A by (subst ashmem_unpin_loop.simps) simp
    ultimately show ?thesis using inv A by (auto simp: unpin_post_def others_kept_refl)
  next
    case (Merge_with x)
    let ?r = "range_at s x" and ?s1 = "range_del x s" and ?A1 = "unpinned_list_update (remove1 x) A"
    let ?ps = "min (pgstart (range_at s x)) ps" and ?pe = "max (pgend (range_at s x)) pe"
    let ?G = "G \<union> (if purged (range_at s x) then pages (range_at s x) else {})"
    from scan Merge_with have x: "x \<in> set (unpinned_list A)" and inr: "page_range_in_range ?r ps pe" by auto
    then obtain r where r: "ranges s x = Some r" "range_asma r = a" "range_wf r" using ia(2) by blast
    note merged = merge_interval [OF inr req wf [OF x]]
    have A1: "areas ?s1 a = Some ?A1" using A r by simp
    have pg: "pages_of Q s (unpinned_list A) = (if Q (purged r) then pages r else {}) \<union> pages_of Q ?s1 (remove1 x (unpinned_list A))" for Q
      using pages_of_remove1 [OF ia(1) x] r by simp
    have up: "unpinned_pages s a = pages r \<union> unpinned_pages ?s1 a" "purged_pages s a = (if purged r then pages r else {}) \<union> purged_pages ?s1 a"
      using pg A A1 by (auto simp: unpinned_pages_def purged_pages_def)
    have disj: "pages r \<inter> unpinned_pages ?s1 a = {}"
    proof -
      have "pages r \<inter> pages (range_at s y) = {}" if "y \<in> set (remove1 x (unpinned_list A))" for y
        using range_pages_disjoint [OF ia(3) x, of y] that ia(1) r by auto
      moreover have "range_at ?s1 y = range_at s y" if "y \<in> set (remove1 x (unpinned_list A))" for y
        using that ia(1) by auto
      ultimately show ?thesis using A1 by (fastforce simp: unpinned_pages_def pages_of_def simp del: range_del_simps(2))
    qed
    have "unpin_post alloc a ?ps ?pe ?G ?s1 (ashmem_unpin_loop alloc a ?ps ?pe (purg \<or> purged ?r) ?s1)"
    proof (rule "1.IH" [OF A Merge_with refl _ inv_range_del [OF inv r(1)] A1])
      show "\<not> range_asma ?r \<noteq> a" "area_file ?A1 \<noteq> None" using r fl by simp_all
      show "unat ?ps \<le> unat ?pe + 1" by (rule merged(2))
      show "fresh_alloc alloc ?s1" using fresh by (simp add: fresh_alloc_def)
      show "?G \<subseteq> {unat ?ps..<unat ?pe + 1}" unfolding merged(1) using G by auto
      show "?G \<inter> unpinned_pages ?s1 a = {}" using G up disj r by auto
      show "?G \<noteq> {} \<longrightarrow> purg \<or> purged ?r" using G by auto
    qed
    moreover have "ashmem_unpin_loop alloc a ps pe purg s = ashmem_unpin_loop alloc a ?ps ?pe (purg \<or> purged ?r) ?s1"
      using Merge_with A r by (subst ashmem_unpin_loop.simps) (simp add: Let_def)
    moreover note others_kept_trans [OF others_kept_del [OF A r(1,2)]]
    ultimately show ?thesis using up r unfolding unpin_post_def merged(1) by (auto split: sum.splits)
  next
    case (Insert_at p)
    then obtain pre post where gap: "gap_at p (unpinned_list A) pre post"
      and above: "\<And>y. y \<in> set pre \<Longrightarrow> unat pe + 1 \<le> lo (range_at s y)"
      and below: "\<And>y. y \<in> set post \<Longrightarrow> hi (range_at s y) \<le> unat ps"
      using scan by (auto simp: insert_ok_def)
    have step: "ashmem_unpin_loop alloc a ps pe purg s = range_alloc alloc a p purg ps pe s"
      using Insert_at A by (subst ashmem_unpin_loop.simps) simp
    show ?thesis
    proof (cases alloc)
      case None
      then show ?thesis unfolding step using inv A by (simp add: unpin_post_def others_kept_refl)
    next
      case (Some n)
      let ?s1 = "snd (range_alloc (Some n) a p purg ps pe s)"
      have n: "ranges s n = None" using fresh Some by (simp add: fresh_alloc_def)
      then have nin: "n \<notin> set (unpinned_list A)" using ia(2) by force
      have lst: "unpinned_list (area_at ?s1 a) = pre @ n # post"
        using A insert_before_gap [OF ia(1) gap, of n] by (simp add: range_alloc_Some)
      have xs: "unpinned_list A = pre @ post" using gap by (simp add: gap_at_def)
      have cong: "pages_of Q ?s1 ys = pages_of Q s ys" if "set ys \<subseteq> set (unpinned_list A)" for Q ys
        using that nin by (intro pages_of_cong) (auto simp: range_alloc_Some)
      have "pages_of Q ?s1 [n] = (if Q purg then {unat ps..<unat pe + 1} else {})" for Q
        by (simp add: range_alloc_Some pages_def lo_def hi_def)
      moreover have "pages_of Q ?s1 (pre @ n # post) = pages_of Q ?s1 pre \<union> pages_of Q ?s1 [n] \<union> pages_of Q ?s1 post" for Q by auto
      ultimately have "pages_of Q ?s1 (unpinned_list (area_at ?s1 a)) = pages_of Q s (unpinned_list A) \<union> (if Q purg then {unat ps..<unat pe + 1} else {})" for Q
        unfolding lst using cong [of pre Q] cong [of post Q] xs by auto
      then have "unpinned_pages ?s1 a = unpinned_pages s a \<union> {unat ps..<unat pe + 1}" "purged_pages s a \<union> G \<subseteq> purged_pages ?s1 a"
        using A G by (auto simp: unpinned_pages_def purged_pages_def)
      moreover have "ashmem_inv ?s1" by (rule inv_range_alloc [OF inv n A fl gap req above below])
      moreover have "others_kept a s ?s1" by (rule others_kept_alloc [OF A n])
      ultimately show ?thesis unfolding step using Some by (simp add: unpin_post_def range_alloc_Some)
    qed
  qed
qed

lemma unpin_post:
  assumes "ashmem_inv s" "areas s a = Some A" "area_file A \<noteq> None" "unat ps \<le> unat pe + 1" "fresh_alloc alloc s"
  shows "unpin_post alloc a ps pe {} s (ashmem_unpin alloc a ps pe s)"
  using unpin_loop_post [OF assms, of "{}" False] by (simp add: ashmem_unpin_def)

end
