(* ===== verification/Ashmem_Ops.thy ===== *)
theory Ashmem_Ops
  imports Ashmem_Pin
begin

text \<open>The remaining operations of \<^verbatim>\<open>mm/ashmem.c\<close>: pin status, shrinker, \<^verbatim>\<open>open\<close>, \<^verbatim>\<open>release\<close>, \<^verbatim>\<open>mmap\<close>, names and
  protection masks keep the invariant; the driver as a step relation, what holds in every reachable
  state, and the properties of the driver.\<close>

unbundle bit_operations_syntax

section \<open>Pin status\<close>

lemma pin_status_loop_iff:
  assumes "sorted_wrt (\<lambda>x y. hi (range_at s y) \<le> lo (range_at s x)) xs"
    and "\<And>x. x \<in> set xs \<Longrightarrow> range_wf (range_at s x)"
  shows "pin_status_loop ps pe xs s \<longleftrightarrow> (\<exists>x\<in>set xs. page_range_in_range (range_at s x) ps pe \<and> \<not> range_before_page (range_at s x) ps)"
  using assms
proof (induction xs)
  case (Cons x xs)
  let ?r = "range_at s x"
  show ?case
  proof (cases "range_before_page ?r ps")
    case True
    have "range_before_page (range_at s y) ps" if "y \<in> set (x # xs)" for y
    proof -
      have "hi ?r \<le> unat ps" "lo ?r \<le> hi ?r" using True Cons.prems(2) [of x] by (simp_all add: tests_iff range_wf_def)
      with that Cons.prems(1) show ?thesis by (auto simp: tests_iff intro: order_trans)
    qed
    with True show ?thesis by (auto simp: Let_def)
  qed (use Cons in \<open>auto simp: Let_def\<close>)
qed simp

lemma get_pin_status_iff:
  assumes "ashmem_inv s" "areas s a = Some A" "ps \<le> pe" "\<And>x. x \<in> set (unpinned_list A) \<Longrightarrow> pages (range_at s x) \<noteq> {}"
  shows "ashmem_get_pin_status a ps pe s \<longleftrightarrow> {unat ps..<unat pe + 1} \<inter> unpinned_pages s a \<noteq> {}"
proof -
  note ia = inv_area [OF assms(1,2)]
  have wf: "range_wf (range_at s x)" if "x \<in> set (unpinned_list A)" for x using ia(2) [OF that] by auto
  have "page_range_in_range (range_at s x) ps pe \<and> \<not> range_before_page (range_at s x) ps
      \<longleftrightarrow> {unat ps..<unat pe + 1} \<inter> pages (range_at s x) \<noteq> {}" if "x \<in> set (unpinned_list A)" for x
  proof -
    have "max (unat ps) (lo (range_at s x)) < min (unat pe + 1) (hi (range_at s x)) \<longleftrightarrow> {unat ps..<unat pe + 1} \<inter> pages (range_at s x) \<noteq> {}"
      by (auto simp: pages_def Int_atLeastLessThan)
    moreover have "lo (range_at s x) < hi (range_at s x)" using assms(4) [OF that] by (simp add: pages_def)
    moreover have "unat ps < unat pe + 1" using assms(3) by (simp add: word_le_nat_alt)
    ultimately show ?thesis unfolding tests_iff by linarith
  qed
  then show ?thesis using pin_status_loop_iff [OF ia(3) wf, of ps pe] assms(2)
    by (auto simp: ashmem_get_pin_status_def unpinned_pages_def pages_of_def)
qed

section \<open>The shrinker\<close>

definition purge_step :: "rid \<Rightarrow> fid \<Rightarrow> ashmem_state \<Rightarrow> ashmem_state" where
  "purge_step x f s =
    (let r = range_at s x in
     lru_del x (s\<lparr>truncated := truncated s @ [(f, pgstart r * 4096, (pgend r + 1) * 4096 - 1)],
                  ranges := (ranges s)(x \<mapsto> r\<lparr>purged := True\<rparr>)\<rparr>))"

lemma purge_step_simps [simp]:
  "areas (purge_step x f s) = areas s" "files (purge_step x f s) = files s"
  "ranges (purge_step x f s) = (ranges s)(x \<mapsto> (range_at s x)\<lparr>purged := True\<rparr>)"
  "ashmem_lru_list (purge_step x f s) = remove1 x (ashmem_lru_list s)"
  "lru_count (purge_step x f s) = lru_count s - range_size (range_at s x)"
  by (simp_all add: purge_step_def Let_def lru_del_def range_size_def)

lemma inv_purge_step:
  assumes inv: "ashmem_inv s" and x: "x \<in> set (ashmem_lru_list s)"
  shows "ashmem_inv (purge_step x f s)"
proof -
  let ?s = "purge_step x f s"
  from inv x obtain r where r: "ranges s x = Some r" "\<not> purged r" unfolding ashmem_inv_def by blast
  have "area_ok ?s a A" if "areas ?s a = Some A" for a A
  proof -
    have ok: "area_ok s a A" using inv that by (simp add: ashmem_inv_def)
    have "sorted_wrt (\<lambda>x y. hi (range_at ?s y) \<le> lo (range_at ?s x)) (unpinned_list A)"
      using ok unfolding area_ok_def by (auto simp: r lo_def hi_def elim!: sorted_wrt_mono_rel [rotated])
    with ok r show ?thesis unfolding area_ok_def by (fastforce simp: range_wf_def lo_def hi_def)
  qed
  moreover have "\<exists>B. areas ?s (range_asma q) = Some B \<and> y \<in> set (unpinned_list B)" if q: "ranges ?s y = Some q" for y q
  proof -
    obtain q' where "ranges s y = Some q'" "range_asma q' = range_asma q" using q r by (cases "y = x") auto
    with inv show ?thesis unfolding ashmem_inv_def by force
  qed
  moreover have d: "distinct (ashmem_lru_list s)" using inv by (simp add: ashmem_inv_def)
  then have "distinct (ashmem_lru_list ?s)" "set (ashmem_lru_list ?s) = {y. \<exists>q. ranges ?s y = Some q \<and> \<not> purged q}"
    using inv r unfolding ashmem_inv_def by auto
  moreover have "lru_count ?s = (\<Sum>y\<leftarrow>ashmem_lru_list ?s. range_size (range_at ?s y))"
  proof -
    have "(\<Sum>y\<leftarrow>remove1 x (ashmem_lru_list s). range_size (range_at ?s y)) = (\<Sum>y\<leftarrow>remove1 x (ashmem_lru_list s). range_size (range_at s y))"
      using d by (intro sum_list_same_word) auto
    with inv x show ?thesis by (simp add: ashmem_inv_def sum_list_remove1_word)
  qed
  ultimately show ?thesis unfolding ashmem_inv_def by blast
qed

lemma pages_purge_step:
  assumes "x \<in> set (ashmem_lru_list s)" "ashmem_inv s"
  shows "unpinned_pages (purge_step x f s) a = unpinned_pages s a" "purged_pages s a \<subseteq> purged_pages (purge_step x f s) a"
proof -
  from assms obtain r where r: "ranges s x = Some r" unfolding ashmem_inv_def by blast
  have pg: "pages (range_at (purge_step x f s) y) = pages (range_at s y)" for y
    using r by (auto simp: pages_def lo_def hi_def)
  have "purged (range_at s y) \<Longrightarrow> purged (range_at (purge_step x f s) y)" for y using r by auto
  then show "purged_pages s a \<subseteq> purged_pages (purge_step x f s) a"
    unfolding purged_pages_def pages_of_def using pg by (fastforce simp del: purge_step_simps(3))
  show "unpinned_pages (purge_step x f s) a = unpinned_pages s a"
    unfolding unpinned_pages_def pages_of_def using pg by (simp del: purge_step_simps(3))
qed

definition lru_ranges :: "ashmem_state \<Rightarrow> ashmem_range list" where
  "lru_ranges s = map (range_at s) (ashmem_lru_list s)"

definition lru_sizes :: "ashmem_state \<Rightarrow> ulong list" where
  "lru_sizes s = map range_size (lru_ranges s)"

lemma shrink_loop_post:
  assumes "ashmem_inv s" "ashmem_lru_list s = xs"
  shows "\<exists>s' k. ashmem_shrink_loop xs nr s = Some s' \<and> ashmem_inv s' \<and> k \<le> length xs
    \<and> ashmem_lru_list s' = drop k xs \<and> (k = length xs \<or> sint (nr - sum_list (take k (lru_sizes s))) \<le> 0)
    \<and> areas s' = areas s \<and> files s' = files s
    \<and> (\<forall>a. unpinned_pages s' a = unpinned_pages s a \<and> purged_pages s a \<subseteq> purged_pages s' a)
    \<and> lru_count s' = lru_count s - sum_list (take k (lru_sizes s)) \<and> lru_ranges s' = drop k (lru_ranges s)"
  using assms
proof (induction xs arbitrary: s nr)
  case (Cons x xs)
  note inv = Cons.prems(1)
  have x: "x \<in> set (ashmem_lru_list s)" using Cons.prems(2) by simp
  then obtain r A where r: "ranges s x = Some r" and A: "areas s (range_asma r) = Some A" "x \<in> set (unpinned_list A)"
    using inv unfolding ashmem_inv_def by blast
  then obtain f where f: "area_file A = Some f" using inv_area(4) [OF inv A(1)] by fastforce
  let ?s1 = "purge_step x f s" and ?nr = "nr - range_size r"
  have step: "ashmem_shrink_loop (x # xs) nr s = (if sint ?nr \<le> 0 then Some ?s1 else ashmem_shrink_loop xs ?nr ?s1)"
    using r A f by (simp add: purge_step_def Let_def)
  note inv1 = inv_purge_step [OF inv x, of f]
  have lst1: "ashmem_lru_list ?s1 = xs" using Cons.prems(2) by simp
  have "x \<notin> set xs" using inv Cons.prems(2) by (simp add: ashmem_inv_def)
  then have rg: "lru_ranges s = r # lru_ranges ?s1" unfolding lru_ranges_def lst1 Cons.prems(2) using r by simp
  then have sz: "lru_sizes s = range_size r # lru_sizes ?s1" by (simp add: lru_sizes_def)
  show ?case
  proof (cases "sint ?nr \<le> 0")
    case True
    show ?thesis
      by (rule exI [of _ ?s1], rule exI [of _ 1])
        (use True step inv1 lst1 sz rg r pages_purge_step [OF x inv, where f = f] in simp)
  next
    case False
    from Cons.IH [OF inv1 lst1, of ?nr] obtain s' k where s': "ashmem_shrink_loop xs ?nr ?s1 = Some s'" "ashmem_inv s'" "k \<le> length xs"
      "ashmem_lru_list s' = drop k xs" "k = length xs \<or> sint (?nr - sum_list (take k (lru_sizes ?s1))) \<le> 0"
      "areas s' = areas ?s1" "files s' = files ?s1"
      "\<forall>a. unpinned_pages s' a = unpinned_pages ?s1 a \<and> purged_pages ?s1 a \<subseteq> purged_pages s' a"
      "lru_count s' = lru_count ?s1 - sum_list (take k (lru_sizes ?s1))" "lru_ranges s' = drop k (lru_ranges ?s1)" by blast
    have pg: "\<forall>a. unpinned_pages s' a = unpinned_pages s a \<and> purged_pages s a \<subseteq> purged_pages s' a"
      using s'(8) pages_purge_step [OF x inv, where f = f] by blast
    show ?thesis unfolding step
      by (rule exI [of _ s'], rule exI [of _ "Suc k"]) (use False s' sz rg r pg in \<open>auto simp: diff_diff_add\<close>)
  qed
qed (auto simp: lru_sizes_def lru_ranges_def)


lemma shrink_post:
  assumes "ashmem_inv s"
  shows "\<exists>ret s' k. ashmem_shrink nr gfpm s = Some (ret, s') \<and> ashmem_inv s' \<and> k \<le> length (ashmem_lru_list s)
    \<and> ashmem_lru_list s' = drop k (ashmem_lru_list s)
    \<and> (nr \<noteq> 0 \<and> gfpm AND GFP_FS \<noteq> 0 \<longrightarrow> k = length (ashmem_lru_list s) \<or> sint (nr - sum_list (take k (lru_sizes s))) \<le> 0)
    \<and> areas s' = areas s \<and> files s' = files s
    \<and> (\<forall>a. unpinned_pages s' a = unpinned_pages s a \<and> purged_pages s a \<subseteq> purged_pages s' a)
    \<and> lru_count s' = lru_count s - sum_list (take k (lru_sizes s)) \<and> lru_ranges s' = drop k (lru_ranges s)
    \<and> (ret = lru_count s' \<or> nr \<noteq> 0 \<and> gfpm AND GFP_FS = 0 \<and> ret = - 1)"
proof (cases "nr = 0 \<or> gfpm AND GFP_FS = 0")
  case True
  then have "\<exists>ret. ashmem_shrink nr gfpm s = Some (ret, s) \<and> (ret = lru_count s \<or> nr \<noteq> 0 \<and> gfpm AND GFP_FS = 0 \<and> ret = - 1)"
    by (auto simp: ashmem_shrink_def)
  then show ?thesis using assms True by (metis (no_types, lifting) diff_zero drop0 le0 order_refl sum_list.Nil take0)
next
  case False
  with shrink_loop_post [OF assms refl, of nr] show ?thesis by (auto simp: ashmem_shrink_def)
qed

section \<open>The remaining operations\<close>

lemma inv_files [simp]: "ashmem_inv (s\<lparr>files := fs\<rparr>) \<longleftrightarrow> ashmem_inv s"
  by (simp add: ashmem_inv_def area_ok_def)

lemma inv_fput [simp]: "ashmem_inv (fput f s) \<longleftrightarrow> ashmem_inv s"
  by (simp add: fput_def)

lemma inv_get_file [simp]: "ashmem_inv (get_file f s) \<longleftrightarrow> ashmem_inv s"
  by (simp add: get_file_def)

lemma inv_upd_area:
  assumes "ashmem_inv s" "\<And>A. unpinned_list (f A) = unpinned_list A" "\<And>A. area_file A \<noteq> None \<Longrightarrow> area_file (f A) \<noteq> None"
  shows "ashmem_inv (upd_area a f s)"
proof -
  have "area_ok (upd_area a f s) b B" if b: "areas (upd_area a f s) b = Some B" for b B
  proof -
    obtain B' where "areas s b = Some B'" "B = (if b = a then f B' else B')"
      using b by (auto simp: upd_area_def split: if_splits)
    with assms show ?thesis by (auto simp: ashmem_inv_def area_ok_def upd_area_def)
  qed
  moreover have "\<exists>B. areas (upd_area a f s) (range_asma q) = Some B \<and> y \<in> set (unpinned_list B)" if q: "ranges s y = Some q" for y q
  proof -
    obtain B where "areas s (range_asma q) = Some B" "y \<in> set (unpinned_list B)"
      using assms(1) q unfolding ashmem_inv_def by blast
    moreover from this have "areas (upd_area a f s) (range_asma q) = Some (if range_asma q = a then f B else B)"
      by (auto simp: upd_area_def)
    ultimately show ?thesis by (simp add: assms(2))
  qed
  ultimately show ?thesis using assms(1) unfolding ashmem_inv_def by (auto simp: upd_area_def)
qed

lemma inv_open:
  assumes "ashmem_inv s" "areas s a = None"
  shows "ashmem_inv (s\<lparr>areas := (areas s)(a \<mapsto> A\<lparr>unpinned_list := []\<rparr>)\<rparr>)"
proof -
  have "range_asma r \<noteq> a" if "ranges s x = Some r" for x r using assms that unfolding ashmem_inv_def by fastforce
  with assms show ?thesis unfolding ashmem_inv_def area_ok_def by auto
qed

lemma fold_range_del:
  assumes "ashmem_inv s" "areas s a = Some A" "unpinned_list A = xs"
  shows "ashmem_inv (fold range_del xs s) \<and> others_kept a s (fold range_del xs s)
    \<and> unpinned_list (area_at (fold range_del xs s) a) = []"
  using assms
proof (induction xs arbitrary: s A)
  case Nil
  then show ?case by (simp add: others_kept_refl)
next
  case (Cons x xs)
  obtain r where r: "ranges s x = Some r" "range_asma r = a" using inv_area(2) [OF Cons.prems(1,2)] Cons.prems(3) by auto
  have A1: "areas (range_del x s) a = Some (unpinned_list_update (remove1 x) A)" using Cons.prems r by simp
  from Cons.IH [OF inv_range_del [OF Cons.prems(1) r(1)] A1] Cons.prems(3)
    others_kept_trans [OF others_kept_del [OF Cons.prems(2) r]] show ?case by simp
qed

lemma inv_release:
  assumes "ashmem_inv s" "areas s a = Some A"
  shows "ashmem_inv (ashmem_release a s)"
proof -
  let ?s1 = "fold range_del (unpinned_list A) s"
  note F = fold_range_del [OF assms refl]
  obtain B where B: "areas ?s1 a = Some B" "unpinned_list B = []"
    using F by (auto simp: others_kept_def same_areas_def)
  have "ashmem_inv (s2\<lparr>areas := (areas s2)(a := None)\<rparr>)" if "ashmem_inv s2" "areas s2 a = Some B" for s2
  proof -
    have "range_asma r \<noteq> a" if "ranges s2 x = Some r" for x r
      using \<open>ashmem_inv s2\<close> that \<open>areas s2 a = Some B\<close> B(2) unfolding ashmem_inv_def by fastforce
    with that(1) show ?thesis unfolding ashmem_inv_def area_ok_def by (auto split: if_splits)
  qed
  moreover have "ashmem_inv ?s1" using F by simp
  ultimately show ?thesis using assms(2) B
    by (auto simp: ashmem_release_def Let_def fput_def split: option.splits)
qed


section \<open>Requests\<close>

lemma pin_request_wf:
  assumes "pin_request sz pin = Inr (ps, pe)"
  shows "unat ps \<le> unat pe + 1"
proof -
  obtain offset len :: ulong where ps: "ps = offset div 4096" and pe: "pe = ps + len div 4096 - 1"
    using assms by (auto simp: pin_request_def Let_def split: prod.splits if_splits)
  have div: "unat (w div 4096) < 2 ^ 20" for w :: ulong
    unfolding unat_div by (rule less_mult_imp_div_less) (use unat_ulong_lt [of w] in simp)
  then have u: "unat ps < 2 ^ 20" "unat (len div 4096) < 2 ^ 20" by (simp_all add: ps)
  then have sum: "unat (ps + len div 4096) = unat ps + unat (len div 4096)" by (intro unat_add_ulong) simp
  show ?thesis
  proof (cases "ps + len div 4096 = 0")
    case True
    have "unat (0 - 1 :: ulong) = 2 ^ 32 - 1" by (simp only: unat_sub_if') simp
    with True have "unat pe = 2 ^ 32 - 1" by (simp only: pe)
    then show ?thesis using u by simp
  next
    case False
    then have "unat pe = unat ps + unat (len div 4096) - 1" unfolding pe sum [symmetric] by (rule unat_minus_one)
    then show ?thesis by simp
  qed
qed

section \<open>Every reachable state\<close>

definition name_ok :: "ashmem_area \<Rightarrow> bool" where
  "name_ok A \<longleftrightarrow> length (area_name A) = 267 \<and> area_name A ! 266 = 0"

definition cmd_ok :: "ashmem_cmd \<Rightarrow> bool" where
  "cmd_ok cmd \<longleftrightarrow> (case cmd of SET_NAME buf _ \<Rightarrow> length buf = 256 | _ \<Rightarrow> True)"

definition ashmem_start :: ashmem_state where
  "ashmem_start = \<lparr>areas = (\<lambda>_. None), ranges = (\<lambda>_. None), ashmem_lru_list = [], lru_count = 0,
     files = (\<lambda>_. None), truncated = []\<rparr>"

inductive ashmem_step :: "ashmem_state \<Rightarrow> ashmem_state \<Rightarrow> bool" where
  step_open: "(\<And>a. alloc = Some a \<Longrightarrow> areas s a = None) \<Longrightarrow> ashmem_step s (snd (ashmem_open gfo alloc s))"
| step_release: "areas s a = Some A \<Longrightarrow> ashmem_step s (ashmem_release a s)"
| step_read: "areas s a = Some A \<Longrightarrow> ashmem_step s (snd (snd (ashmem_read rd a pos s)))"
| step_llseek: "areas s a = Some A \<Longrightarrow> ashmem_step s (snd (snd (ashmem_llseek seek a s)))"
| step_mmap: "areas s a = Some A \<Longrightarrow> ashmem_step s (snd (snd (ashmem_mmap vmfile a vma s)))"
| step_ioctl: "areas s a = Some A \<Longrightarrow> fresh_alloc alloc s \<Longrightarrow> cmd_ok cmd \<Longrightarrow>
    ashmem_ioctl alloc pers admin a cmd s = Some (res, s') \<Longrightarrow> ashmem_step s s'"
| step_shrink: "ashmem_shrink nr gfpm s = Some (ret, s') \<Longrightarrow> ashmem_step s s'"

definition names_ok :: "ashmem_state \<Rightarrow> bool" where
  "names_ok s \<longleftrightarrow> (\<forall>a A. areas s a = Some A \<longrightarrow> name_ok A)"

lemma names_others_kept: "names_ok s \<Longrightarrow> others_kept a s s' \<Longrightarrow> names_ok s'"
  unfolding names_ok_def others_kept_def same_areas_def name_ok_def
  by (metis (no_types, lifting) ashmem_area.select_convs(1) ashmem_area.surjective ashmem_area.update_convs(2) option.inject)

lemma names_upd_area: "names_ok s \<Longrightarrow> (\<And>A. name_ok A \<Longrightarrow> name_ok (f A)) \<Longrightarrow> names_ok (upd_area a f s)"
  by (auto simp: names_ok_def upd_area_def split: if_splits)

lemma inv_ioctl:
  assumes inv: "ashmem_inv s" "names_ok s" and A: "areas s a = Some A" and fresh: "fresh_alloc alloc s" and ok: "cmd_ok cmd"
  shows "\<exists>res s'. ashmem_ioctl alloc pers admin a cmd s = Some (res, s') \<and> ashmem_inv s' \<and> names_ok s'"
proof (cases cmd)
  case (SET_NAME buf fault)
  let ?f = "area_name_update (\<lambda>name. (take 11 name @ buf)[266 := 0])"
  have "name_ok (?f B)" if "name_ok B" for B using that ok SET_NAME by (simp add: name_ok_def cmd_ok_def)
  then have "ashmem_inv (upd_area a ?f s)" "names_ok (upd_area a ?f s)"
    using inv by (auto intro!: inv_upd_area names_upd_area)
  then show ?thesis using SET_NAME inv by (simp add: ashmem_ioctl_def set_name_def)
next
  case (SET_SIZE sz)
  have "ashmem_inv (upd_area a (area_size_update (\<lambda>_. sz)) s)" "names_ok (upd_area a (area_size_update (\<lambda>_. sz)) s)"
    using inv by (auto intro!: inv_upd_area names_upd_area simp: name_ok_def)
  then show ?thesis using SET_SIZE inv by (simp add: ashmem_ioctl_def)
next
  case (SET_PROT_MASK prot)
  have "ashmem_inv (upd_area a (prot_mask_update (\<lambda>_. p)) s)" "names_ok (upd_area a (prot_mask_update (\<lambda>_. p)) s)" for p
    using inv by (auto intro!: inv_upd_area names_upd_area simp: name_ok_def)
  then show ?thesis using SET_PROT_MASK inv by (simp add: ashmem_ioctl_def set_prot_mask_def Let_def)
next
  case (PIN_CMD c pin)
  have "ashmem_inv (snd (ashmem_pin_unpin alloc c pin a s)) \<and> names_ok (snd (ashmem_pin_unpin alloc c pin a s))"
  proof (cases "\<exists>ps pe p. area_file A \<noteq> None \<and> pin = Some p \<and> pin_request (area_size A) p = Inr (ps, pe)")
    case True
    then obtain ps pe p where p: "area_file A \<noteq> None" "pin = Some p" "pin_request (area_size A) p = Inr (ps, pe)" by blast
    note wf = pin_request_wf [OF p(3)]
    have "ashmem_inv (snd (ashmem_pin alloc a ps pe s))" "names_ok (snd (ashmem_pin alloc a ps pe s))"
      "ashmem_inv (snd (ashmem_unpin alloc a ps pe s))" "names_ok (snd (ashmem_unpin alloc a ps pe s))"
      using pin_post [OF inv(1) A wf fresh] unpin_post [OF inv(1) A p(1) wf fresh] names_others_kept [OF inv(2)]
      by (auto simp: pin_post_def unpin_post_def)
    then show ?thesis using p A inv by (auto simp: ashmem_pin_unpin_def case_prod_beta Let_def split: pin_cmd.splits)
  next
    case False
    then have "snd (ashmem_pin_unpin alloc c pin a s) = s"
      using A by (auto simp: ashmem_pin_unpin_def split: option.splits sum.splits)
    then show ?thesis using inv by simp
  qed
  then show ?thesis using PIN_CMD by (simp add: ashmem_ioctl_def) (metis prod.collapse)
next
  case PURGE_ALL_CACHES
  have "names_ok s'" if "areas s' = areas s" for s' using inv that by (simp add: names_ok_def)
  note names = this
  obtain r0 s0 where s0: "ashmem_shrink 0 GFP_KERNEL s = Some (r0, s0)" "ashmem_inv s0" "areas s0 = areas s"
    using shrink_post [OF inv(1), of 0 GFP_KERNEL] by auto
  obtain r1 s1 where s1: "ashmem_shrink r0 GFP_KERNEL s0 = Some (r1, s1)" "ashmem_inv s1" "areas s1 = areas s"
    using shrink_post [OF s0(2), of r0 GFP_KERNEL] s0(3) by auto
  show ?thesis using PURGE_ALL_CACHES inv s0 s1 names [OF s1(3)] by (cases admin) (simp_all add: ashmem_ioctl_def)
qed (use inv in \<open>auto simp: ashmem_ioctl_def\<close>)


definition ashmem_good :: "ashmem_state \<Rightarrow> bool" where
  "ashmem_good s \<longleftrightarrow> ashmem_inv s \<and> names_ok s"

lemma good_updates [simp]:
  "ashmem_good s \<Longrightarrow> ashmem_good (s\<lparr>files := fs\<rparr>)"
  "ashmem_good s \<Longrightarrow> ashmem_good (fput f s)"
  "ashmem_good s \<Longrightarrow> ashmem_good (get_file f s)"
  "ashmem_good s \<Longrightarrow> ashmem_good (upd_area a (vm_start_update (\<lambda>_. x)) s)"
  "ashmem_good s \<Longrightarrow> ashmem_good (upd_area a (area_file_update (\<lambda>_. Some f)) s)"
  by (auto simp: ashmem_good_def fput_def get_file_def names_ok_def [of "_\<lparr>files := _\<rparr>"] name_ok_def
      intro!: inv_upd_area names_upd_area) (auto simp: names_ok_def name_ok_def)

lemma good_mmap: "ashmem_good s \<Longrightarrow> ashmem_good (snd (snd (ashmem_mmap vmfile a vma s)))"
  by (auto simp: ashmem_mmap_def Let_def shmem_set_file_def split: option.splits sum.splits prod.splits if_splits)

lemma inv_step:
  assumes "ashmem_step s s'" "ashmem_inv s" "names_ok s"
  shows "ashmem_inv s' \<and> names_ok s'"
  using assms
proof cases
  case (step_open alloc gfo)
  show ?thesis
  proof (cases alloc)
    case None
    then show ?thesis using step_open assms by (simp add: ashmem_open_def split: sum.splits)
  next
    case (Some a)
    let ?A = "\<lparr>area_name = ASHMEM_NAME_PREFIX @ replicate 256 0, unpinned_list = [], area_file = None, area_size = 0, vm_start = 0, prot_mask = PROT_MASK\<rparr>"
    have "ashmem_inv (s\<lparr>areas := (areas s)(a \<mapsto> ?A)\<rparr>)" using inv_open [OF assms(2), of a ?A] step_open(2) Some by simp
    moreover have "name_ok ?A" by (simp add: name_ok_def ASHMEM_NAME_PREFIX_def nth_append)
    ultimately show ?thesis using Some step_open assms by (auto simp: ashmem_open_def names_ok_def split: sum.splits)
  qed
next
  case (step_release a A)
  have "names_ok (fold range_del (unpinned_list A) s)"
    using fold_range_del [OF assms(2) step_release(2) refl] names_others_kept [OF assms(3)] by blast
  then have "names_ok (ashmem_release a s)"
    using step_release(2) by (auto simp: ashmem_release_def Let_def names_ok_def fput_def split: option.splits)
  with inv_release [OF assms(2) step_release(2)] step_release show ?thesis by simp
next
  case (step_read a A rd pos)
  then show ?thesis using assms by (auto simp: ashmem_read_def Let_def names_ok_def split: option.splits prod.splits)
next
  case (step_llseek a A seek)
  then show ?thesis using assms by (auto simp: ashmem_llseek_def Let_def names_ok_def split: option.splits prod.splits)
next
  case (step_mmap a A vmfile vma)
  then show ?thesis using good_mmap assms(2,3) by (simp add: ashmem_good_def)
next
  case (step_ioctl a A alloc cmd pers admin res)
  from inv_ioctl [OF assms(2,3) this(1-3), of pers admin] this(4) show ?thesis by auto
next
  case (step_shrink nr gfpm ret)
  from shrink_post [OF assms(2), of nr gfpm] this show ?thesis using assms(3) by (auto simp: names_ok_def)
qed

interpretation ash: invariant_system ashmem_step "\<lambda>s. s = ashmem_start" "\<lambda>s. ashmem_inv s \<and> names_ok s"
  by unfold_locales (simp add: ashmem_start_def ashmem_inv_def names_ok_def, blast dest: inv_step)

lemma inv_reachable: "ashmem_step\<^sup>*\<^sup>* ashmem_start s \<Longrightarrow> ashmem_inv s \<and> names_ok s"
  by (erule ash.reachable_inv) simp


section \<open>Protection and names\<close>

lemma prot_bits_eq: "calc_vm_prot_bits p = p AND 7"
proof -
  have "p AND 7 = (p AND 1) OR (p AND 2) OR (p AND 4)"
    using bit.conj_disj_distrib [of p 1 "2 OR 4"] bit.conj_disj_distrib [of p 2 4] by simp
  then show ?thesis
    by (simp add: calc_vm_prot_bits_def calc_vm_trans_def PROT_READ_def PROT_WRITE_def PROT_EXEC_def VM_READ_def VM_WRITE_def VM_EXEC_def)
qed

lemma may_flags_eq: "calc_vm_may_flags p = push_bit 4 (p AND 7)"
proof -
  have "p AND 7 = (p AND 1) OR (p AND 2) OR (p AND 4)"
    using bit.conj_disj_distrib [of p 1 "2 OR 4"] bit.conj_disj_distrib [of p 2 4] by simp
  moreover have "calc_vm_may_flags p = push_bit 4 (p AND 1) OR push_bit 4 (p AND 2) OR push_bit 4 (p AND 4)"
    by (simp add: calc_vm_may_flags_def calc_vm_trans_def PROT_READ_def PROT_WRITE_def PROT_EXEC_def
        VM_MAYREAD_def VM_MAYWRITE_def VM_MAYEXEC_def push_bit_eq_mult)
  ultimately show ?thesis by (simp add: push_bit_or)
qed

lemma mmap_flags:
  assumes "areas s a = Some A" "ashmem_mmap vmfile a vma s = (Inr u, vma', s')" "i < 3"
  shows "(bit (vm_flags vma') i \<longrightarrow> bit (prot_mask A) i) \<and> (bit (vm_flags vma') (i + 4) \<longrightarrow> bit (prot_mask A) i)"
proof -
  have "(vm_flags vma AND NOT (prot_mask A AND 7)) AND (PROT_MASK AND 7) = 0"
    and fl: "vm_flags vma' = (vm_flags vma AND NOT (push_bit 4 (NOT (prot_mask A) AND 7))) OR VM_CAN_NONLINEAR"
    using assms(1,2) by (auto simp: ashmem_mmap_def Let_def prot_bits_eq may_flags_eq shmem_set_file_def
        split: if_splits option.splits sum.splits prod.splits)
  moreover have "PROT_MASK AND 7 = 7" by (simp add: PROT_MASK_def PROT_EXEC_def PROT_READ_def PROT_WRITE_def)
  ultimately have none: "\<not> bit ((vm_flags vma AND NOT (prot_mask A AND 7)) AND 7) i" by simp
  from assms(3) have "i = 0 \<or> i = 1 \<or> i = 2" by auto
  then show ?thesis using none unfolding fl VM_CAN_NONLINEAR_def
    by (elim disjE) (auto simp: bit_word_simps)
qed

lemma strlen_le: "c \<in> set xs \<Longrightarrow> c = 0 \<Longrightarrow> strlen xs < length xs"
  by (induction xs) auto

lemma strlen_nul: "strlen xs < length xs \<Longrightarrow> xs ! strlen xs = 0 \<and> (\<forall>i. i < strlen xs \<longrightarrow> xs ! i \<noteq> 0)"
  by (induction xs) (auto simp: nth_Cons' split: if_splits)

lemma get_name_bytes_ok:
  assumes "name_ok A"
  shows "length (get_name_bytes A) \<le> 256 \<and> get_name_bytes A \<noteq> [] \<and> last (get_name_bytes A) = 0"
proof (cases "area_name A ! 11 = 0")
  case True
  then show ?thesis by (simp add: get_name_bytes_def ASHMEM_NAME_DEF_def)
next
  case False
  let ?r = "drop 11 (area_name A)"
  have len: "length ?r = 256" using assms by (simp add: name_ok_def)
  have "?r ! 255 = 0" using assms by (simp add: name_ok_def)
  then have "0 \<in> set ?r" using nth_mem [of 255 ?r] len by simp
  then have lt: "strlen ?r < 256" using strlen_le len by metis
  then have "last (take (strlen ?r + 1) ?r) = ?r ! strlen ?r" using len by (simp add: take_Suc_conv_app_nth)
  with lt strlen_nul [of ?r] len False show ?thesis
    by (auto simp: get_name_bytes_def Let_def)
qed


section \<open>Consequences for the pages of an area\<close>

lemma others_kept_pages:
  assumes "others_kept a s s'" "ashmem_inv s" "areas s b = Some B" "b \<noteq> a"
  shows "unpinned_pages s' b = unpinned_pages s b"
proof -
  have "areas s' b = areas s b" using assms(1,4) by (simp add: others_kept_def same_areas_def)
  moreover have "ranges s' y = ranges s y" if "y \<in> set (unpinned_list B)" for y
    using inv_area(2) [OF assms(2,3) that] assms(1,4) by (auto simp: others_kept_def)
  ultimately show ?thesis using assms(3) by (auto simp: unpinned_pages_def intro!: pages_of_cong)
qed

lemma pin_hit_page:
  assumes "p \<in> pages r" "p \<in> {unat ps..<unat pe + 1}" "purged r"
  shows "pin_hit ps pe r"
  using assms unfolding pin_hit_def tests_iff pages_def by auto

text \<open>Purging all caches. An empty range at the end of the LRU list may stay there; it has no page.\<close>

definition lru_pages :: "ashmem_state \<Rightarrow> nat" where
  "lru_pages s = (\<Sum>r\<leftarrow>lru_ranges s. card (pages r))"

lemma unat_range_size:
  assumes "range_wf r" "card (pages r) < 2 ^ 32"
  shows "unat (range_size r) = card (pages r)"
proof -
  have "range_size r = of_nat (hi r) - of_nat (lo r)" by (simp add: range_size_def hi_def lo_def)
  also have "\<dots> = of_nat (hi r - lo r)" using assms(1) by (simp add: range_wf_def of_nat_diff)
  finally show ?thesis using assms(2) unat_of_nat_ulong [of "hi r - lo r"] by (simp add: pages_def)
qed

lemma lru_range_wf:
  assumes "ashmem_inv s" "x \<in> set (ashmem_lru_list s)"
  shows "range_wf (range_at s x)"
proof -
  obtain r A where "ranges s x = Some r" "areas s (range_asma r) = Some A" "x \<in> set (unpinned_list A)"
    using assms unfolding ashmem_inv_def by blast
  then show ?thesis using inv_area(2) [OF assms(1), of "range_asma r" A x] by auto
qed

lemma unat_lru_sizes:
  assumes inv: "ashmem_inv s" and small: "lru_pages s < 2 ^ 31"
  shows "(\<Sum>w\<leftarrow>lru_sizes s. unat w) = lru_pages s" "unat (lru_count s) = lru_pages s"
proof -
  have "unat (range_size r) = card (pages r)" if "r \<in> set (lru_ranges s)" for r
  proof -
    have "card (pages r) \<le> lru_pages s" unfolding lru_pages_def using that by (intro member_le_sum_list) auto
    moreover have "range_wf r" using that lru_range_wf [OF inv] by (auto simp: lru_ranges_def)
    ultimately show ?thesis using small by (intro unat_range_size) simp_all
  qed
  then show *: "(\<Sum>w\<leftarrow>lru_sizes s. unat w) = lru_pages s"
    unfolding lru_sizes_def lru_pages_def by (simp add: o_def cong: map_cong)
  have "lru_count s = sum_list (lru_sizes s)" using inv by (simp add: ashmem_inv_def lru_sizes_def lru_ranges_def o_def)
  then show "unat (lru_count s) = lru_pages s" using sum_list_unat [of "lru_sizes s"] * small by simp
qed

lemma purge_all_sizes:
  assumes inv: "ashmem_inv s" and small: "(\<Sum>w\<leftarrow>lru_sizes s. unat w) < 2 ^ 31"
    and A: "areas s a = Some A"
  shows "\<exists>s' k. ashmem_ioctl alloc pers True a PURGE_ALL_CACHES s = Some (Inr (lru_count s), s')
    \<and> lru_count s' = 0 \<and> ashmem_inv s' \<and> lru_ranges s' = drop k (lru_ranges s)
    \<and> (\<forall>b. unpinned_pages s' b = unpinned_pages s b)"
proof -
  have q: "ashmem_shrink 0 GFP_KERNEL s = Some (lru_count s, s)" by (simp add: ashmem_shrink_def)
  have fs: "GFP_KERNEL AND GFP_FS \<noteq> 0" by (simp add: GFP_KERNEL_def GFP_FS_def)
  have cnt: "lru_count s = sum_list (lru_sizes s)" using inv by (simp add: ashmem_inv_def lru_sizes_def lru_ranges_def o_def)
  from shrink_post [OF inv, of "lru_count s" GFP_KERNEL] obtain ret s' k where
    k: "ashmem_shrink (lru_count s) GFP_KERNEL s = Some (ret, s')" "k \<le> length (ashmem_lru_list s)"
    and inv': "ashmem_inv s'" and sz: "lru_ranges s' = drop k (lru_ranges s)"
    and stop: "lru_count s \<noteq> 0 \<longrightarrow> k = length (ashmem_lru_list s) \<or> sint (lru_count s - sum_list (take k (lru_sizes s))) \<le> 0"
    and up: "\<forall>b. unpinned_pages s' b = unpinned_pages s b"
    and c: "lru_count s' = lru_count s - sum_list (take k (lru_sizes s))" using fs by blast
  have "lru_sizes s = take k (lru_sizes s) @ drop k (lru_sizes s)" by simp
  then have split: "(\<Sum>w\<leftarrow>lru_sizes s. unat w) = (\<Sum>w\<leftarrow>take k (lru_sizes s). unat w) + (\<Sum>w\<leftarrow>drop k (lru_sizes s). unat w)"
    by (metis map_append sum_list_append)
  have c': "lru_count s' = sum_list (drop k (lru_sizes s))"
    using c cnt sum_list_append [of "take k (lru_sizes s)" "drop k (lru_sizes s)"] by simp
  have "unat (lru_count s') < 2 ^ 31"
    unfolding c' using small split by (subst sum_list_unat) simp_all
  moreover have "lru_count s' = 0" if "lru_count s = 0"
  proof -
    have "(\<Sum>w\<leftarrow>lru_sizes s. unat w) = 0" using sum_list_unat [of "lru_sizes s"] small cnt that by simp
    with split have "(\<Sum>w\<leftarrow>drop k (lru_sizes s). unat w) = 0" by simp
    moreover from this have "unat (sum_list (drop k (lru_sizes s))) = (\<Sum>w\<leftarrow>drop k (lru_sizes s). unat w)"
      by (intro sum_list_unat) (simp only: zero_less_power zero_less_numeral)
    ultimately show ?thesis unfolding c' by (simp only: unat_eq_zero)
  qed
  moreover have "lru_count s' = 0" if "k = length (ashmem_lru_list s)"
    unfolding c' using that by (simp add: lru_sizes_def lru_ranges_def)
  ultimately have "lru_count s' = 0" using stop c sint_nonpos_small [of "lru_count s'"] by fastforce
  with q k up inv' sz show ?thesis by (auto simp: ashmem_ioctl_def)
qed

lemma purge_all_pages:
  assumes inv: "ashmem_inv s'" and none: "\<And>x. x \<in> set (ashmem_lru_list s') \<Longrightarrow> pages (range_at s' x) = {}"
    and B: "areas s' b = Some B"
  shows "purged_pages s' b = unpinned_pages s' b"
proof -
  have "pages (range_at s' x) = {}" if "x \<in> set (unpinned_list B)" "\<not> purged (range_at s' x)" for x
    using inv_area(2) [OF inv B that(1)] that(2) inv by (intro none) (auto simp: ashmem_inv_def)
  then show ?thesis using B unfolding purged_pages_def unpinned_pages_def pages_of_def by auto
qed

lemma purge_all:
  assumes inv: "ashmem_inv s" and small: "lru_pages s < 2 ^ 31" and A: "areas s a = Some A"
  shows "\<exists>s'. ashmem_ioctl alloc pers True a PURGE_ALL_CACHES s = Some (Inr (lru_count s), s')
    \<and> ashmem_inv s' \<and> lru_count s' = 0 \<and> (\<forall>x\<in>set (ashmem_lru_list s'). pages (range_at s' x) = {})
    \<and> (\<forall>b. unpinned_pages s' b = unpinned_pages s b)"
proof -
  have "(\<Sum>w\<leftarrow>lru_sizes s. unat w) < 2 ^ 31" using small unat_lru_sizes(1) [OF inv small] by simp
  from purge_all_sizes [OF inv this A] obtain s' k where s': "ashmem_ioctl alloc pers True a PURGE_ALL_CACHES s = Some (Inr (lru_count s), s')"
    "lru_count s' = 0" "ashmem_inv s'" "lru_ranges s' = drop k (lru_ranges s)" "\<forall>b. unpinned_pages s' b = unpinned_pages s b"
    by blast
  have "lru_pages s = (\<Sum>r\<leftarrow>take k (lru_ranges s). card (pages r)) + lru_pages s'"
    unfolding lru_pages_def s'(4) by (metis append_take_drop_id map_append sum_list_append)
  then have "lru_pages s' = 0" using unat_lru_sizes(2) [OF s'(3)] small s'(2) by simp
  then have "\<forall>x\<in>set (ashmem_lru_list s'). pages (range_at s' x) = {}"
    by (simp add: lru_pages_def lru_ranges_def sum_list_eq_0_iff pages_def)
  then show ?thesis using s' by blast
qed

section \<open>Properties\<close>

text \<open>C11: In every reachable state the unpinned ranges of each area are disjoint and sorted by descending
  page, the LRU list holds exactly the ranges that were not purged, each once, and \<^verbatim>\<open>lru_count\<close> is the
  number of their pages; every area name is terminated; and no \<^verbatim>\<open>ioctl\<close> and no shrinker call
  dereferences a missing backing file.\<close>

theorem ashmem_reachable_invariant:
  assumes "ashmem_step\<^sup>*\<^sup>* ashmem_start s" "areas s a = Some A" "fresh_alloc alloc s" "cmd_ok cmd"
  shows "ashmem_inv s \<and> names_ok s \<and> ashmem_ioctl alloc pers admin a cmd s \<noteq> None \<and> ashmem_shrink nr gfpm s \<noteq> None"
proof -
  have inv: "ashmem_inv s" "names_ok s" using inv_reachable [OF assms(1)] by simp_all
  then show ?thesis using inv_ioctl [OF inv assms(2-4)] shrink_post [OF inv(1)] by (metis option.distinct(1))
qed

theorem ashmem_reachable_invariant_witness:
  "ashmem_inv (snd (ashmem_open (Inr ()) (Some 3) ashmem_start))"
proof -
  let ?s = "snd (ashmem_open (Inr ()) (Some 3) ashmem_start)"
  have "ashmem_step ashmem_start ?s" by (rule step_open) (simp add: ashmem_start_def)
  moreover have "\<exists>A. areas ?s 3 = Some A" by (simp add: ashmem_open_def)
  moreover from calculation(1) have "ashmem_step\<^sup>*\<^sup>* ashmem_start ?s" by (rule r_into_rtranclp)
  ultimately show ?thesis using ashmem_reachable_invariant [of ?s 3 _ None GET_SIZE 0 False 0 0]
    by (auto simp: fresh_alloc_def cmd_ok_def)
qed


text \<open>A state with one mapped area whose pages 2 to 9 are unpinned.\<close>

definition one_area :: ashmem_state where
  "one_area = \<lparr>areas = [0 \<mapsto> \<lparr>area_name = ASHMEM_NAME_PREFIX @ replicate 256 0, unpinned_list = [5], area_file = Some 1,
       area_size = 0x10000, vm_start = 0, prot_mask = PROT_MASK\<rparr>],
     ranges = [5 \<mapsto> \<lparr>range_asma = 0, pgstart = 2, pgend = 9, purged = False\<rparr>],
     ashmem_lru_list = [5], lru_count = 8, files = [1 \<mapsto> \<lparr>f_count = 1, f_pos = 0\<rparr>], truncated = []\<rparr>"

lemma one_area_inv: "ashmem_inv one_area"
  by (auto simp: one_area_def ashmem_inv_def area_ok_def range_wf_def lo_def hi_def range_size_def split: if_splits)

lemma one_area_pages: "unpinned_pages one_area 0 = {2..<10}"
  by (simp add: one_area_def unpinned_pages_def pages_def lo_def hi_def)

lemma one_area_tail: "split_tail 4 5 one_area 0 = {6..<10}"
  by (simp add: one_area_def split_tail_def lo_def hi_def)


text \<open>C23: \<^verbatim>\<open>ashmem_unpin\<close>, when it succeeds, adds exactly the requested pages to the unpinned pages of the
  area, merging the ranges they touch, never forgets that a page was purged, and keeps the invariant and
  the other areas; it fails only when the allocation of a range fails, with \<^verbatim>\<open>-ENOMEM\<close>.\<close>

theorem ashmem_unpin_correct:
  assumes "ashmem_inv s" "areas s a = Some A" "area_file A \<noteq> None" "unat ps \<le> unat pe + 1" "fresh_alloc alloc s"
  shows "case ashmem_unpin alloc a ps pe s of (r, s') \<Rightarrow>
      ashmem_inv s' \<and> (\<forall>b B. b \<noteq> a \<and> areas s b = Some B \<longrightarrow> unpinned_pages s' b = unpinned_pages s b)
      \<and> (case r of
           Inr _ \<Rightarrow> unpinned_pages s' a = unpinned_pages s a \<union> {unat ps..<unat pe + 1} \<and> purged_pages s a \<subseteq> purged_pages s' a
         | Inl e \<Rightarrow> e = ENOMEM \<and> alloc = None \<and> unpinned_pages s' a \<subseteq> unpinned_pages s a)"
  using unpin_post [OF assms] others_kept_pages [OF _ assms(1)]
  by (cases "ashmem_unpin alloc a ps pe s") (auto simp: unpin_post_def split: sum.splits)

theorem ashmem_unpin_correct_witness:
  "case ashmem_unpin (Some 6) 0 8 12 one_area of (r, s') \<Rightarrow> r = Inr () \<and> unpinned_pages s' 0 = {2..<10} \<union> {8..<13}"
proof -
  obtain A where A: "areas one_area 0 = Some A" "area_file A \<noteq> None" by (simp add: one_area_def)
  have "fresh_alloc (Some 6) one_area" by (simp add: fresh_alloc_def one_area_def)
  from ashmem_unpin_correct [OF one_area_inv A _ this, of 8 12] one_area_pages show ?thesis
    by (auto split: prod.splits sum.splits)
qed

text \<open>C25: \<^verbatim>\<open>ASHMEM_PURGE_ALL_CACHES\<close>, called by a process with \<^verbatim>\<open>CAP_SYS_ADMIN\<close> while fewer than \<open>2 ^ 31\<close> pages are on
  the LRU list, returns the number of these pages and purges all of them: afterwards every unpinned page of every area
  is purged, \<^verbatim>\<open>lru_count\<close> is 0 and only empty ranges can be left on the list, the invariant holds, and the unpinned pages are
  the same as before. The bound keeps the signed countdown of the shrinker from stopping early.\<close>

theorem ashmem_purge_all_caches:
  assumes "ashmem_inv s" "lru_pages s < 2 ^ 31" "areas s a = Some A"
  shows "\<exists>ret s'. ashmem_ioctl alloc pers True a PURGE_ALL_CACHES s = Some (Inr ret, s') \<and> unat ret = lru_pages s
    \<and> ashmem_inv s' \<and> lru_count s' = 0 \<and> (\<forall>x\<in>set (ashmem_lru_list s'). pages (range_at s' x) = {})
    \<and> (\<forall>b B. areas s' b = Some B \<longrightarrow> purged_pages s' b = unpinned_pages s' b)
    \<and> (\<forall>b. unpinned_pages s' b = unpinned_pages s b)"
  using purge_all [OF assms, of alloc pers] unat_lru_sizes(2) [OF assms(1,2)] purge_all_pages by blast

theorem ashmem_purge_all_caches_witness:
  "\<exists>ret s'. ashmem_ioctl None 0 True 0 PURGE_ALL_CACHES one_area = Some (Inr ret, s') \<and> unat ret = 8 \<and> lru_count s' = 0"
proof -
  have "lru_pages one_area = 8" by (simp add: one_area_def lru_pages_def lru_ranges_def pages_def lo_def hi_def)
  moreover obtain A where "areas one_area 0 = Some A" by (simp add: one_area_def)
  ultimately show ?thesis using ashmem_purge_all_caches [OF one_area_inv, of 0 A None 0] by auto
qed

text \<open>C24: A successful \<^verbatim>\<open>mmap\<close> of an area grants no access that its protection mask does not allow: for each of
  reading (bit 0), writing (bit 1) and executing (bit 2), neither the access bit of the mapping nor the
  bit that would let \<^verbatim>\<open>mprotect\<close> add it is set unless the mask has it.\<close>

theorem ashmem_mmap_respects_mask:
  assumes "areas s a = Some A" "ashmem_mmap vmfile a vma s = (Inr (), vma', s')" "i < 3"
  shows "(bit (vm_flags vma') i \<longrightarrow> bit (prot_mask A) i) \<and> (bit (vm_flags vma') (i + 4) \<longrightarrow> bit (prot_mask A) i)"
  using assms by (rule mmap_flags)

theorem ashmem_mmap_respects_mask_witness:
  "case ashmem_mmap (Inr 9) 0 \<lparr>vm_flags = 0x71, vma_start = 0x1000, vm_file = None, vm_ops_shmem = False\<rparr>
      (upd_area 0 (prot_mask_update (\<lambda>_. 1)) one_area) of (r, vma', s') \<Rightarrow> r = Inr () \<and> \<not> bit (vm_flags vma') 5"
proof -
  let ?s = "upd_area 0 (prot_mask_update (\<lambda>_. 1)) one_area"
  let ?v = "\<lparr>vm_flags = 0x71, vma_start = 0x1000, vm_file = None, vm_ops_shmem = False\<rparr>"
  obtain r v s' where out: "ashmem_mmap (Inr 9) 0 ?v ?s = (r, v, s')" by (cases "ashmem_mmap (Inr 9) 0 ?v ?s")
  have "r = Inr ()"
    using out by (auto simp: ashmem_mmap_def Let_def upd_area_def one_area_def prot_bits_eq PROT_MASK_def PROT_EXEC_def PROT_READ_def
        PROT_WRITE_def shmem_set_file_def split: if_splits)
  with out ashmem_mmap_respects_mask [of ?s 0 _ "Inr 9" ?v v s' 1] show ?thesis
    by (auto simp: upd_area_def one_area_def)
qed

text \<open>The name that \<^verbatim>\<open>ASHMEM_GET_NAME\<close> copies to the user is a terminated string of at most
  \<^verbatim>\<open>ASHMEM_NAME_LEN\<close> bytes for every area of a reachable state: the copy never leaves the user's buffer
  and never reads past the kernel's.\<close>

theorem ashmem_get_name_bounded:
  assumes "ashmem_step\<^sup>*\<^sup>* ashmem_start s" "areas s a = Some A" "get_name False a s = Inr bytes"
  shows "length bytes \<le> 256 \<and> bytes \<noteq> [] \<and> last bytes = 0"
  using inv_reachable [OF assms(1)] assms(2,3) get_name_bytes_ok [of A] by (auto simp: get_name_def names_ok_def)

theorem ashmem_get_name_bounded_witness:
  "length (projr (get_name False 3 (snd (ashmem_open (Inr ()) (Some 3) ashmem_start)))) \<le> 256"
proof -
  let ?s = "snd (ashmem_open (Inr ()) (Some 3) ashmem_start)"
  have "ashmem_step ashmem_start ?s" by (rule step_open) (simp add: ashmem_start_def)
  then have "ashmem_step\<^sup>*\<^sup>* ashmem_start ?s" by (rule r_into_rtranclp)
  moreover have "\<exists>A. areas ?s 3 = Some A" by (simp add: ashmem_open_def)
  ultimately show ?thesis using ashmem_get_name_bounded [of ?s 3] by (auto simp: get_name_def)
qed

end
