(* ===== verification/Kfifo.thy ===== *)
theory Kfifo
  imports Byte_Buffer
begin

text \<open>
  The byte and record FIFO of \<^verbatim>\<open>kernel/kfifo.c\<close> and \<^verbatim>\<open>include/linux/kfifo.h\<close>. The indices \<open>kf_in\<close> and \<open>kf_out\<close>
  run freely and wrap at \<open>2 ^ 32\<close>; the size is a power of two. \<open>None\<close> is a kernel oops: a failed
  \<^verbatim>\<open>BUG_ON\<close> or an access outside a buffer. A destination buffer is the list of the bytes written to it.
\<close>

unbundle bit_operations_syntax

section \<open>State\<close>

record kfifo =
  kf_buffer :: "u8 list option"
  kf_size :: u32
  kf_in :: u32
  kf_out :: u32

abbreviation (input) kf_bytes :: "kfifo \<Rightarrow> u8 list" where
  "kf_bytes f \<equiv> (case kf_buffer f of None \<Rightarrow> [] | Some b \<Rightarrow> b)"

abbreviation (input) kf_store :: "u8 list \<Rightarrow> kfifo \<Rightarrow> kfifo" where
  "kf_store b f \<equiv> f\<lparr>kf_buffer := map_option (\<lambda>_. b) (kf_buffer f)\<rparr>"

definition kfifo_initializer :: "u32 \<Rightarrow> u8 list \<Rightarrow> kfifo" where
  "kfifo_initializer s b = \<lparr>kf_buffer = Some b, kf_size = s, kf_in = 0, kf_out = 0\<rparr>"

definition kfifo_initialized :: "kfifo \<Rightarrow> bool" where
  "kfifo_initialized f \<longleftrightarrow> kf_buffer f \<noteq> None"

definition kfifo_reset :: "kfifo \<Rightarrow> kfifo" where
  "kfifo_reset f = f\<lparr>kf_in := 0, kf_out := 0\<rparr>"

definition kfifo_reset_out :: "kfifo \<Rightarrow> kfifo" where
  "kfifo_reset_out f = f\<lparr>kf_out := kf_in f\<rparr>"

definition kfifo_len :: "kfifo \<Rightarrow> u32" where
  "kfifo_len f = kf_in f - kf_out f"

definition kfifo_is_empty :: "kfifo \<Rightarrow> bool" where
  "kfifo_is_empty f \<longleftrightarrow> kf_in f = kf_out f"

definition kfifo_is_full :: "kfifo \<Rightarrow> bool" where
  "kfifo_is_full f \<longleftrightarrow> kfifo_len f = kf_size f"

definition kfifo_avail :: "kfifo \<Rightarrow> u32" where
  "kfifo_avail f = kf_size f - kfifo_len f"

definition kfifo_add_out :: "kfifo \<Rightarrow> u32 \<Rightarrow> kfifo" where
  "kfifo_add_out f off = f\<lparr>kf_out := kf_out f + off\<rparr>"

definition kfifo_add_in :: "kfifo \<Rightarrow> u32 \<Rightarrow> kfifo" where
  "kfifo_add_in f off = f\<lparr>kf_in := kf_in f + off\<rparr>"

definition kfifo_off :: "kfifo \<Rightarrow> u32 \<Rightarrow> u32" where
  "kfifo_off f off = off AND (kf_size f - 1)"

section \<open>Creation\<close>

definition kfifo_init0 :: "u8 list option \<Rightarrow> u32 \<Rightarrow> kfifo \<Rightarrow> kfifo" where
  "kfifo_init0 buffer sz f = kfifo_reset (f\<lparr>kf_buffer := buffer, kf_size := sz\<rparr>)"

definition kfifo_init :: "u8 list \<Rightarrow> u32 \<Rightarrow> kfifo \<Rightarrow> kfifo option" where
  "kfifo_init buffer sz f = (if is_power_of_2 sz then Some (kfifo_init0 (Some buffer) sz f) else None)"

text \<open>\<open>kmalloc\<close> is the allocator.\<close>

definition kfifo_alloc :: "(u32 \<Rightarrow> u8 list option) \<Rightarrow> u32 \<Rightarrow> kfifo \<Rightarrow> (unit kresult \<times> kfifo) option" where
  "kfifo_alloc kmalloc sz f =
    (if \<not> is_power_of_2 sz \<and> 0x80000000 < sz then None
     else let sz = (if is_power_of_2 sz then sz else roundup_pow_of_two sz)
     in Some (case kmalloc sz of
          None \<Rightarrow> (Inl ENOMEM, kfifo_init0 None 0 f)
        | Some b \<Rightarrow> (Inr (), kfifo_init0 (Some b) sz f)))"

definition kfifo_free :: "kfifo \<Rightarrow> kfifo" where
  "kfifo_free f = kfifo_init0 None 0 f"

section \<open>Bytes\<close>

definition kfifo_skip :: "kfifo \<Rightarrow> u32 \<Rightarrow> kfifo" where
  "kfifo_skip f len = (if len < kfifo_len f then kfifo_add_out f len else kfifo_reset_out f)"

definition kfifo_in_data :: "kfifo \<Rightarrow> u8 list \<Rightarrow> u32 \<Rightarrow> u32 \<Rightarrow> kfifo option" where
  "kfifo_in_data f from len off = do {
    let off = kfifo_off f (kf_in f + off);
    let l = min len (kf_size f - off);
    d1 \<leftarrow> memcpy_out from 0 (unat l);
    b \<leftarrow> memcpy_in (kf_bytes f) (unat off) d1;
    d2 \<leftarrow> memcpy_out from (unat l) (unat (len - l));
    b \<leftarrow> memcpy_in b 0 d2;
    Some (kf_store b f) }"

definition kfifo_out_data :: "kfifo \<Rightarrow> u32 \<Rightarrow> u32 \<Rightarrow> u8 list option" where
  "kfifo_out_data f len off = do {
    let off = kfifo_off f (kf_out f + off);
    let l = min len (kf_size f - off);
    d1 \<leftarrow> memcpy_out (kf_bytes f) (unat off) (unat l);
    d2 \<leftarrow> memcpy_out (kf_bytes f) 0 (unat (len - l));
    Some (d1 @ d2) }"

definition kfifo_in :: "kfifo \<Rightarrow> u8 list \<Rightarrow> u32 \<Rightarrow> (u32 \<times> kfifo) option" where
  "kfifo_in f from len = do {
    let len = min (kfifo_avail f) len;
    f \<leftarrow> kfifo_in_data f from len 0;
    Some (len, kfifo_add_in f len) }"

definition kfifo_out :: "kfifo \<Rightarrow> u32 \<Rightarrow> (u32 \<times> u8 list \<times> kfifo) option" where
  "kfifo_out f len = do {
    let len = min (kfifo_len f) len;
    to \<leftarrow> kfifo_out_data f len 0;
    Some (len, to, kfifo_add_out f len) }"

definition kfifo_out_peek :: "kfifo \<Rightarrow> u32 \<Rightarrow> u32 \<Rightarrow> (u32 \<times> u8 list) option" where
  "kfifo_out_peek f len offset = do {
    let len = min (kfifo_len f) (len + offset);
    to \<leftarrow> kfifo_out_data f len offset;
    Some (len, to) }"

section \<open>User space\<close>

text \<open>
  \<open>ret1\<close> and \<open>ret2\<close> are the numbers of bytes that the two user copies fail to copy. The results are
  success, the value of \<^verbatim>\<open>*lenout\<close> and the FIFO, or the bytes that reached the user.
\<close>

definition kfifo_from_user_data :: "u32 \<Rightarrow> u32 \<Rightarrow> kfifo \<Rightarrow> u8 list \<Rightarrow> u32 \<Rightarrow> u32 \<Rightarrow> (unit kresult \<times> u32 \<times> kfifo) option" where
  "kfifo_from_user_data ret1 ret2 f from len off = do {
    let off = kfifo_off f (kf_in f + off);
    let l = min len (kf_size f - off);
    b \<leftarrow> copy_from_user (kf_bytes f) (unat off) from 0 (unat l) (unat ret1);
    if ret1 \<noteq> 0 then Some (Inl EFAULT, ret1, kf_store b f)
    else do {
      b \<leftarrow> copy_from_user b 0 from (unat l) (unat (len - l)) (unat ret2);
      Some (if ret2 \<noteq> 0 then Inl EFAULT else Inr (),
            l + (if ret2 \<noteq> 0 then ret2 else len - l), kf_store b f) } }"

definition kfifo_to_user_data :: "u32 \<Rightarrow> u32 \<Rightarrow> kfifo \<Rightarrow> u32 \<Rightarrow> u32 \<Rightarrow> (unit kresult \<times> u32 \<times> u8 list) option" where
  "kfifo_to_user_data ret1 ret2 f len off = do {
    let off = kfifo_off f (kf_out f + off);
    let l = min len (kf_size f - off);
    d1 \<leftarrow> copy_to_user (kf_bytes f) (unat off) (unat l) (unat ret1);
    if ret1 \<noteq> 0 then Some (Inl EFAULT, l - ret1, d1)
    else do {
      let len = len - l;
      d2 \<leftarrow> copy_to_user (kf_bytes f) 0 (unat len) (unat ret2);
      if ret2 \<noteq> 0 then Some (Inl EFAULT, l + (len - ret2), d1 @ d2)
      else Some (Inr (), l + len, d1 @ d2) } }"

definition kfifo_from_user :: "u32 \<Rightarrow> u32 \<Rightarrow> kfifo \<Rightarrow> u8 list \<Rightarrow> u32 \<Rightarrow> (unit kresult \<times> u32 \<times> kfifo) option" where
  "kfifo_from_user ret1 ret2 f from len = do {
    let len = min (kfifo_avail f) len;
    (ret, total, f) \<leftarrow> kfifo_from_user_data ret1 ret2 f from len 0;
    Some (case ret of Inl e \<Rightarrow> (Inl e, total, f) | Inr _ \<Rightarrow> (Inr (), total, kfifo_add_in f len)) }"

definition kfifo_to_user :: "u32 \<Rightarrow> u32 \<Rightarrow> kfifo \<Rightarrow> u32 \<Rightarrow> (unit kresult \<times> u32 \<times> u8 list \<times> kfifo) option" where
  "kfifo_to_user ret1 ret2 f len = do {
    let len = min (kfifo_len f) len;
    (ret, lenout, to) \<leftarrow> kfifo_to_user_data ret1 ret2 f len 0;
    Some (ret, lenout, to, kfifo_add_out f lenout) }"

section \<open>Records\<close>

text \<open>A record is its length in \<open>recsize\<close> bytes, low byte first, and then its data.\<close>

definition kfifo_get :: "kfifo \<Rightarrow> u32 \<Rightarrow> nat \<Rightarrow> u32 option" where
  "kfifo_get f off sh = do {
    b \<leftarrow> memcpy_out (kf_bytes f) (unat (kfifo_off f (kf_out f + off))) 1;
    Some (push_bit sh (ucast (hd b))) }"

definition kfifo_put :: "kfifo \<Rightarrow> u32 \<Rightarrow> u32 \<Rightarrow> nat \<Rightarrow> kfifo option" where
  "kfifo_put f off val sh = do {
    b \<leftarrow> memcpy_in (kf_bytes f) (unat (kfifo_off f (kf_in f + off))) [ucast (drop_bit sh val)];
    Some (kf_store b f) }"

definition kfifo_peek_n :: "kfifo \<Rightarrow> u32 \<Rightarrow> u32 option" where
  "kfifo_peek_n f recsize = do {
    l \<leftarrow> kfifo_get f 0 0;
    if recsize - 1 \<noteq> 0 then do { h \<leftarrow> kfifo_get f 1 8; Some (l OR h) } else Some l }"

definition kfifo_poke_n :: "kfifo \<Rightarrow> u32 \<Rightarrow> u32 \<Rightarrow> kfifo option" where
  "kfifo_poke_n f recsize n = do {
    f \<leftarrow> kfifo_put f 0 n 0;
    if recsize - 1 \<noteq> 0 then kfifo_put f 1 n 8 else Some f }"

definition kfifo_in_n :: "kfifo \<Rightarrow> u8 list \<Rightarrow> u32 \<Rightarrow> u32 \<Rightarrow> (u32 \<times> kfifo) option" where
  "kfifo_in_n f from len recsize =
    (if kfifo_avail f < len + recsize then Some (len + 1, f)
     else do { f \<leftarrow> kfifo_in_data f from len recsize; Some (0, f) })"

definition kfifo_in_rec :: "kfifo \<Rightarrow> u8 list \<Rightarrow> u32 \<Rightarrow> u32 \<Rightarrow> (u32 \<times> kfifo) option" where
  "kfifo_in_rec f from n recsize = do {
    (ret, f) \<leftarrow> kfifo_in_n f from n recsize;
    if ret = 0 then do {
      f \<leftarrow> (if recsize \<noteq> 0 then kfifo_poke_n f recsize n else Some f);
      Some (ret, kfifo_add_in f (n + recsize)) }
    else Some (ret, f) }"

definition kfifo_out_n :: "kfifo \<Rightarrow> u32 \<Rightarrow> u32 \<Rightarrow> (u32 \<times> u8 list \<times> kfifo) option" where
  "kfifo_out_n f len recsize =
    (if kfifo_len f < len + recsize then Some (len, [], f)
     else do { to \<leftarrow> kfifo_out_data f len recsize; Some (0, to, kfifo_add_out f (len + recsize)) })"

text \<open>The results are the value returned, \<^verbatim>\<open>*total\<close>, the bytes copied and the FIFO.\<close>

definition kfifo_out_rec :: "kfifo \<Rightarrow> u32 \<Rightarrow> u32 \<Rightarrow> (u32 \<times> u32 \<times> u8 list \<times> kfifo) option" where
  "kfifo_out_rec f n recsize = do {
    l \<leftarrow> (if recsize = 0 then Some n else kfifo_peek_n f recsize);
    if recsize \<noteq> 0 \<and> n < l then Some (l, l, [], f)
    else do { (ret, to, f) \<leftarrow> kfifo_out_n f l recsize; Some (ret, l, to, f) } }"

definition kfifo_from_user_n :: "u32 \<Rightarrow> u32 \<Rightarrow> kfifo \<Rightarrow> u8 list \<Rightarrow> u32 \<Rightarrow> u32 \<Rightarrow> (u32 \<times> kfifo) option" where
  "kfifo_from_user_n ret1 ret2 f from len recsize =
    (if kfifo_avail f < len + recsize then Some (len + 1, f)
     else do { (_, total, f) \<leftarrow> kfifo_from_user_data ret1 ret2 f from len recsize; Some (total, f) })"

definition kfifo_from_user_rec :: "u32 \<Rightarrow> u32 \<Rightarrow> kfifo \<Rightarrow> u8 list \<Rightarrow> u32 \<Rightarrow> u32 \<Rightarrow> (u32 \<times> kfifo) option" where
  "kfifo_from_user_rec ret1 ret2 f from n recsize = do {
    (ret, f) \<leftarrow> kfifo_from_user_n ret1 ret2 f from n recsize;
    if ret = 0 then do {
      f \<leftarrow> (if recsize \<noteq> 0 then kfifo_poke_n f recsize n else Some f);
      Some (ret, kfifo_add_in f (n + recsize)) }
    else Some (ret, f) }"

definition kfifo_to_user_n :: "u32 \<Rightarrow> u32 \<Rightarrow> kfifo \<Rightarrow> u32 \<Rightarrow> u32 \<Rightarrow> u32 \<Rightarrow> (u32 \<times> u8 list \<times> kfifo) option" where
  "kfifo_to_user_n ret1 ret2 f len reclen recsize =
    (if kfifo_len f < reclen + recsize then Some (len, [], f)
     else do {
       (ret, total, to) \<leftarrow> kfifo_to_user_data ret1 ret2 f reclen recsize;
       Some (total, to, case ret of Inr _ \<Rightarrow> kfifo_add_out f (reclen + recsize) | Inl _ \<Rightarrow> f) })"

definition kfifo_to_user_rec :: "u32 \<Rightarrow> u32 \<Rightarrow> kfifo \<Rightarrow> u32 \<Rightarrow> u32 \<Rightarrow> (u32 \<times> u32 \<times> u8 list \<times> kfifo) option" where
  "kfifo_to_user_rec ret1 ret2 f n recsize = do {
    l \<leftarrow> (if recsize = 0 then Some n else kfifo_peek_n f recsize);
    if recsize \<noteq> 0 \<and> n < l then Some (l, l, [], f)
    else do { (ret, to, f) \<leftarrow> kfifo_to_user_n ret1 ret2 f n l recsize; Some (ret, l, to, f) } }"

text \<open>\<open>cst\<close>: the record size is a compile-time constant.\<close>

definition kfifo_peek_generic :: "kfifo \<Rightarrow> u32 \<Rightarrow> u32 option" where
  "kfifo_peek_generic f recsize = (if recsize = 0 then Some (kfifo_avail f) else kfifo_peek_n f recsize)"

definition kfifo_peek_rec :: "bool \<Rightarrow> kfifo \<Rightarrow> u32 \<Rightarrow> u32 option" where
  "kfifo_peek_rec cst f recsize =
    (if \<not> cst then kfifo_peek_generic f recsize
     else if recsize = 0 then Some (kfifo_len f)
     else kfifo_peek_n f recsize)"

definition kfifo_skip_rec :: "kfifo \<Rightarrow> u32 \<Rightarrow> kfifo option" where
  "kfifo_skip_rec f recsize =
    (if recsize \<noteq> 0 then do {
       l \<leftarrow> kfifo_peek_n f recsize;
       Some (if l + recsize \<le> kfifo_len f then kfifo_add_out f (l + recsize) else kfifo_reset_out f) }
     else Some (kfifo_reset_out f))"

definition kfifo_avail_rec :: "kfifo \<Rightarrow> u32 \<Rightarrow> u32" where
  "kfifo_avail_rec f recsize =
    (let l = kf_size f - kfifo_len f in if recsize < l then l - recsize else 0)"

end
