(* ===== verification/Kfifo_Queue.thy ===== *)
theory Kfifo_Queue
  imports Kfifo
begin

text \<open>
  The FIFO as a bounded queue: what every operation of \<^verbatim>\<open>kfifo\<close> does to the list of stored bytes, the
  contract of a bounded queue as a locale with its interpretation by \<^verbatim>\<open>kfifo_in\<close> and \<^verbatim>\<open>kfifo_out\<close>, and the
  record operations as a queue of records.
\<close>

unbundle bit_operations_syntax

section \<open>Abstraction\<close>

definition kf_ok :: "kfifo \<Rightarrow> bool" where
  "kf_ok f \<longleftrightarrow> (\<exists>k < 32. kf_size f = 2 ^ k \<and> (\<exists>b. kf_buffer f = Some b \<and> length b = 2 ^ k))
     \<and> unat (kfifo_len f) \<le> unat (kf_size f)"

definition kf_queue :: "kfifo \<Rightarrow> u8 list" where
  "kf_queue f = ring_get (kf_bytes f) (unat (kf_out f)) (unat (kfifo_len f))"

lemma kf_okE:
  assumes "kf_ok f"
  obtains k b where "k < 32" "kf_size f = 2 ^ k" "unat (kf_size f) = 2 ^ k" "kf_buffer f = Some b" "length b = 2 ^ k"
    "unat (kfifo_len f) \<le> 2 ^ k"
  using assms by (auto simp: kf_ok_def unat_pow2_ulong)

lemma length_kf_queue [simp]: "length (kf_queue f) = unat (kfifo_len f)"
  by (simp add: kf_queue_def)

lemma kf_len_le: "kf_ok f \<Longrightarrow> unat (kfifo_len f) \<le> unat (kf_size f)"
  by (simp add: kf_ok_def)

lemma kf_off:
  assumes "kf_ok f"
  shows "unat (kfifo_off f w) = unat w mod unat (kf_size f)"
  using assms by (elim kf_okE) (simp add: kfifo_off_def unat_and_pred_pow2 unat_pow2_ulong)

lemma kf_off_lt: "kf_ok f \<Longrightarrow> unat (kfifo_off f w) < unat (kf_size f)"
  using kf_off [of f w] by (auto elim: kf_okE)

lemma kf_min:
  assumes "kf_ok f"
  shows "unat (min len (kf_size f - kfifo_off f w)) = min (unat len) (unat (kf_size f) - unat (kfifo_off f w))"
proof -
  have "unat (kf_size f - kfifo_off f w) = unat (kf_size f) - unat (kfifo_off f w)"
    using kf_off_lt [OF assms, of w] by (simp add: unat_sub_if')
  then show ?thesis by (simp add: min_def word_le_nat_alt)
qed

lemma unat_diff_min: "unat ((n :: u32) - min n m) = unat n - unat (min n m)"
  by (simp add: unat_sub_if' min_def word_le_nat_alt)

lemma kf_in_data:
  assumes ok: "kf_ok f" and b: "kf_buffer f = Some b" and len: "unat len \<le> unat (kf_size f)" "unat len \<le> length from"
  shows "kfifo_in_data f from len off = Some (f\<lparr>kf_buffer := Some (ring_put b (unat (kf_in f + off)) (take (unat len) from))\<rparr>)"
proof -
  let ?o = "kfifo_off f (kf_in f + off)"
  let ?l = "min len (kf_size f - ?o)"
  let ?d = "take (unat len) from"
  have n: "length b = unat (kf_size f)" using ok b by (auto elim: kf_okE)
  have l: "unat ?l = min (length ?d) (length b - unat ?o)" using kf_min [OF ok] len n by simp
  have "unat ?o < length b" "length ?d \<le> length b" using kf_off_lt [OF ok] len n by simp_all
  from ring_put_split [OF this l] obtain b' where
    b': "memcpy_in b (unat ?o) (take (unat ?l) ?d) = Some b'" "memcpy_in b' 0 (drop (unat ?l) ?d) = Some (ring_put b (unat ?o) ?d)" .
  have d1: "memcpy_out from 0 (unat ?l) = Some (take (unat ?l) ?d)" using l len by (simp add: min_def)
  have d2: "memcpy_out from (unat ?l) (unat (len - ?l)) = Some (drop (unat ?l) ?d)"
    using l len by (simp add: unat_diff_min drop_take)
  have "ring_put b (unat ?o) ?d = ring_put b (unat (kf_in f + off)) ?d"
    using ring_put_mod [of b "unat (kf_in f + off)"] kf_off [OF ok] n by simp
  then show ?thesis using b b' d1 d2 by (simp add: kfifo_in_data_def Let_def)
qed

lemma kf_out_data:
  assumes ok: "kf_ok f" and b: "kf_buffer f = Some b" and len: "unat len \<le> unat (kf_size f)"
  shows "kfifo_out_data f len off = Some (ring_get b (unat (kf_out f + off)) (unat len))"
proof -
  let ?o = "kfifo_off f (kf_out f + off)"
  let ?l = "min len (kf_size f - ?o)"
  have n: "length b = unat (kf_size f)" using ok b by (auto elim: kf_okE)
  have l: "unat ?l = min (unat len) (length b - unat ?o)" using kf_min [OF ok] n by simp
  have o: "unat ?o < length b" using kf_off_lt [OF ok] n by simp
  have "ring_get b (unat ?o) (unat len) = ring_get b (unat (kf_out f + off)) (unat len)"
    using ring_get_mod [of b "unat (kf_out f + off)"] kf_off [OF ok] n by simp
  with ring_get_split [OF o _ l] len n o l b show ?thesis
    by (simp add: kfifo_out_data_def Let_def unat_diff_min)
qed

text \<open>Positions relative to the out index.\<close>

lemma kf_pos:
  assumes "kf_ok f" "kf_buffer f = Some b"
  shows "(unat (kf_out f + w)) mod length b = (unat (kf_out f) + unat w) mod length b"
    and "(unat (kf_in f + w)) mod length b = (unat (kf_out f) + unat (kfifo_len f) + unat w) mod length b"
proof -
  obtain k where k: "k < 32" "length b = 2 ^ k" using assms by (auto elim: kf_okE)
  show "(unat (kf_out f + w)) mod length b = (unat (kf_out f) + unat w) mod length b"
    using k by (simp add: unat_add_mod_pow2)
  have "kf_in f + w = (kf_out f + kfifo_len f) + w" by (simp add: kfifo_len_def)
  then have "unat (kf_in f + w) mod length b = (unat (kf_out f + kfifo_len f) + unat w) mod length b"
    using k by (simp add: unat_add_mod_pow2)
  also have "\<dots> = (unat (kf_out f) + unat (kfifo_len f) + unat w) mod length b"
    using k by (intro mod_add_cong refl) (simp add: unat_add_mod_pow2)
  finally show "unat (kf_in f + w) mod length b = \<dots>" .
qed

lemma kf_avail:
  assumes "kf_ok f"
  shows "unat (kfifo_avail f) = unat (kf_size f) - unat (kfifo_len f)"
  using assms by (simp add: kfifo_avail_def kf_ok_def unat_sub_if')

text \<open>Appending to the queue and dropping from it.\<close>

lemma kf_append:
  assumes ok: "kf_ok f" and b: "kf_buffer f = Some b" and d: "unat (kfifo_len f) + length d \<le> unat (kf_size f)"
    and len: "unat len = length d"
  defines "f' \<equiv> kfifo_add_in (f\<lparr>kf_buffer := Some (ring_put b (unat (kf_in f)) d)\<rparr>) len"
  shows "kf_ok f'" "kf_queue f' = kf_queue f @ d" "kf_size f' = kf_size f"
proof -
  have n: "length b = unat (kf_size f)" using ok b by (auto elim: kf_okE)
  have "unat (kfifo_len f) + unat len < 2 ^ 32" using d len unat_ulong_lt [of "kf_size f"] by linarith
  then have l: "unat (kfifo_len f') = unat (kfifo_len f) + length d"
    using unat_add_ulong [of "kfifo_len f" len] len
    by (simp add: f'_def kfifo_len_def kfifo_add_in_def algebra_simps)
  show "kf_ok f'" using ok l d by (auto simp: kf_ok_def b f'_def kfifo_add_in_def)
  have "unat (kf_in f) mod length b = (unat (kf_out f) + unat (kfifo_len f)) mod length b" using kf_pos(2) [OF ok b, of 0] by simp
  then have "ring_put b (unat (kf_in f)) d = ring_put b (unat (kf_out f) + unat (kfifo_len f)) d" by (metis ring_put_mod)
  then show "kf_queue f' = kf_queue f @ d"
    using ring_get_put [of "unat (kfifo_len f)" d b "unat (kf_out f)"] d n l b
    by (simp add: kf_queue_def) (simp add: f'_def kfifo_add_in_def)
  show "kf_size f' = kf_size f" by (simp add: f'_def kfifo_add_in_def)
qed

lemma kf_drop:
  assumes ok: "kf_ok f" and n: "unat n \<le> unat (kfifo_len f)"
  shows "kf_ok (kfifo_add_out f n)" "kf_queue (kfifo_add_out f n) = drop (unat n) (kf_queue f)"
proof -
  obtain b where b: "kf_buffer f = Some b" using ok by (auto elim: kf_okE)
  have "kfifo_len (kfifo_add_out f n) = kfifo_len f - n" by (simp add: kfifo_len_def kfifo_add_out_def)
  then have l: "unat (kfifo_len (kfifo_add_out f n)) = unat (kfifo_len f) - unat n" using n by (simp add: unat_sub_if')
  show "kf_ok (kfifo_add_out f n)" using ok l by (auto simp: kf_ok_def) (auto simp: kfifo_add_out_def)
  have "ring_get b (unat (kf_out f + n)) m = ring_get b (unat (kf_out f) + unat n) m" for m
    using kf_pos(1) [OF ok b, of n] by (metis ring_get_mod)
  then show "kf_queue (kfifo_add_out f n) = drop (unat n) (kf_queue f)"
    using l n b by (simp add: kf_queue_def drop_ring_get) (simp add: kfifo_add_out_def)
qed

lemma kf_reset_out: "kf_ok f \<Longrightarrow> kf_ok (kfifo_reset_out f) \<and> kf_queue (kfifo_reset_out f) = []"
  by (auto simp: kf_ok_def kfifo_reset_out_def kfifo_len_def kf_queue_def)

section \<open>Bytes\<close>

lemma kfifo_in_queue:
  assumes ok: "kf_ok f" and len: "unat len \<le> length from"
  shows "\<exists>f'. kfifo_in f from len = Some (min (kfifo_avail f) len, f') \<and> kf_ok f' \<and> kf_size f' = kf_size f
    \<and> kf_queue f' = kf_queue f @ take (unat (min (kfifo_avail f) len)) from"
proof -
  let ?n = "min (kfifo_avail f) len"
  obtain b where b: "kf_buffer f = Some b" using ok by (auto elim: kf_okE)
  have n: "unat ?n \<le> unat (kf_size f) - unat (kfifo_len f)" "unat ?n \<le> unat len"
    using kf_avail [OF ok] by (auto simp: min_def word_le_nat_alt)
  moreover have "unat (kfifo_len f) \<le> unat (kf_size f)" using ok by (simp add: kf_ok_def)
  ultimately have d: "unat (kfifo_len f) + length (take (unat ?n) from) \<le> unat (kf_size f)" "unat ?n = length (take (unat ?n) from)"
    using len by simp_all
  have "kfifo_in_data f from ?n 0 = Some (f\<lparr>kf_buffer := Some (ring_put b (unat (kf_in f)) (take (unat ?n) from))\<rparr>)"
    using kf_in_data [OF ok b, of ?n "from" 0] n len by simp
  with kf_append [OF ok b d] show ?thesis by (simp add: kfifo_in_def Let_def)
qed

lemma kfifo_out_queue:
  assumes ok: "kf_ok f"
  shows "\<exists>f'. kfifo_out f len = Some (min (kfifo_len f) len, take (unat len) (kf_queue f), f') \<and> kf_ok f' \<and> kf_size f' = kf_size f
    \<and> kf_queue f' = drop (unat len) (kf_queue f)"
proof -
  let ?n = "min (kfifo_len f) len"
  obtain b where b: "kf_buffer f = Some b" using ok by (auto elim: kf_okE)
  have n: "unat ?n = min (unat (kfifo_len f)) (unat len)" by (auto simp: min_def word_le_nat_alt)
  then have "unat ?n \<le> unat (kf_size f)" using ok unfolding kf_ok_def by linarith
  then have "kfifo_out_data f ?n 0 = Some (take (unat len) (kf_queue f))"
    using kf_out_data [OF ok b, of ?n 0] n b by (simp add: kf_queue_def min.commute)
  moreover have "drop (unat ?n) (kf_queue f) = drop (unat len) (kf_queue f)" unfolding n by (simp add: min_def)
  moreover have "kf_size (kfifo_add_out f ?n) = kf_size f" by (simp add: kfifo_add_out_def)
  ultimately show ?thesis using kf_drop [OF ok, of ?n] n by (simp add: kfifo_out_def Let_def)
qed

section \<open>The contract of a bounded queue\<close>

datatype 'a qop = Put "'a list" | Get nat

text \<open>Running a sequence of operations: the data that was accepted, the data that was delivered, the queue.\<close>

fun qrun :: "('q \<Rightarrow> 'a list \<Rightarrow> (nat \<times> 'q) option) \<Rightarrow> ('q \<Rightarrow> nat \<Rightarrow> ('a list \<times> 'q) option)
    \<Rightarrow> 'a qop list \<Rightarrow> 'q \<Rightarrow> ('a list \<times> 'a list \<times> 'q) option" where
  "qrun put get [] q = Some ([], [], q)"
| "qrun put get (Put d # ops) q = do {
     (n, q) \<leftarrow> put q d; (acc, del, q) \<leftarrow> qrun put get ops q; Some (take n d @ acc, del, q) }"
| "qrun put get (Get n # ops) q = do {
     (d, q) \<leftarrow> get q n; (acc, del, q) \<leftarrow> qrun put get ops q; Some (acc, d @ del, q) }"

primrec qop_within :: "nat \<Rightarrow> 'a qop \<Rightarrow> bool" where
  "qop_within lim (Put d) \<longleftrightarrow> length d < lim"
| "qop_within lim (Get n) \<longleftrightarrow> n < lim"

locale bounded_queue =
  fixes inv :: "'q \<Rightarrow> bool" and contents :: "'q \<Rightarrow> 'a list" and capacity :: "'q \<Rightarrow> nat" and lim :: nat
    and put :: "'q \<Rightarrow> 'a list \<Rightarrow> (nat \<times> 'q) option" and get :: "'q \<Rightarrow> nat \<Rightarrow> ('a list \<times> 'q) option"
  assumes within: "inv q \<Longrightarrow> length (contents q) \<le> capacity q"
    and put_law: "inv q \<Longrightarrow> length d < lim \<Longrightarrow>
      \<exists>q'. put q d = Some (min (capacity q - length (contents q)) (length d), q') \<and> inv q' \<and> capacity q' = capacity q
        \<and> contents q' = contents q @ take (capacity q - length (contents q)) d"
    and get_law: "inv q \<Longrightarrow> n < lim \<Longrightarrow>
      \<exists>q'. get q n = Some (take n (contents q), q') \<and> inv q' \<and> capacity q' = capacity q
        \<and> contents q' = drop n (contents q)"
begin

lemma run_fifo:
  assumes "inv q" "list_all (qop_within lim) ops"
  shows "\<exists>acc del q'. qrun put get ops q = Some (acc, del, q') \<and> inv q' \<and> capacity q' = capacity q
    \<and> length (contents q') \<le> capacity q \<and> contents q @ acc = del @ contents q'"
  using assms
proof (induction ops arbitrary: q)
  case Nil
  then show ?case using within by simp
next
  case (Cons x ops)
  show ?case
  proof (cases x)
    case (Put d)
    with Cons.prems obtain q1 where q1: "put q d = Some (min (capacity q - length (contents q)) (length d), q1)" "inv q1"
      "capacity q1 = capacity q" "contents q1 = contents q @ take (capacity q - length (contents q)) d"
      using put_law [of q d] by auto
    obtain acc del q' where "qrun put get ops q1 = Some (acc, del, q')" "inv q'" "capacity q' = capacity q1"
      "length (contents q') \<le> capacity q1" "contents q1 @ acc = del @ contents q'"
      using Cons.IH [OF q1(2)] Cons.prems by auto
    with q1 Put show ?thesis by (simp add: min_def split: if_splits)
  next
    case (Get n)
    with Cons.prems obtain q1 where q1: "get q n = Some (take n (contents q), q1)" "inv q1"
      "capacity q1 = capacity q" "contents q1 = drop n (contents q)"
      using get_law [of q n] by auto
    obtain acc del q' where "qrun put get ops q1 = Some (acc, del, q')" "inv q'" "capacity q' = capacity q1"
      "length (contents q') \<le> capacity q1" "contents q1 @ acc = del @ contents q'"
      using Cons.IH [OF q1(2)] Cons.prems by auto
    with q1 Get show ?thesis by simp (metis append.assoc append_take_drop_id)
  qed
qed

text \<open>A queue that was filled is drained in the order of filling.\<close>

lemma put_get:
  assumes "inv q" "contents q = []" "length d \<le> capacity q" "length d < lim"
  shows "\<exists>q'. qrun put get [Put d, Get (length d)] q = Some (d, d, q') \<and> contents q' = []"
proof -
  obtain q1 where q1: "put q d = Some (length d, q1)" "inv q1" "contents q1 = d"
    using put_law [OF assms(1,4)] assms(2,3) by auto
  with get_law [OF q1(2) assms(4)] show ?thesis by auto
qed

end

text \<open>The operations in the form of the contract.\<close>

definition kfifo_put_bytes :: "kfifo \<Rightarrow> u8 list \<Rightarrow> (nat \<times> kfifo) option" where
  "kfifo_put_bytes f d = map_option (\<lambda>(n, f). (unat n, f)) (kfifo_in f d (of_nat (length d)))"

definition kfifo_get_bytes :: "kfifo \<Rightarrow> nat \<Rightarrow> (u8 list \<times> kfifo) option" where
  "kfifo_get_bytes f n = map_option (\<lambda>(_, d, f). (d, f)) (kfifo_out f (of_nat n))"

interpretation kq: bounded_queue kf_ok kf_queue "\<lambda>f. unat (kf_size f)" "2 ^ 32" kfifo_put_bytes kfifo_get_bytes
proof
  fix f :: kfifo and d :: "u8 list" and n :: nat
  assume ok: "kf_ok f"
  show "length (kf_queue f) \<le> unat (kf_size f)" using ok by (simp add: kf_ok_def)
  show "\<exists>f'. kfifo_put_bytes f d = Some (min (unat (kf_size f) - length (kf_queue f)) (length d), f') \<and> kf_ok f'
      \<and> unat (kf_size f') = unat (kf_size f)
      \<and> kf_queue f' = kf_queue f @ take (unat (kf_size f) - length (kf_queue f)) d" if "length d < 2 ^ 32"
  proof -
    let ?n = "min (kfifo_avail f) (of_nat (length d))"
    have l: "unat (of_nat (length d) :: u32) = length d" using that by (rule unat_of_nat_ulong)
    then have n: "unat ?n = min (unat (kf_size f) - unat (kfifo_len f)) (length d)"
      using kf_avail [OF ok] by (auto simp: min_def word_le_nat_alt)
    obtain f' where "kfifo_in f d (of_nat (length d)) = Some (?n, f')" "kf_ok f'" "kf_size f' = kf_size f"
      "kf_queue f' = kf_queue f @ take (unat ?n) d"
      using kfifo_in_queue [OF ok, of "of_nat (length d)" d] l by auto
    moreover have "take (unat ?n) d = take (unat (kf_size f) - unat (kfifo_len f)) d" unfolding n by (simp add: min_def)
    ultimately show ?thesis using n by (simp add: kfifo_put_bytes_def)
  qed
  show "\<exists>f'. kfifo_get_bytes f n = Some (take n (kf_queue f), f') \<and> kf_ok f' \<and> unat (kf_size f') = unat (kf_size f)
      \<and> kf_queue f' = drop n (kf_queue f)" if "n < 2 ^ 32"
  proof -
    have l: "unat (of_nat n :: u32) = n" using that by (rule unat_of_nat_ulong)
    with kfifo_out_queue [OF ok, of "of_nat n"] show ?thesis by (auto simp: kfifo_get_bytes_def)
  qed
qed

end
