(* ===== verification/Kfifo_Records.thy ===== *)
theory Kfifo_Records
  imports Kfifo_Queue
begin

text \<open>
  The record operations of \<^verbatim>\<open>kfifo\<close> as a queue of records, the copies from and to user space on every
  branch, and the creation of a FIFO.
\<close>

unbundle bit_operations_syntax

section \<open>The length field\<close>

definition rec_header :: "u32 \<Rightarrow> u32 \<Rightarrow> u8 list" where
  "rec_header recsize n = (if recsize = 1 then [ucast n] else [ucast n, ucast (drop_bit 8 n)])"

definition rec_bytes :: "u32 \<Rightarrow> u8 list \<Rightarrow> u8 list" where
  "rec_bytes recsize d = rec_header recsize (of_nat (length d)) @ d"

text \<open>The FIFO holds the records \<open>ds\<close>.\<close>

definition kf_records :: "u32 \<Rightarrow> kfifo \<Rightarrow> u8 list list \<Rightarrow> bool" where
  "kf_records recsize f ds \<longleftrightarrow> kf_ok f \<and> kf_queue f = concat (map (rec_bytes recsize) ds)
     \<and> (\<forall>d\<in>set ds. length d < 256 ^ unat recsize)"

abbreviation (input) rec_size_ok :: "u32 \<Rightarrow> bool" where
  "rec_size_ok recsize \<equiv> recsize = 1 \<or> recsize = 2"

lemma length_rec_header: "rec_size_ok recsize \<Longrightarrow> length (rec_header recsize n) = unat recsize"
  by (auto simp: rec_header_def)

lemma low_bits:
  assumes "unat (n :: u32) < 2 ^ k" "bit n i"
  shows "i < k"
proof -
  have "take_bit k (unat n) = unat n" using assms(1) by (simp add: take_bit_nat_eq_self_iff)
  then have "take_bit k n = n" by (metis unsigned_take_bit_eq word_unat_eq_iff)
  with assms(2) show ?thesis by (metis bit_take_bit_iff)
qed

lemma one_byte_field: "unat n < 256 \<Longrightarrow> ucast (ucast n :: u8) = (n :: u32)"
  by (rule bit_eqI) (use low_bits [of n 8] in \<open>auto simp: bit_simps\<close>)

lemma two_byte_field:
  assumes "unat n < 65536"
  shows "ucast (ucast n :: u8) OR push_bit 8 (ucast (ucast (drop_bit 8 n) :: u8)) = (n :: u32)"
proof (rule bit_eqI)
  fix i
  show "bit (ucast (ucast n :: u8) OR push_bit 8 (ucast (ucast (drop_bit 8 n) :: u8)) :: u32) i \<longleftrightarrow> bit n i"
    using low_bits [of n 16 i] assms bit_ulong_lt [of n i] by (auto simp: bit_simps)
qed

section \<open>Single bytes\<close>

lemma kf_get:
  assumes ok: "kf_ok f" and off: "unat off < unat (kfifo_len f)"
  shows "kfifo_get f off sh = Some (push_bit sh (ucast (kf_queue f ! unat off)))"
proof -
  obtain b where b: "kf_buffer f = Some b" "length b = unat (kf_size f)" using ok by (auto elim: kf_okE)
  have "unat (kfifo_off f (kf_out f + off)) < length b" using kf_off_lt [OF ok] b by simp
  moreover have "unat (kfifo_off f (kf_out f + off)) = (unat (kf_out f) + unat off) mod length b"
    using kf_off [OF ok] kf_pos(1) [OF ok b(1)] b by simp
  ultimately show ?thesis using b off by (simp add: kfifo_get_def kf_queue_def ring_get_def hd_drop_conv_nth)
qed

lemma kf_put:
  assumes ok: "kf_ok f" and b: "kf_buffer f = Some b"
  shows "kfifo_put f off val sh = Some (f\<lparr>kf_buffer := Some (ring_put b (unat (kf_in f + off)) [ucast (drop_bit sh val)])\<rparr>)"
proof -
  have n: "length b = unat (kf_size f)" using ok b by (auto elim: kf_okE)
  have "unat (kfifo_off f (kf_in f + off)) < length b" using kf_off_lt [OF ok] n by simp
  moreover have "unat (kfifo_off f (kf_in f + off)) = unat (kf_in f + off) mod length b" using kf_off [OF ok] n by simp
  ultimately show ?thesis
    using memcpy_in_ring [of "unat (kfifo_off f (kf_in f + off))" b "[ucast (drop_bit sh val)]"] b
    by (simp add: kfifo_put_def ring_put_mod)
qed

lemma kf_ok_buffer: "kf_ok f \<Longrightarrow> kf_buffer f = Some b \<Longrightarrow> length b' = length b \<Longrightarrow> kf_ok (f\<lparr>kf_buffer := Some b'\<rparr>)"
  by (auto simp: kf_ok_def kfifo_len_def)

lemma kf_in_step:
  assumes "kf_ok f" "kf_buffer f = Some b"
  shows "ring_put b (unat (kf_in f + w)) d = ring_put b (unat (kf_in f) + unat w) d"
proof -
  have "unat (kf_in f + w) mod length b = (unat (kf_in f) + unat w) mod length b"
    using assms by (elim kf_okE) (simp add: unat_add_mod_pow2)
  then show ?thesis by (metis ring_put_mod)
qed

lemma kf_poke:
  assumes ok: "kf_ok f" and b: "kf_buffer f = Some b" and rs: "rec_size_ok recsize" and n: "unat recsize \<le> length b"
  shows "kfifo_poke_n f recsize n = Some (f\<lparr>kf_buffer := Some (ring_put b (unat (kf_in f)) (rec_header recsize n))\<rparr>)"
proof -
  let ?f = "f\<lparr>kf_buffer := Some (ring_put b (unat (kf_in f)) [ucast n])\<rparr>"
  have 1: "kfifo_put f 0 n 0 = Some ?f" using kf_put [OF ok b, of 0 n 0] by simp
  have ok1: "kf_ok ?f" by (rule kf_ok_buffer [OF ok b]) simp
  show ?thesis
  proof (cases "recsize = 1")
    case True
    then show ?thesis using 1 by (simp add: kfifo_poke_n_def rec_header_def)
  next
    case False
    then have "recsize = 2" using rs by simp
    moreover from this have "kfifo_put ?f 1 n 8 = Some (f\<lparr>kf_buffer := Some (ring_put b (unat (kf_in f)) [ucast n, ucast (drop_bit 8 n)])\<rparr>)"
      using kf_put [OF ok1, of _ 1 n 8] kf_in_step [OF ok1, of _ 1] ring_put_append(2) [of "[ucast n]" "[ucast (drop_bit 8 n)]" b] n
      by simp
    ultimately show ?thesis using 1 by (simp add: kfifo_poke_n_def rec_header_def)
  qed
qed

section \<open>Records\<close>

lemma kf_in_rec:
  assumes ok: "kf_ok f" and rs: "rec_size_ok recsize" and fit: "length d + unat recsize \<le> unat (kfifo_avail f)"
  shows "\<exists>f'. kfifo_in_rec f d (of_nat (length d)) recsize = Some (0, f') \<and> kf_ok f' \<and> kf_queue f' = kf_queue f @ rec_bytes recsize d"
proof -
  let ?n = "of_nat (length d) :: u32" and ?h = "rec_header recsize (of_nat (length d))"
  obtain b where b: "kf_buffer f = Some b" "length b = unat (kf_size f)" using ok by (auto elim: kf_okE)
  have av: "unat (kfifo_len f) + (length d + unat recsize) \<le> unat (kf_size f)"
    using fit kf_avail [OF ok] kf_len_le [OF ok] by linarith
  have small: "length d + unat recsize < 2 ^ 32" using fit unat_ulong_lt [of "kfifo_avail f"] by linarith
  then have n: "unat ?n = length d" by (intro unat_of_nat_ulong) simp
  then have sum: "unat (?n + recsize) = length (?h @ d)"
    using small length_rec_header [OF rs] by (simp add: unat_add_ulong)
  let ?f1 = "f\<lparr>kf_buffer := Some (ring_put b (unat (kf_in f) + unat recsize) d)\<rparr>"
  have 1: "kfifo_in_n f d ?n recsize = Some (0, ?f1)"
    using fit kf_in_data [OF ok b(1), of ?n d recsize] kf_in_step [OF ok b(1), of recsize] n sum av length_rec_header [OF rs]
    by (simp add: kfifo_in_n_def word_less_nat_alt)
  have ok1: "kf_ok ?f1" by (rule kf_ok_buffer [OF ok b(1)]) simp
  have "ring_put (ring_put b (unat (kf_in f) + unat recsize) d) (unat (kf_in f)) ?h = ring_put b (unat (kf_in f)) (?h @ d)"
    using ring_put_append(1) [of ?h d b "unat (kf_in f)"] length_rec_header [OF rs] av b by simp
  moreover have "kfifo_poke_n ?f1 recsize ?n = Some (?f1\<lparr>kf_buffer := Some (ring_put (ring_put b (unat (kf_in f) + unat recsize) d) (unat (kf_in f)) ?h)\<rparr>)"
    using kf_poke [OF ok1 _ rs] av b by simp
  ultimately have 2: "kfifo_poke_n ?f1 recsize ?n = Some (f\<lparr>kf_buffer := Some (ring_put b (unat (kf_in f)) (?h @ d))\<rparr>)" by simp
  have "recsize \<noteq> 0" using rs by auto
  then have "kfifo_in_rec f d ?n recsize
      = Some (0, kfifo_add_in (f\<lparr>kf_buffer := Some (ring_put b (unat (kf_in f)) (?h @ d))\<rparr>) (?n + recsize))"
    using 1 2 by (simp add: kfifo_in_rec_def)
  moreover have "unat (kfifo_len f) + length (?h @ d) \<le> unat (kf_size f)" using av length_rec_header [OF rs] by simp
  ultimately show ?thesis using kf_append [OF ok b(1) _ sum] by (simp add: rec_bytes_def)
qed

lemma kf_peek_rec:
  assumes ok: "kf_ok f" and rs: "rec_size_ok recsize" and q: "kf_queue f = rec_bytes recsize d @ rest"
    and small: "length d < 256 ^ unat recsize"
  shows "kfifo_peek_n f recsize = Some (of_nat (length d))"
proof -
  let ?n = "of_nat (length d) :: u32"
  have "unat (kfifo_len f) = length (kf_queue f)" by simp
  then have l: "unat recsize \<le> unat (kfifo_len f)"
    using length_rec_header [OF rs, of ?n] by (simp add: q rec_bytes_def)
  have n: "unat ?n = length d" using small rs by (intro unat_of_nat_ulong) auto
  show ?thesis
  proof (cases "recsize = 1")
    case True
    then show ?thesis using kf_get [OF ok, of 0 0] l q n small one_byte_field [of ?n]
      by (simp add: kfifo_peek_n_def rec_bytes_def rec_header_def)
  next
    case False
    then have "recsize = 2" using rs by simp
    then show ?thesis using kf_get [OF ok, of 0 0] kf_get [OF ok, of 1 8] l q n small two_byte_field [of ?n]
      by (simp add: kfifo_peek_n_def rec_bytes_def rec_header_def)
  qed
qed

lemma kf_out_rec:
  assumes ok: "kf_ok f" and rs: "rec_size_ok recsize" and q: "kf_queue f = rec_bytes recsize d @ rest"
    and small: "length d < 256 ^ unat recsize"
  shows "if unat n < length d then kfifo_out_rec f n recsize = Some (of_nat (length d), of_nat (length d), [], f)
    else \<exists>f'. kfifo_out_rec f n recsize = Some (0, of_nat (length d), d, f') \<and> kf_ok f' \<and> kf_queue f' = rest"
proof -
  let ?l = "of_nat (length d) :: u32"
  obtain b where b: "kf_buffer f = Some b" "length b = unat (kf_size f)" using ok by (auto elim: kf_okE)
  have l: "unat ?l = length d" using small rs by (intro unat_of_nat_ulong) auto
  have peek: "kfifo_peek_n f recsize = Some ?l" by (rule kf_peek_rec [OF ok rs q small])
  have r0: "recsize \<noteq> 0" using rs by auto
  have "length (kf_queue f) = unat (kfifo_len f)" by simp
  then have len: "length d + unat recsize \<le> unat (kfifo_len f)"
    using length_rec_header [OF rs, of ?l] by (simp add: q rec_bytes_def)
  then have sum: "unat (?l + recsize) = length d + unat recsize"
    using l unat_ulong_lt [of "kfifo_len f"] by (simp add: unat_add_ulong)
  have "unat ?l \<le> unat (kf_size f)" using len l ok by (simp add: kf_ok_def)
  from kf_out_data [OF ok b(1) this, of recsize] have
    "kfifo_out_data f ?l recsize = Some (ring_get b (unat (kf_out f + recsize)) (length d))" using l by simp
  also have "ring_get b (unat (kf_out f + recsize)) (length d) = ring_get b (unat (kf_out f) + unat recsize) (length d)"
    using kf_pos(1) [OF ok b(1), of recsize] by (metis ring_get_mod)
  also have "\<dots> = take (length d) (drop (unat recsize) (kf_queue f))"
  proof -
    have "min (length d) (unat (kfifo_len f) - unat recsize) = length d" using len by simp
    then show ?thesis using b(1) len by (simp add: kf_queue_def drop_ring_get)
  qed
  also have "\<dots> = d" using length_rec_header [OF rs, of ?l] by (simp add: q rec_bytes_def)
  finally have data: "kfifo_out_data f ?l recsize = Some d" .
  have "drop (unat (?l + recsize)) (kf_queue f) = rest"
    unfolding sum using length_rec_header [OF rs, of ?l] by (simp add: q rec_bytes_def)
  moreover have "unat (?l + recsize) \<le> unat (kfifo_len f)" using sum len by simp
  ultimately show ?thesis
    using kf_drop [OF ok, of "?l + recsize"] peek r0 data sum len l
    by (simp add: kfifo_out_rec_def kfifo_out_n_def word_less_nat_alt)
qed

section \<open>Copies from and to user space\<close>

lemma kf_to_user_data:
  assumes ok: "kf_ok f" and len: "unat len \<le> unat (kfifo_len f)"
    and r: "unat ret1 \<le> min (unat len) (unat (kf_size f) - unat (kf_out f) mod unat (kf_size f))"
      "unat ret2 \<le> unat len - min (unat len) (unat (kf_size f) - unat (kf_out f) mod unat (kf_size f))"
  shows "\<exists>lenout. kfifo_to_user_data ret1 ret2 f len 0
      = Some (if ret1 = 0 \<and> ret2 = 0 then Inr () else Inl EFAULT, lenout, take (unat lenout) (kf_queue f))
    \<and> unat lenout \<le> unat len \<and> (ret1 = 0 \<and> ret2 = 0 \<longrightarrow> lenout = len)"
proof -
  obtain b where b: "kf_buffer f = Some b" "length b = unat (kf_size f)" using ok by (auto elim: kf_okE)
  let ?o = "kfifo_off f (kf_out f)"
  let ?l = "min len (kf_size f - ?o)"
  have o: "unat ?o = unat (kf_out f) mod length b" "unat ?o < length b" using kf_off [OF ok] kf_off_lt [OF ok] b by simp_all
  have l: "unat ?l = min (unat len) (length b - unat ?o)" using kf_min [OF ok] b by simp
  have r1: "unat ret1 \<le> unat ?l" and r2: "unat ret2 \<le> unat len - unat ?l" using r by (simp_all only: l o(1) b(2))
  have n: "unat len \<le> length b" using len kf_len_le [OF ok] b by simp
  have q: "ring_get b (unat ?o) m = take m (kf_queue f)" if "m \<le> unat len" for m
    using that len b(1) o(1) ring_get_mod [of b "unat (kf_out f)"] by (simp add: kf_queue_def min_absorb1)
  have ll: "unat ?l \<le> unat len" using l by simp
  note cp = ring_copy_to_user [OF o(2) n l]
  show ?thesis
  proof (cases "ret1 = 0")
    case False
    have "unat (?l - ret1) = unat ?l - unat ret1" using r1 by (simp add: unat_sub_if')
    then show ?thesis using b(1) cp(1) [OF r1] q [of "unat (?l - ret1)"] ll False
      by (intro exI [of _ "?l - ret1"]) (simp add: kfifo_to_user_data_def Let_def)
  next
    case True
    obtain d2 where d2: "copy_to_user b 0 (unat len - unat ?l) (unat ret2) = Some d2"
      "ring_get b (unat ?o) (unat ?l) @ d2 = ring_get b (unat ?o) (unat len - unat ret2)" using cp(2) [OF r2] by blast
    have u: "unat (len - ret2) = unat len - unat ret2" using r2 by (simp add: unat_sub_if')
    have "kfifo_to_user_data ret1 ret2 f len 0 = Some (if ret2 = 0 then Inr () else Inl EFAULT, len - ret2,
        ring_get b (unat ?o) (unat len - unat ret2))"
      using b(1) cp(1) [of 0] d2 True by (simp add: kfifo_to_user_data_def Let_def unat_diff_min)
    then show ?thesis using q [of "unat len - unat ret2"] u True by (intro exI [of _ "len - ret2"]) simp
  qed
qed

text \<open>Bytes that are stored outside the queue do not change it.\<close>

lemma kf_store_free:
  assumes ok: "kf_ok f" and b: "kf_buffer f = Some b" and d: "unat (kfifo_len f) + unat off + length d \<le> unat (kf_size f)"
  shows "kf_ok (f\<lparr>kf_buffer := Some (ring_put b (unat (kf_in f + off)) d)\<rparr>)"
    "kf_queue (f\<lparr>kf_buffer := Some (ring_put b (unat (kf_in f + off)) d)\<rparr>) = kf_queue f"
proof -
  have n: "length b = unat (kf_size f)" using ok b by (auto elim: kf_okE)
  show "kf_ok (f\<lparr>kf_buffer := Some (ring_put b (unat (kf_in f + off)) d)\<rparr>)" by (rule kf_ok_buffer [OF ok b]) simp
  have "ring_put b (unat (kf_in f + off)) d = ring_put b (unat (kf_out f) + unat (kfifo_len f) + unat off) d"
    using kf_pos(2) [OF ok b, of off] by (metis ring_put_mod)
  moreover have "kfifo_len (f\<lparr>kf_buffer := x\<rparr>) = kfifo_len f" for x by (simp add: kfifo_len_def)
  ultimately show "kf_queue (f\<lparr>kf_buffer := Some (ring_put b (unat (kf_in f + off)) d)\<rparr>) = kf_queue f"
    using ring_get_put_other [of "unat (kfifo_len f)" "unat off" d b] d n b by (simp add: kf_queue_def)
qed

lemma kf_from_user_data:
  assumes ok: "kf_ok f" and b: "kf_buffer f = Some b" and len: "unat (kfifo_len f) + unat off + unat len \<le> unat (kf_size f)"
    and u: "unat len \<le> length from"
    and r: "unat ret1 \<le> min (unat len) (unat (kf_size f) - unat (kf_in f + off) mod unat (kf_size f))"
      "unat ret2 \<le> unat len - min (unat len) (unat (kf_size f) - unat (kf_in f + off) mod unat (kf_size f))"
  shows "\<exists>tot d. kfifo_from_user_data ret1 ret2 f from len off
      = Some (if ret1 = 0 \<and> ret2 = 0 then Inr () else Inl EFAULT, tot,
          f\<lparr>kf_buffer := Some (ring_put b (unat (kf_in f + off)) d)\<rparr>)
    \<and> length d \<le> unat len \<and> (ret1 = 0 \<and> ret2 = 0 \<longrightarrow> tot = len \<and> d = take (unat len) from)"
proof -
  let ?o = "kfifo_off f (kf_in f + off)"
  let ?l = "min len (kf_size f - ?o)"
  have n: "length b = unat (kf_size f)" using ok b by (auto elim: kf_okE)
  have o: "unat ?o = unat (kf_in f + off) mod length b" "unat ?o < length b" using kf_off [OF ok] kf_off_lt [OF ok] n by simp_all
  have l: "unat ?l = min (unat len) (length b - unat ?o)" using kf_min [OF ok] n by simp
  have r1: "unat ret1 \<le> unat ?l" and r2: "unat ret2 \<le> unat len - unat ?l" using r by (simp_all only: l o(1) n)
  have p: "ring_put b (unat ?o) d = ring_put b (unat (kf_in f + off)) d" for d using o(1) ring_put_mod by metis
  have "unat len \<le> length b" using len n by simp
  note cp = ring_copy_from_user [OF o(2) this u l]
  have ll: "unat ?l \<le> unat len" using l by simp
  show ?thesis
  proof (cases "ret1 = 0")
    case False
    then show ?thesis using b cp(1) [OF r1] p ll r1
      by (intro exI [of _ ret1] exI [of _ "take (unat ?l - unat ret1) from @ replicate (unat ret1) 0"])
        (simp add: kfifo_from_user_data_def Let_def)
  next
    case True
    obtain b' where b': "copy_from_user b (unat ?o) from 0 (unat ?l) 0 = Some b'"
      "copy_from_user b' 0 from (unat ?l) (unat len - unat ?l) (unat ret2)
        = Some (ring_put b (unat ?o) (take (unat len - unat ret2) from @ replicate (unat ret2) 0))"
      using cp(2) [OF r2] by blast
    have "kfifo_from_user_data ret1 ret2 f from len off = Some (if ret2 = 0 then Inr () else Inl EFAULT,
        ?l + (if ret2 \<noteq> 0 then ret2 else len - ?l),
        f\<lparr>kf_buffer := Some (ring_put b (unat (kf_in f + off)) (take (unat len - unat ret2) from @ replicate (unat ret2) 0))\<rparr>)"
      using b b' True p by (simp add: kfifo_from_user_data_def Let_def unat_diff_min)
    moreover have "length (take (unat len - unat ret2) from @ replicate (unat ret2) 0) \<le> unat len" using r2 by simp
    ultimately show ?thesis using True
      by (intro exI [of _ "?l + (if ret2 \<noteq> 0 then ret2 else len - ?l)"]
          exI [of _ "take (unat len - unat ret2) from @ replicate (unat ret2) 0"]) simp
  qed
qed

section \<open>Properties\<close>

text \<open>A FIFO of eight bytes that holds the three bytes 1, 2, 3, with indices about to wrap.\<close>

definition sample_fifo :: kfifo where
  "sample_fifo = \<lparr>kf_buffer = Some [2, 3, 0, 0, 0, 0, 0, 1], kf_size = 8, kf_in = 2, kf_out = 0xFFFFFFFF\<rparr>"

lemma sample_fifo_ok: "kf_ok sample_fifo"
  unfolding kf_ok_def by (auto simp: sample_fifo_def kfifo_len_def intro!: exI [of _ 3])

lemma sample_fifo_queue: "kf_queue sample_fifo = [1, 2, 3]"
  by (simp add: kf_queue_def ring_get_def sample_fifo_def kfifo_len_def upt_conv_Cons)

text \<open>C10: Any sequence of \<^verbatim>\<open>kfifo_in\<close> and \<^verbatim>\<open>kfifo_out\<close> calls on a FIFO runs without an access outside the buffer,
  never holds more bytes than its size, and delivers the bytes in the order in which they were accepted,
  across any number of wraps of the two free-running indices.\<close>

theorem kfifo_is_bounded_queue:
  assumes "kf_ok f" "list_all (qop_within (2 ^ 32)) ops"
  shows "\<exists>acc del f'. qrun kfifo_put_bytes kfifo_get_bytes ops f = Some (acc, del, f') \<and> kf_ok f'
    \<and> unat (kf_size f') = unat (kf_size f) \<and> length (kf_queue f') \<le> unat (kf_size f)
    \<and> kf_queue f @ acc = del @ kf_queue f'"
  using kq.run_fifo [OF assms] by blast

theorem kfifo_is_bounded_queue_witness:
  "\<exists>acc del f'. qrun kfifo_put_bytes kfifo_get_bytes [Put [7, 8], Get 4] sample_fifo = Some (acc, del, f')
    \<and> [1, 2, 3] @ acc = del @ kf_queue f'"
  using kfifo_is_bounded_queue [OF sample_fifo_ok, of "[Put [7, 8], Get 4]"] sample_fifo_queue by fastforce

text \<open>C28: The record operations are a queue of records: \<^verbatim>\<open>kfifo_in_rec\<close> appends a record that fits and returns 0,
  and otherwise leaves the FIFO as it is and returns more than the length; \<^verbatim>\<open>kfifo_out_rec\<close> removes the
  oldest record and delivers exactly its bytes, or leaves it and returns its length when the destination
  is too small.\<close>

theorem kfifo_record_roundtrip:
  assumes "kf_records recsize f ds" "recsize = 1 \<or> recsize = 2" "length d < 256 ^ unat recsize"
  shows "(if unat (kfifo_avail f) < length d + unat recsize
      then kfifo_in_rec f d (of_nat (length d)) recsize = Some (of_nat (length d) + 1, f)
      else \<exists>f'. kfifo_in_rec f d (of_nat (length d)) recsize = Some (0, f') \<and> kf_records recsize f' (ds @ [d]))
    \<and> (\<forall>d0 ds0 n. ds = d0 # ds0 \<longrightarrow> (if unat n < length d0 then kfifo_out_rec f n recsize = Some (of_nat (length d0), of_nat (length d0), [], f)
      else \<exists>f'. kfifo_out_rec f n recsize = Some (0, of_nat (length d0), d0, f') \<and> kf_records recsize f' ds0))"
proof -
  have ok: "kf_ok f" and q: "kf_queue f = concat (map (rec_bytes recsize) ds)"
    and len: "\<And>d. d \<in> set ds \<Longrightarrow> length d < 256 ^ unat recsize" using assms(1) by (auto simp: kf_records_def)
  have n: "unat (of_nat (length d) + recsize :: u32) = length d + unat recsize"
    using assms(2,3) unat_of_nat_ulong [of "length d"] by (auto simp: unat_add_ulong)
  have "kfifo_in_rec f d (of_nat (length d)) recsize = Some (of_nat (length d) + 1, f)"
    if "unat (kfifo_avail f) < length d + unat recsize"
  proof -
    have "length d < 2 ^ 32 - 1" using assms(2,3) by auto
    then have "(of_nat (length d) + 1 :: u32) \<noteq> 0"
      using unat_of_nat_ulong [of "length d + 1"] by (metis Suc_eq_plus1 less_diff_conv of_nat_1 of_nat_add unat_0 nat.distinct(1))
    then show ?thesis using that n by (simp add: kfifo_in_rec_def kfifo_in_n_def word_less_nat_alt)
  qed
  moreover have "\<exists>f'. kfifo_in_rec f d (of_nat (length d)) recsize = Some (0, f') \<and> kf_records recsize f' (ds @ [d])"
    if "\<not> unat (kfifo_avail f) < length d + unat recsize"
    using kf_in_rec [OF ok assms(2), of d] that assms(1,3) by (auto simp: kf_records_def)
  moreover have "if unat n < length d0 then kfifo_out_rec f n recsize = Some (of_nat (length d0), of_nat (length d0), [], f)
      else \<exists>f'. kfifo_out_rec f n recsize = Some (0, of_nat (length d0), d0, f') \<and> kf_records recsize f' ds0"
    if ds: "ds = d0 # ds0" for d0 ds0 n
    using kf_out_rec [OF ok assms(2), of d0 "concat (map (rec_bytes recsize) ds0)" n] q len ds
    by (auto simp: kf_records_def split: if_splits)
  ultimately show ?thesis by auto
qed

theorem kfifo_record_roundtrip_witness:
  "\<exists>f'. kfifo_in_rec (kfifo_initializer 8 (replicate 8 0)) [5, 6] 2 1 = Some (0, f') \<and> kf_records 1 f' [[5, 6]]"
proof -
  let ?f = "kfifo_initializer 8 (replicate 8 0)"
  have "kf_records 1 ?f []"
    by (auto simp: kf_records_def kf_ok_def kfifo_initializer_def kfifo_len_def kf_queue_def intro!: exI [of _ 3])
  moreover have "\<not> unat (kfifo_avail ?f) < length [5 :: u8, 6] + unat (1 :: u32)"
    by (simp add: kfifo_initializer_def kfifo_avail_def kfifo_len_def)
  ultimately show ?thesis using kfifo_record_roundtrip [of 1 ?f "[]" "[5, 6]"] by simp
qed

text \<open>C29: \<^verbatim>\<open>kfifo_to_user\<close> removes exactly the bytes that reached the user, also when a copy faults in the middle,
  and reports their number; \<^verbatim>\<open>kfifo_from_user\<close> appends all the bytes or, on a fault, none.\<close>

theorem kfifo_user_copies:
  assumes ok: "kf_ok f" and u: "unat len \<le> length from"
    and out: "let n = min (unat (kfifo_len f)) (unat len); c = unat (kf_size f) - unat (kf_out f) mod unat (kf_size f)
      in unat ret1 \<le> min n c \<and> unat ret2 \<le> n - min n c"
    and inn: "let n = min (unat (kfifo_avail f)) (unat len); c = unat (kf_size f) - unat (kf_in f) mod unat (kf_size f)
      in unat ret3 \<le> min n c \<and> unat ret4 \<le> n - min n c"
  shows "(\<exists>r lenout to f'. kfifo_to_user ret1 ret2 f len = Some (r, lenout, to, f') \<and> kf_ok f'
      \<and> to = take (unat lenout) (kf_queue f) \<and> kf_queue f' = drop (unat lenout) (kf_queue f)
      \<and> r = (if ret1 = 0 \<and> ret2 = 0 then Inr () else Inl EFAULT)
      \<and> (ret1 = 0 \<and> ret2 = 0 \<longrightarrow> lenout = min (kfifo_len f) len))
    \<and> (\<exists>r tot f'. kfifo_from_user ret3 ret4 f from len = Some (r, tot, f') \<and> kf_ok f'
      \<and> (if ret3 = 0 \<and> ret4 = 0 then r = Inr () \<and> kf_queue f' = kf_queue f @ take (unat (min (kfifo_avail f) len)) from
         else r = Inl EFAULT \<and> kf_queue f' = kf_queue f))"
proof
  obtain b where b: "kf_buffer f = Some b" using ok by (auto elim: kf_okE)
  have m: "unat (min x y :: u32) = min (unat x) (unat y)" for x y by (auto simp: min_def word_le_nat_alt)
  let ?n = "min (kfifo_len f) len" and ?k = "min (kfifo_avail f) len"
  obtain lenout where lo: "kfifo_to_user_data ret1 ret2 f ?n 0
      = Some (if ret1 = 0 \<and> ret2 = 0 then Inr () else Inl EFAULT, lenout, take (unat lenout) (kf_queue f))"
    "unat lenout \<le> unat ?n" "ret1 = 0 \<and> ret2 = 0 \<longrightarrow> lenout = ?n"
    using kf_to_user_data [OF ok, of ?n ret1 ret2] out by (auto simp: m Let_def)
  then show "\<exists>r lenout to f'. kfifo_to_user ret1 ret2 f len = Some (r, lenout, to, f') \<and> kf_ok f'
      \<and> to = take (unat lenout) (kf_queue f) \<and> kf_queue f' = drop (unat lenout) (kf_queue f)
      \<and> r = (if ret1 = 0 \<and> ret2 = 0 then Inr () else Inl EFAULT) \<and> (ret1 = 0 \<and> ret2 = 0 \<longrightarrow> lenout = min (kfifo_len f) len)"
    using kf_drop [OF ok, of lenout] by (simp add: kfifo_to_user_def Let_def m)
  have k: "unat ?k \<le> length from" "unat (kfifo_len f) + unat (0 :: u32) + unat ?k \<le> unat (kf_size f)"
    using u kf_avail [OF ok] kf_len_le [OF ok] by (auto simp: m)
  obtain tot d where fu: "kfifo_from_user_data ret3 ret4 f from ?k 0
      = Some (if ret3 = 0 \<and> ret4 = 0 then Inr () else Inl EFAULT, tot, f\<lparr>kf_buffer := Some (ring_put b (unat (kf_in f)) d)\<rparr>)"
    "length d \<le> unat ?k" "ret3 = 0 \<and> ret4 = 0 \<longrightarrow> tot = ?k \<and> d = take (unat ?k) from"
    using kf_from_user_data [OF ok b k(2,1), of ret3 ret4] inn by (auto simp: m Let_def)
  have d: "unat (kfifo_len f) + unat (0 :: u32) + length d \<le> unat (kf_size f)" using fu(2) k(2) by linarith
  show "\<exists>r tot f'. kfifo_from_user ret3 ret4 f from len = Some (r, tot, f') \<and> kf_ok f'
      \<and> (if ret3 = 0 \<and> ret4 = 0 then r = Inr () \<and> kf_queue f' = kf_queue f @ take (unat (min (kfifo_avail f) len)) from
         else r = Inl EFAULT \<and> kf_queue f' = kf_queue f)"
  proof (cases "ret3 = 0 \<and> ret4 = 0")
    case True
    with fu have d': "d = take (unat ?k) from" "unat ?k = length d" using k(1) by simp_all
    have "kfifo_from_user ret3 ret4 f from len
        = Some (Inr (), tot, kfifo_add_in (f\<lparr>kf_buffer := Some (ring_put b (unat (kf_in f)) d)\<rparr>) ?k)"
      using fu(1) True by (simp add: kfifo_from_user_def Let_def)
    moreover have "unat (kfifo_len f) + length d \<le> unat (kf_size f)" using d by simp
    note kf_append [OF ok b this d'(2)]
    ultimately show ?thesis using True d'(1) by auto
  next
    case False
    then have "kfifo_from_user ret3 ret4 f from len
        = Some (Inl EFAULT, tot, f\<lparr>kf_buffer := Some (ring_put b (unat (kf_in f)) d)\<rparr>)"
      using fu(1) by (auto simp: kfifo_from_user_def Let_def)
    then show ?thesis using False kf_store_free [OF ok b d] by auto
  qed
qed

theorem kfifo_user_copies_witness:
  "\<exists>r lenout to f'. kfifo_to_user 0 1 sample_fifo 3 = Some (r, lenout, to, f')
    \<and> to = take (unat lenout) [1, 2, 3] \<and> kf_queue f' = drop (unat lenout) [1, 2, 3] \<and> r = Inl EFAULT"
  using kfifo_user_copies [OF sample_fifo_ok, of 3 "[7, 8, 9]" 0 1 0 0] sample_fifo_queue
  by (auto simp: sample_fifo_def kfifo_len_def Let_def)

text \<open>\<^verbatim>\<open>kfifo_alloc\<close> yields an empty FIFO whose size is the least power of two that holds the requested size,
  and on a failed allocation returns \<^verbatim>\<open>-ENOMEM\<close> and leaves an uninitialised FIFO of size 0.\<close>

theorem kfifo_alloc_correct:
  assumes "sz \<noteq> 0" "unat sz \<le> 2 ^ 31" "\<And>n b. kmalloc n = Some b \<Longrightarrow> length b = unat n"
  shows "\<exists>r f'. kfifo_alloc kmalloc sz f = Some (r, f') \<and>
    (case r of Inr _ \<Rightarrow> kf_ok f' \<and> kf_queue f' = [] \<and> unat sz \<le> unat (kf_size f') \<and> (\<forall>j. unat sz \<le> 2 ^ j \<longrightarrow> unat (kf_size f') \<le> 2 ^ j)
     | Inl e \<Rightarrow> e = ENOMEM \<and> \<not> kfifo_initialized f' \<and> kf_size f' = 0)"
proof -
  let ?s = "if is_power_of_2 sz then sz else roundup_pow_of_two sz"
  obtain k where k: "k < 32" "?s = 2 ^ k" "unat sz \<le> 2 ^ k" "\<And>j. unat sz \<le> 2 ^ j \<Longrightarrow> k \<le> j"
  proof (cases "is_power_of_2 sz")
    case True
    then obtain k where "k < 32" "sz = 2 ^ k" by (auto simp: is_power_of_2_iff)
    then show thesis using True that [of k] by (simp add: unat_pow2_ulong)
  next
    case False
    then show thesis using roundup_pow_of_two_correct [OF assms(1,2)] that by auto
  qed
  have nobug: "\<not> 0x80000000 < sz" using assms(2) by (simp add: word_less_nat_alt)
  show ?thesis
  proof (cases "kmalloc ?s")
    case None
    then show ?thesis using nobug by (simp add: kfifo_alloc_def kfifo_init0_def kfifo_reset_def kfifo_initialized_def Let_def)
  next
    case (Some b)
    let ?f = "kfifo_init0 (Some b) ?s f"
    have "length b = 2 ^ k" using assms(3) [OF Some] k unat_pow2_ulong [of k] by simp
    then have "kf_ok ?f" "kf_queue ?f = []" "kf_size ?f = 2 ^ k"
      using k by (auto simp: kf_ok_def kf_queue_def kfifo_init0_def kfifo_reset_def kfifo_len_def)
    moreover have "unat (2 ^ k :: u32) = 2 ^ k" using k(1) by (rule unat_pow2_ulong)
    moreover have "(2 :: nat) ^ k \<le> 2 ^ j" if "unat sz \<le> 2 ^ j" for j using k(4) [OF that] by simp
    ultimately show ?thesis using nobug Some k(3) by (simp add: kfifo_alloc_def Let_def)
  qed
qed

text \<open>C30: \<^verbatim>\<open>kfifo_from_user_rec\<close> stores no record: when every byte of a non-empty record was copied, the inner
  function returns the number of copied bytes where its caller expects 0, so the caller takes the success
  for a failure, reports that no byte could be copied, and leaves the queue as it was.\<close>

theorem kfifo_from_user_rec_loses_record:
  assumes "kf_ok f" "n \<noteq> 0" "unat n \<le> length from" "unat n + unat recsize \<le> unat (kfifo_avail f)"
  shows "\<exists>f'. kfifo_from_user_rec 0 0 f from n recsize = Some (n, f') \<and> kf_queue f' = kf_queue f"
proof -
  obtain b where b: "kf_buffer f = Some b" using assms(1) by (auto elim: kf_okE)
  have av: "unat (kfifo_len f) + unat recsize + unat n \<le> unat (kf_size f)"
    using assms(4) kf_avail [OF assms(1)] kf_len_le [OF assms(1)] by linarith
  then have sum: "unat (n + recsize) = unat n + unat recsize"
    using unat_ulong_lt [of "kf_size f"] by (simp add: unat_add_ulong)
  let ?f = "f\<lparr>kf_buffer := Some (ring_put b (unat (kf_in f + recsize)) (take (unat n) from))\<rparr>"
  have "kfifo_from_user_data 0 0 f from n recsize = Some (Inr (), n, ?f)"
    using kf_from_user_data [OF assms(1) b av assms(3), of 0 0] by auto
  then have "kfifo_from_user_rec 0 0 f from n recsize = Some (n, ?f)"
    using assms(2,4) sum by (simp add: kfifo_from_user_rec_def kfifo_from_user_n_def word_less_nat_alt)
  moreover have "kf_queue ?f = kf_queue f" using kf_store_free(2) [OF assms(1) b, of recsize "take (unat n) from"] av assms(3) by simp
  ultimately show ?thesis by blast
qed

theorem kfifo_from_user_rec_loses_record_witness:
  "\<exists>f'. kfifo_from_user_rec 0 0 sample_fifo [9, 9] 2 1 = Some (2, f') \<and> kf_queue f' = [1, 2, 3]"
  using kfifo_from_user_rec_loses_record [OF sample_fifo_ok, of 2 "[9, 9]" 1] sample_fifo_queue
  by (simp add: sample_fifo_def kfifo_avail_def kfifo_len_def)

text \<open>C31: \<^verbatim>\<open>kfifo_out_peek\<close> at a positive offset writes more than the \<open>len\<close> bytes that the destination holds, as soon as
  the FIFO holds more than \<open>len\<close> bytes.\<close>

theorem kfifo_out_peek_overruns:
  assumes "kf_ok f" "offset \<noteq> 0" "unat len + unat offset < 2 ^ 32" "unat len < unat (kfifo_len f)"
  shows "\<exists>n to. kfifo_out_peek f len offset = Some (n, to) \<and> unat len < length to"
proof -
  obtain b where b: "kf_buffer f = Some b" using assms(1) by (auto elim: kf_okE)
  let ?n = "min (kfifo_len f) (len + offset)"
  have m: "unat ?n = min (unat (kfifo_len f)) (unat len + unat offset)"
    using unat_add_ulong [OF assms(3)] by (auto simp: min_def word_le_nat_alt)
  have "0 < unat offset" using assms(2) by (simp add: unat_gt_0)
  then have "unat len < unat ?n" "unat ?n \<le> unat (kf_size f)" using m assms(4) kf_len_le [OF assms(1)] by auto
  then show ?thesis using kf_out_data [OF assms(1) b, of ?n offset] by (simp add: kfifo_out_peek_def Let_def)
qed

theorem kfifo_out_peek_overruns_witness:
  "\<exists>n to. kfifo_out_peek sample_fifo 1 2 = Some (n, to) \<and> 1 < length to"
  using kfifo_out_peek_overruns [OF sample_fifo_ok, of 2 1] by (simp add: sample_fifo_def kfifo_len_def)

end
