(* ===== verification/Kfifo_Conc.thy ===== *)
theory Kfifo_Conc
  imports Kfifo_Queue
begin

text \<open>
  One reader and one writer without a lock. \<^verbatim>\<open>kfifo_in\<close> and \<^verbatim>\<open>kfifo_out\<close> are cut into the steps that other
  code can observe: sampling the index of the other side, copying one byte, and publishing the own
  index. The memory barriers of the source make the order of these steps the order in which they are
  seen, so the two sides interleave step by step.
\<close>

unbundle bit_operations_syntax

section \<open>The two sides\<close>

text \<open>\<open>W_copy d i\<close>: the first \<open>i\<close> of the bytes \<open>d\<close> are copied. \<open>R_copy len ds\<close>: the bytes \<open>ds\<close> out of \<open>len\<close> are read.\<close>

datatype wpc = W_idle | W_copy "u8 list" nat
datatype rpc = R_idle | R_copy u32 "u8 list"

text \<open>\<open>sent\<close> and \<open>received\<close> are the bytes of all calls that have returned.\<close>

record spsc =
  sp_fifo :: kfifo
  sp_writer :: wpc
  sp_reader :: rpc
  sent :: "u8 list"
  received :: "u8 list"

text \<open>Where the copies put and take byte \<open>i\<close> of \<open>len\<close>, starting at index \<open>x\<close>.\<close>

definition copy_pos :: "kfifo \<Rightarrow> u32 \<Rightarrow> u32 \<Rightarrow> nat \<Rightarrow> nat" where
  "copy_pos f x len i =
    (let off = kfifo_off f x; l = min len (kf_size f - off)
     in if i < unat l then unat off + i else i - unat l)"

inductive spsc_step :: "spsc \<Rightarrow> spsc \<Rightarrow> bool" where
  w_start: "sp_writer s = W_idle \<Longrightarrow> length d < 2 ^ 32 \<Longrightarrow>
    spsc_step s (s\<lparr>sp_writer := W_copy (take (unat (min (kfifo_avail (sp_fifo s)) (of_nat (length d)))) d) 0\<rparr>)"
| w_byte: "sp_writer s = W_copy d i \<Longrightarrow> i < length d \<Longrightarrow> kf_buffer (sp_fifo s) = Some b \<Longrightarrow>
    spsc_step s (s\<lparr>sp_fifo := (sp_fifo s)\<lparr>kf_buffer := Some (b[copy_pos (sp_fifo s) (kf_in (sp_fifo s)) (of_nat (length d)) i := d ! i])\<rparr>,
      sp_writer := W_copy d (Suc i)\<rparr>)"
| w_done: "sp_writer s = W_copy d (length d) \<Longrightarrow>
    spsc_step s (s\<lparr>sp_fifo := kfifo_add_in (sp_fifo s) (of_nat (length d)), sp_writer := W_idle, sent := sent s @ d\<rparr>)"
| r_start: "sp_reader s = R_idle \<Longrightarrow>
    spsc_step s (s\<lparr>sp_reader := R_copy (min (kfifo_len (sp_fifo s)) n) []\<rparr>)"
| r_byte: "sp_reader s = R_copy len ds \<Longrightarrow> length ds < unat len \<Longrightarrow> kf_buffer (sp_fifo s) = Some b \<Longrightarrow>
    spsc_step s (s\<lparr>sp_reader := R_copy len (ds @ [b ! copy_pos (sp_fifo s) (kf_out (sp_fifo s)) len (length ds)])\<rparr>)"
| r_done: "sp_reader s = R_copy len ds \<Longrightarrow> length ds = unat len \<Longrightarrow>
    spsc_step s (s\<lparr>sp_fifo := kfifo_add_out (sp_fifo s) len, sp_reader := R_idle, received := received s @ ds\<rparr>)"

definition spsc_start :: "kfifo \<Rightarrow> spsc" where
  "spsc_start f = \<lparr>sp_fifo = f, sp_writer = W_idle, sp_reader = R_idle, sent = [], received = []\<rparr>"

section \<open>Invariant\<close>

text \<open>The bytes behind the queue that the writer has copied.\<close>

definition writer_ok :: "spsc \<Rightarrow> bool" where
  "writer_ok s = (case sp_writer s of W_idle \<Rightarrow> True
    | W_copy d i \<Rightarrow> i \<le> length d \<and> unat (kfifo_len (sp_fifo s)) + length d \<le> unat (kf_size (sp_fifo s))
        \<and> ring_get (kf_bytes (sp_fifo s)) (unat (kf_out (sp_fifo s)) + unat (kfifo_len (sp_fifo s))) i = take i d)"

definition reader_ok :: "spsc \<Rightarrow> bool" where
  "reader_ok s = (case sp_reader s of R_idle \<Rightarrow> True
    | R_copy len ds \<Rightarrow> unat len \<le> unat (kfifo_len (sp_fifo s)) \<and> length ds \<le> unat len
        \<and> ds = take (length ds) (kf_queue (sp_fifo s)))"

definition spsc_inv :: "spsc \<Rightarrow> bool" where
  "spsc_inv s \<longleftrightarrow> kf_ok (sp_fifo s) \<and> sent s = received s @ kf_queue (sp_fifo s) \<and> writer_ok s \<and> reader_ok s"

lemma copy_pos_mod:
  assumes "kf_ok f" "i < unat len" "unat len \<le> unat (kf_size f)"
  shows "copy_pos f x len i = (unat x + i) mod unat (kf_size f)"
proof -
  let ?N = "unat (kf_size f)" and ?o = "unat (kfifo_off f x)"
  have o: "?o = unat x mod ?N" "?o < ?N" using kf_off [OF assms(1)] kf_off_lt [OF assms(1)] by simp_all
  have "(unat x + i) mod ?N = (?o + i) mod ?N" unfolding o(1) by (simp add: mod_add_left_eq)
  also have "\<dots> = (if ?o + i < ?N then ?o + i else ?o + i - ?N)" using o(2) assms(2,3) by (intro ring_index) simp_all
  finally show ?thesis
    using kf_min [OF assms(1), of len x] assms(2,3) o(2) by (auto simp: copy_pos_def Let_def)
qed

lemma ring_put_one:
  fixes b :: "u8 list"
  assumes "b \<noteq> []"
  shows "b[p mod length b := x] = ring_put b p [x]"
proof -
  have p: "p mod length b < length b" using assms by simp
  have "memcpy_in b (p mod length b) [x] = Some (b[p mod length b := x])"
    using p by (simp add: memcpy_in_def upd_conv_take_nth_drop)
  with memcpy_in_ring [OF p, of "[x]"] p show ?thesis by (simp add: ring_put_mod)
qed

text \<open>Storing byte \<open>i\<close> of the data behind the queue.\<close>

lemma writer_byte:
  assumes ok: "kf_ok f" and b: "kf_buffer f = Some b" and i: "i < length d" and fit: "unat (kfifo_len f) + length d \<le> unat (kf_size f)"
    and copied: "ring_get b (unat (kf_out f) + unat (kfifo_len f)) i = take i d"
  defines "f' \<equiv> f\<lparr>kf_buffer := Some (b[copy_pos f (kf_in f) (of_nat (length d)) i := d ! i])\<rparr>"
  shows "kf_ok f' \<and> kf_queue f' = kf_queue f \<and> kfifo_len f' = kfifo_len f
    \<and> ring_get (kf_bytes f') (unat (kf_out f) + unat (kfifo_len f)) (Suc i) = take (Suc i) d"
proof -
  let ?p = "unat (kf_out f) + unat (kfifo_len f)"
  have n: "length b = unat (kf_size f)" using ok b by (auto elim: kf_okE)
  then have ne: "b \<noteq> []" using fit i by auto
  have "length d < 2 ^ 32" using fit unat_ulong_lt [of "kf_size f"] by linarith
  then have l: "unat (of_nat (length d) :: u32) = length d" by (rule unat_of_nat_ulong)
  have "copy_pos f (kf_in f) (of_nat (length d)) i = (unat (kf_in f) + i) mod length b"
    using copy_pos_mod [OF ok, of i "of_nat (length d)"] l i fit n by simp
  also have "\<dots> = (?p + i) mod length b"
    using kf_pos(2) [OF ok b, of 0] by (intro mod_add_cong) simp_all
  finally have upd: "f' = f\<lparr>kf_buffer := Some (ring_put b (?p + i) [d ! i])\<rparr>" unfolding f'_def by (simp add: ring_put_one [OF ne])
  have len: "kfifo_len f' = kfifo_len f" by (simp add: f'_def kfifo_len_def)
  have "kf_queue f' = kf_queue f"
    using ring_get_put_other [of "unat (kfifo_len f)" i "[d ! i]" b "unat (kf_out f)"] i fit n b len
    by (simp add: kf_queue_def) (simp add: upd)
  moreover have "ring_get (kf_bytes f') ?p (Suc i) = take (Suc i) d"
    using ring_get_put [of i "[d ! i]" b ?p] i fit n copied by (simp add: upd take_Suc_conv_app_nth)
  moreover have "kf_ok f'" using ok b by (auto simp: kf_ok_def f'_def kfifo_len_def)
  ultimately show ?thesis using len by simp
qed

lemma spsc_step_inv: "spsc_step s s' \<Longrightarrow> spsc_inv s \<Longrightarrow> spsc_inv s'"
proof (induction rule: spsc_step.induct)
  case (w_start s d)
  let ?f = "sp_fifo s"
  have ok: "kf_ok ?f" using w_start.prems by (simp add: spsc_inv_def)
  have "unat (min (kfifo_avail ?f) (of_nat (length d))) \<le> unat (kfifo_avail ?f)"
    by (simp add: min_def word_le_nat_alt)
  then have "unat (kfifo_len ?f) + length (take (unat (min (kfifo_avail ?f) (of_nat (length d)))) d) \<le> unat (kf_size ?f)"
    using kf_avail [OF ok] kf_len_le [OF ok] by simp
  with w_start show ?case by (simp add: spsc_inv_def writer_ok_def reader_ok_def split: rpc.splits wpc.splits)
next
  case (w_byte s d i b)
  have ok: "kf_ok (sp_fifo s)" using w_byte.prems by (simp add: spsc_inv_def)
  from w_byte writer_byte [OF ok w_byte.hyps(3,2)] show ?case
    by (simp add: spsc_inv_def writer_ok_def reader_ok_def Suc_le_eq split: rpc.splits wpc.splits)
next
  case (w_done s d)
  let ?f = "sp_fifo s" and ?f' = "kfifo_add_in (sp_fifo s) (of_nat (length d))"
  have ok: "kf_ok ?f" and w: "unat (kfifo_len ?f) + length d \<le> unat (kf_size ?f)"
    and wd: "ring_get (kf_bytes ?f) (unat (kf_out ?f) + unat (kfifo_len ?f)) (length d) = d"
    using w_done by (auto simp: spsc_inv_def writer_ok_def)
  have "length d < 2 ^ 32" using w unat_ulong_lt [of "kf_size ?f"] by linarith
  then have l: "unat (of_nat (length d) :: u32) = length d" by (rule unat_of_nat_ulong)
  have "kfifo_len ?f' = kfifo_len ?f + of_nat (length d)" by (simp add: kfifo_len_def kfifo_add_in_def)
  then have len: "unat (kfifo_len ?f') = unat (kfifo_len ?f) + length d"
    using l w unat_ulong_lt [of "kf_size ?f"] by (simp add: unat_add_ulong)
  have q: "kf_queue ?f' = kf_queue ?f @ d"
    unfolding kf_queue_def len ring_get_add using wd by (simp add: kfifo_add_in_def)
  have "kf_ok ?f'" using ok len w by (auto simp: kf_ok_def) (auto simp: kfifo_add_in_def)
  with w_done q len show ?case by (auto simp: spsc_inv_def writer_ok_def reader_ok_def split: rpc.splits)
next
  case (r_start s n)
  have "unat (min (kfifo_len (sp_fifo s)) n) \<le> unat (kfifo_len (sp_fifo s))" by (simp add: min_def word_le_nat_alt)
  with r_start show ?case by (simp add: spsc_inv_def writer_ok_def reader_ok_def split: rpc.splits wpc.splits)
next
  case (r_byte s len ds b)
  let ?f = "sp_fifo s"
  have ok: "kf_ok ?f" and r: "unat len \<le> unat (kfifo_len ?f)" "ds = take (length ds) (kf_queue ?f)"
    using r_byte by (auto simp: spsc_inv_def reader_ok_def)
  have n: "length b = unat (kf_size ?f)" using ok r_byte.hyps(3) by (auto elim: kf_okE)
  have "copy_pos ?f (kf_out ?f) len (length ds) = (unat (kf_out ?f) + length ds) mod length b"
    using copy_pos_mod [OF ok r_byte.hyps(2)] r(1) kf_len_le [OF ok] n by simp
  then have "b ! copy_pos ?f (kf_out ?f) len (length ds) = kf_queue ?f ! length ds"
    using r_byte.hyps r(1) by (simp add: kf_queue_def ring_get_def)
  then have "ds @ [b ! copy_pos ?f (kf_out ?f) len (length ds)] = take (Suc (length ds)) (kf_queue ?f)"
    using r r_byte.hyps(2) by (simp add: take_Suc_conv_app_nth)
  with r_byte show ?case by (auto simp: spsc_inv_def writer_ok_def reader_ok_def split: wpc.splits)
next
  case (r_done s len ds)
  let ?f = "sp_fifo s" and ?f' = "kfifo_add_out (sp_fifo s) len"
  have ok: "kf_ok ?f" and r: "unat len \<le> unat (kfifo_len ?f)" "ds = take (unat len) (kf_queue ?f)"
    using r_done by (auto simp: spsc_inv_def reader_ok_def)
  obtain b where b: "kf_buffer ?f = Some b" using ok by (auto elim: kf_okE)
  have len: "unat (kfifo_len ?f') = unat (kfifo_len ?f) - unat len"
    using kf_drop(2) [OF ok r(1)] r(1) by (metis length_drop length_kf_queue)
  have "ring_get b (unat (kf_out ?f + len) + (unat (kfifo_len ?f) - unat len)) i
      = ring_get b (unat (kf_out ?f) + unat (kfifo_len ?f)) i" for i
  proof -
    have "(unat (kf_out ?f + len) + (unat (kfifo_len ?f) - unat len)) mod length b
        = (unat (kf_out ?f) + unat len + (unat (kfifo_len ?f) - unat len)) mod length b"
      using kf_pos(1) [OF ok b, of len] by (intro mod_add_cong) simp_all
    also have "unat (kf_out ?f) + unat len + (unat (kfifo_len ?f) - unat len) = unat (kf_out ?f) + unat (kfifo_len ?f)" using r(1) by simp
    finally show ?thesis by (metis ring_get_mod)
  qed
  then have "writer_ok (s\<lparr>sp_fifo := ?f', sp_reader := R_idle, received := received s @ ds\<rparr>)"
    using r_done len r(1) b by (auto simp: spsc_inv_def writer_ok_def split: wpc.splits) (auto simp: kfifo_add_out_def)
  then show ?case using r_done kf_drop [OF ok r(1)] r(2) by (simp add: spsc_inv_def reader_ok_def)
qed

interpretation spsc: invariant_system spsc_step "\<lambda>s. \<exists>f. s = spsc_start f \<and> kf_ok f \<and> kf_queue f = []" spsc_inv
  by unfold_locales (fastforce simp: spsc_inv_def spsc_start_def writer_ok_def reader_ok_def, rule spsc_step_inv)

lemma spsc_reachable_inv:
  assumes "spsc_step\<^sup>*\<^sup>* (spsc_start f) s" "kf_ok f" "kf_queue f = []"
  shows "spsc_inv s"
  using assms by (blast intro: spsc.reachable_inv)

section \<open>Properties\<close>

text \<open>C7: With one reader and one writer no lock is needed: in every interleaving of the steps of \<^verbatim>\<open>kfifo_in\<close> and
  \<^verbatim>\<open>kfifo_out\<close>, byte copies included, the bytes that completed reads delivered followed by the bytes in the
  queue are the bytes of the completed writes, in order, and the queue never exceeds the buffer.\<close>

theorem kfifo_lock_free_safe:
  assumes "spsc_step\<^sup>*\<^sup>* (spsc_start f) s" "kf_ok f" "kf_queue f = []"
  shows "sent s = received s @ kf_queue (sp_fifo s) \<and> kf_ok (sp_fifo s)
    \<and> length (sent s) - length (received s) \<le> unat (kf_size (sp_fifo s))"
  using spsc_reachable_inv [OF assms] kf_len_le by (auto simp: spsc_inv_def)

theorem kfifo_lock_free_safe_witness:
  "\<exists>s. spsc_step\<^sup>*\<^sup>* (spsc_start (kfifo_initializer 1 [0])) s \<and> sp_writer s = W_copy [5] 0 \<and> sent s = received s @ kf_queue (sp_fifo s)"
proof -
  let ?f = "kfifo_initializer 1 [0]"
  let ?s = "(spsc_start ?f)\<lparr>sp_writer := W_copy (take (unat (min (kfifo_avail ?f) (of_nat (length [5 :: u8])))) [5]) 0\<rparr>"
  have "spsc_step (spsc_start ?f) ?s"
    using w_start [of "spsc_start ?f" "[5]"] by (simp add: spsc_start_def)
  moreover have "kf_ok ?f" "kf_queue ?f = []"
    by (auto simp: kf_ok_def kfifo_initializer_def kfifo_len_def kf_queue_def intro!: exI [of _ 0])
  moreover have "sp_writer ?s = W_copy [5] 0" by (simp add: kfifo_initializer_def kfifo_avail_def kfifo_len_def)
  ultimately show ?thesis using kfifo_lock_free_safe [of ?f ?s] by (metis r_into_rtranclp)
qed

end
