(* ===== verification/Logger.thy ===== *)
theory Logger
  imports Byte_Buffer
begin

text \<open>
  The Android log of \<^verbatim>\<open>drivers/staging/android/logger.c\<close>: a ring buffer of entries, each a header of
  20 bytes and its payload, with any number of readers. A writer that laps readers pulls them forward
  to the first entry behind the part it overwrites. Each region under \<^verbatim>\<open>log->mutex\<close> is one operation.
  \<open>None\<close> is an access outside the buffer, or a loop that does not return.
\<close>

unbundle bit_operations_syntax

section \<open>State\<close>

text \<open>The readers are the list \<^verbatim>\<open>log->readers\<close>, each with its identity and its offset \<^verbatim>\<open>r_off\<close>.\<close>

record logger_log =
  lg_buffer :: "u8 list"
  lg_readers :: "(nat \<times> u32) list"
  lg_w_off :: u32
  lg_head :: u32
  lg_size :: u32

record logger_entry =
  le_len :: "16 word"
  le_pad :: "16 word"
  le_pid :: u32
  le_tid :: u32
  le_sec :: u32
  le_nsec :: u32

text \<open>The bytes of a header in memory, low byte first.\<close>

definition le16 :: "16 word \<Rightarrow> u8 list" where
  "le16 w = [ucast w, ucast (drop_bit 8 w)]"

definition le32 :: "u32 \<Rightarrow> u8 list" where
  "le32 w = [ucast w, ucast (drop_bit 8 w), ucast (drop_bit 16 w), ucast (drop_bit 24 w)]"

definition header_bytes :: "logger_entry \<Rightarrow> u8 list" where
  "header_bytes h = le16 (le_len h) @ le16 (le_pad h) @ le32 (le_pid h) @ le32 (le_tid h) @ le32 (le_sec h) @ le32 (le_nsec h)"

definition LOGGER_ENTRY_MAX_LEN :: u32 where "LOGGER_ENTRY_MAX_LEN = 4 * 1024"

definition sizeof_logger_entry :: u32 where "sizeof_logger_entry = 20"

definition LOGGER_ENTRY_MAX_PAYLOAD :: u32 where
  "LOGGER_ENTRY_MAX_PAYLOAD = LOGGER_ENTRY_MAX_LEN - sizeof_logger_entry"

definition logger_offset :: "logger_log \<Rightarrow> u32 \<Rightarrow> u32" where
  "logger_offset log n = n AND (lg_size log - 1)"

definition define_logger_device :: "u8 list \<Rightarrow> u32 \<Rightarrow> logger_log" where
  "define_logger_device buf sz = \<lparr>lg_buffer = buf, lg_readers = [], lg_w_off = 0, lg_head = 0, lg_size = sz\<rparr>"

section \<open>Reading\<close>

definition get_entry_len :: "logger_log \<Rightarrow> u32 \<Rightarrow> u32 option" where
  "get_entry_len log off = do {
    val \<leftarrow> (if lg_size log - off = 1 then do {
        b0 \<leftarrow> memcpy_out (lg_buffer log) (unat off) 1;
        b1 \<leftarrow> memcpy_out (lg_buffer log) 0 1;
        Some (b0 @ b1) }
      else memcpy_out (lg_buffer log) (unat off) 2);
    Some (sizeof_logger_entry + (ucast (val ! 0) OR push_bit 8 (ucast (val ! 1)))) }"

definition set_r_off :: "nat \<Rightarrow> u32 \<Rightarrow> logger_log \<Rightarrow> logger_log" where
  "set_r_off r off log = log\<lparr>lg_readers := map (\<lambda>(r', off'). (r', if r' = r then off else off')) (lg_readers log)\<rparr>"

text \<open>\<open>ret1\<close> and \<open>ret2\<close> are the numbers of bytes that the user copies fail to copy.\<close>

definition do_read_log_to_user :: "u32 \<Rightarrow> u32 \<Rightarrow> logger_log \<Rightarrow> nat \<times> u32 \<Rightarrow> u32 \<Rightarrow> (u32 kresult \<times> u8 list \<times> logger_log) option" where
  "do_read_log_to_user ret1 ret2 log reader count = do {
    let len = min count (lg_size log - snd reader);
    d1 \<leftarrow> copy_to_user (lg_buffer log) (unat (snd reader)) (unat len) (unat ret1);
    if ret1 \<noteq> 0 then Some (Inl EFAULT, d1, log)
    else do {
      d2 \<leftarrow> (if count \<noteq> len then copy_to_user (lg_buffer log) 0 (unat (count - len)) (unat ret2) else Some []);
      if count \<noteq> len \<and> ret2 \<noteq> 0 then Some (Inl EFAULT, d1 @ d2, log)
      else Some (Inr count, d1 @ d2, set_r_off (fst reader) (logger_offset log (snd reader + count)) log) } }"

text \<open>
  The two critical sections of \<^verbatim>\<open>logger_read\<close>. The first decides whether to go on, to return an error, or to
  sleep (\<open>None\<close>); the second reads one entry, or starts over (\<open>Some None\<close>) when the writer came between.
\<close>

definition logger_read_wait :: "bool \<Rightarrow> bool \<Rightarrow> logger_log \<Rightarrow> nat \<times> u32 \<Rightarrow> unit kresult option" where
  "logger_read_wait nonblock signal log reader =
    (if lg_w_off log \<noteq> snd reader then Some (Inr ())
     else if nonblock then Some (Inl EAGAIN)
     else if signal then Some (Inl EINTR)
     else None)"

definition logger_read_entry :: "u32 \<Rightarrow> u32 \<Rightarrow> logger_log \<Rightarrow> nat \<times> u32 \<Rightarrow> u32 \<Rightarrow> (u32 kresult \<times> u8 list \<times> logger_log) option option" where
  "logger_read_entry ret1 ret2 log reader count =
    (if lg_w_off log = snd reader then Some None
     else do {
       ret \<leftarrow> get_entry_len log (snd reader);
       if count < ret then Some (Some (Inl EINVAL, [], log))
       else map_option Some (do_read_log_to_user ret1 ret2 log reader ret) })"

section \<open>Writing\<close>

partial_function (option) get_next_loop :: "logger_log \<Rightarrow> u32 \<Rightarrow> u32 \<Rightarrow> u32 \<Rightarrow> u32 option" where
  "get_next_loop log off len count = do {
    nr \<leftarrow> get_entry_len log off;
    let off = logger_offset log (off + nr);
    let count = count + nr;
    if count < len then get_next_loop log off len count else Some off }"

definition get_next_entry :: "logger_log \<Rightarrow> u32 \<Rightarrow> u32 \<Rightarrow> u32 option" where
  "get_next_entry log off len = get_next_loop log off len 0"

definition clock_interval :: "u32 \<Rightarrow> u32 \<Rightarrow> u32 \<Rightarrow> bool" where
  "clock_interval a b c = (if b < a then a < c \<or> c \<le> b else a < c \<and> c \<le> b)"

definition fix_up_offset :: "logger_log \<Rightarrow> u32 \<Rightarrow> u32 \<Rightarrow> u32 option" where
  "fix_up_offset log len off =
    (let old = lg_w_off log; new = logger_offset log (old + len)
     in if clock_interval old new off then get_next_entry log off len else Some off)"

primrec fix_up_list :: "logger_log \<Rightarrow> u32 \<Rightarrow> (nat \<times> u32) list \<Rightarrow> (nat \<times> u32) list option" where
  "fix_up_list log len [] = Some []"
| "fix_up_list log len (r # rs) = do {
     off \<leftarrow> fix_up_offset log len (snd r);
     rs \<leftarrow> fix_up_list log len rs;
     Some ((fst r, off) # rs) }"

definition fix_up_readers :: "logger_log \<Rightarrow> u32 \<Rightarrow> logger_log option" where
  "fix_up_readers log len = do {
    hd \<leftarrow> fix_up_offset log len (lg_head log);
    rs \<leftarrow> fix_up_list log len (lg_readers log);
    Some (log\<lparr>lg_head := hd, lg_readers := rs\<rparr>) }"

definition do_write_log :: "logger_log \<Rightarrow> u8 list \<Rightarrow> u32 \<Rightarrow> logger_log option" where
  "do_write_log log buf count = do {
    let len = min count (lg_size log - lg_w_off log);
    d1 \<leftarrow> memcpy_out buf 0 (unat len);
    b \<leftarrow> memcpy_in (lg_buffer log) (unat (lg_w_off log)) d1;
    b \<leftarrow> (if count \<noteq> len then do {
           d2 \<leftarrow> memcpy_out buf (unat len) (unat (count - len));
           memcpy_in b 0 d2 }
         else Some b);
    Some (log\<lparr>lg_buffer := b, lg_w_off := logger_offset log (lg_w_off log + count)\<rparr>) }"

definition do_write_log_from_user :: "u32 \<Rightarrow> u32 \<Rightarrow> logger_log \<Rightarrow> u8 list \<Rightarrow> u32 \<Rightarrow> (u32 kresult \<times> logger_log) option" where
  "do_write_log_from_user ret1 ret2 log buf count = do {
    let len = min count (lg_size log - lg_w_off log);
    b \<leftarrow> (if len \<noteq> 0 then copy_from_user (lg_buffer log) (unat (lg_w_off log)) buf 0 (unat len) (unat ret1)
         else Some (lg_buffer log));
    if len \<noteq> 0 \<and> ret1 \<noteq> 0 then Some (Inl EFAULT, log\<lparr>lg_buffer := b\<rparr>)
    else do {
      b \<leftarrow> (if count \<noteq> len then copy_from_user b 0 buf (unat len) (unat (count - len)) (unat ret2) else Some b);
      if count \<noteq> len \<and> ret2 \<noteq> 0 then Some (Inl EFAULT, log\<lparr>lg_buffer := b\<rparr>)
      else Some (Inr count, log\<lparr>lg_buffer := b, lg_w_off := logger_offset log (lg_w_off log + count)\<rparr>) } }"

text \<open>A segment of the user's vector: its bytes and the failures of the copies that read it.\<close>

type_synonym iovec = "u8 list \<times> u32 \<times> u32"

primrec write_segs :: "u32 \<Rightarrow> iovec list \<Rightarrow> u32 \<Rightarrow> logger_log \<Rightarrow> (u32 kresult \<times> logger_log) option" where
  "write_segs hlen [] ret log = Some (Inr ret, log)"
| "write_segs hlen (seg # segs) ret log = (case seg of (d, ret1, ret2) \<Rightarrow> do {
     let len = min (of_nat (length d)) (hlen - ret);
     (nr, log) \<leftarrow> do_write_log_from_user ret1 ret2 log d len;
     case nr of Inl e \<Rightarrow> Some (Inl e, log) | Inr nr \<Rightarrow> write_segs hlen segs (ret + nr) log })"

text \<open>
  \<open>orig\<close> is the value of \<^verbatim>\<open>log->w_off\<close> that is read before the mutex is taken; \<open>h\<close> holds the process and
  time of the call and the padding, which is never assigned; \<open>ki_left\<close> is the length of the request.
\<close>

definition logger_aio_write :: "u32 \<Rightarrow> logger_entry \<Rightarrow> u32 \<Rightarrow> iovec list \<Rightarrow> logger_log \<Rightarrow> (u32 kresult \<times> logger_log) option" where
  "logger_aio_write orig h ki_left segs log =
    (let hlen = min ki_left LOGGER_ENTRY_MAX_PAYLOAD; h = h\<lparr>le_len := ucast hlen\<rparr>
     in if hlen = 0 then Some (Inr 0, log)
     else do {
       log \<leftarrow> fix_up_readers log (sizeof_logger_entry + hlen);
       log \<leftarrow> do_write_log log (header_bytes h) sizeof_logger_entry;
       (ret, log) \<leftarrow> write_segs hlen segs 0 log;
       Some (case ret of Inl e \<Rightarrow> (Inl e, log\<lparr>lg_w_off := orig\<rparr>) | Inr n \<Rightarrow> (Inr n, log)) })"

section \<open>Opening, polling, control\<close>

text \<open>\<open>nonseek\<close>: the result of \<^verbatim>\<open>nonseekable_open\<close>; \<open>found\<close>: the minor number is that of a log; \<open>reader\<close>: \<open>None\<close> for a write-only file, \<open>Some None\<close> for a failed
  allocation, otherwise the new reader.\<close>

definition logger_open :: "unit kresult \<Rightarrow> bool \<Rightarrow> nat option option \<Rightarrow> logger_log \<Rightarrow> unit kresult \<times> logger_log" where
  "logger_open nonseek found reader log =
    (case nonseek of Inl e \<Rightarrow> (Inl e, log)
     | Inr _ \<Rightarrow> if \<not> found then (Inl ENODEV, log) else (case reader of None \<Rightarrow> (Inr (), log)
        | Some None \<Rightarrow> (Inl ENOMEM, log)
        | Some (Some r) \<Rightarrow> (Inr (), log\<lparr>lg_readers := lg_readers log @ [(r, lg_head log)]\<rparr>)))"

definition logger_release :: "nat option \<Rightarrow> logger_log \<Rightarrow> logger_log" where
  "logger_release reader log =
    (case reader of None \<Rightarrow> log | Some r \<Rightarrow> log\<lparr>lg_readers := filter (\<lambda>(r', _). r' \<noteq> r) (lg_readers log)\<rparr>)"

definition POLLIN :: u32 where "POLLIN = 0x0001"
definition POLLOUT :: u32 where "POLLOUT = 0x0004"
definition POLLRDNORM :: u32 where "POLLRDNORM = 0x0040"
definition POLLWRNORM :: u32 where "POLLWRNORM = 0x0100"

definition logger_poll :: "logger_log \<Rightarrow> (nat \<times> u32) option \<Rightarrow> u32" where
  "logger_poll log reader =
    (let ret = POLLOUT OR POLLWRNORM
     in case reader of None \<Rightarrow> ret | Some r \<Rightarrow> if lg_w_off log \<noteq> snd r then ret OR POLLIN OR POLLRDNORM else ret)"

datatype logger_cmd =
  LOGGER_GET_LOG_BUF_SIZE | LOGGER_GET_LOG_LEN | LOGGER_GET_NEXT_ENTRY_LEN | LOGGER_FLUSH_LOG | LOGGER_OTHER

definition logger_ioctl :: "logger_cmd \<Rightarrow> bool \<Rightarrow> (nat \<times> u32) option \<Rightarrow> logger_log \<Rightarrow> (u32 kresult \<times> logger_log) option" where
  "logger_ioctl cmd writable reader log =
    (case cmd of
       LOGGER_GET_LOG_BUF_SIZE \<Rightarrow> Some (Inr (lg_size log), log)
     | LOGGER_GET_LOG_LEN \<Rightarrow>
         (case reader of None \<Rightarrow> Some (Inl EBADF, log)
          | Some r \<Rightarrow> Some (Inr (if snd r \<le> lg_w_off log then lg_w_off log - snd r
                                  else (lg_size log - snd r) + lg_w_off log), log))
     | LOGGER_GET_NEXT_ENTRY_LEN \<Rightarrow>
         (case reader of None \<Rightarrow> Some (Inl EBADF, log)
          | Some r \<Rightarrow> if lg_w_off log \<noteq> snd r then do { n \<leftarrow> get_entry_len log (snd r); Some (Inr n, log) }
                      else Some (Inr 0, log))
     | LOGGER_FLUSH_LOG \<Rightarrow>
         if \<not> writable then Some (Inl EBADF, log)
         else Some (Inr 0, log\<lparr>lg_readers := map (\<lambda>(r, _). (r, lg_w_off log)) (lg_readers log), lg_head := lg_w_off log\<rparr>)
     | LOGGER_OTHER \<Rightarrow> Some (Inl ENOTTY, log))"

end
