(* ===== verification/Logger_Inv.thy ===== *)
theory Logger_Inv
  imports Logger "HOL-Library.Sublist"
begin

text \<open>
  The log as a sequence of entries: what a reader at an offset still has to read, that the writer
  leaves every reader at an entry boundary, and what each operation does to the pending entries.
\<close>

unbundle bit_operations_syntax

section \<open>Entries\<close>

definition entry_ok :: "u8 list \<Rightarrow> bool" where
  "entry_ok e \<longleftrightarrow> 20 \<le> length e \<and> length e \<le> 4096
     \<and> (20 + (ucast (e ! 0) OR push_bit 8 (ucast (e ! 1))) :: u32) = of_nat (length e)"

definition log_ok :: "logger_log \<Rightarrow> bool" where
  "log_ok log \<longleftrightarrow> (\<exists>k. 13 \<le> k \<and> k < 32 \<and> lg_size log = 2 ^ k \<and> length (lg_buffer log) = 2 ^ k)
     \<and> unat (lg_w_off log) < length (lg_buffer log)"

text \<open>A reader at \<open>off\<close> has the entries \<open>es\<close> in front of it.\<close>

definition pending :: "logger_log \<Rightarrow> u32 \<Rightarrow> u8 list list \<Rightarrow> bool" where
  "pending log off es \<longleftrightarrow> unat off < length (lg_buffer log) \<and> list_all entry_ok es
     \<and> length (concat es) < length (lg_buffer log)
     \<and> ring_get (lg_buffer log) (unat off) (length (concat es)) = concat es
     \<and> (unat off + length (concat es)) mod length (lg_buffer log) = unat (lg_w_off log)"

lemma log_okE:
  assumes "log_ok log"
  obtains k where "13 \<le> k" "k < 32" "lg_size log = 2 ^ k" "unat (lg_size log) = length (lg_buffer log)"
    "length (lg_buffer log) = 2 ^ k" "8192 \<le> length (lg_buffer log)" "unat (lg_w_off log) < length (lg_buffer log)"
proof -
  obtain k where k: "13 \<le> k" "k < 32" "lg_size log = 2 ^ k" "length (lg_buffer log) = 2 ^ k"
    and w: "unat (lg_w_off log) < length (lg_buffer log)" using assms by (auto simp: log_ok_def)
  have "(2 :: nat) ^ 13 \<le> 2 ^ k" using k(1) by (intro power_increasing) simp_all
  then have "8192 \<le> length (lg_buffer log)" using k(4) by simp
  with k w show thesis using that by (simp add: unat_pow2_ulong)
qed

lemma nth_ring_get: "i < n \<Longrightarrow> ring_get b p n ! i = b ! ((p + i) mod length b)"
  by (simp add: ring_get_def)

lemma logger_offset_unat: "log_ok log \<Longrightarrow> unat (logger_offset log n) = unat n mod length (lg_buffer log)"
  by (elim log_okE) (simp add: logger_offset_def unat_and_pred_pow2)

lemma logger_offset_add:
  "log_ok log \<Longrightarrow> unat (logger_offset log (a + b)) = (unat a + unat b) mod length (lg_buffer log)"
  by (simp add: logger_offset_unat) (elim log_okE, simp add: unat_add_mod_pow2)

lemma get_entry_len_eq:
  assumes "log_ok log" "unat off < length (lg_buffer log)" "entry_ok e"
    "ring_get (lg_buffer log) (unat off) (length e) = e"
  shows "get_entry_len log off = Some (of_nat (length e))"
proof -
  let ?b = "lg_buffer log" and ?N = "length (lg_buffer log)"
  have N: "8192 \<le> ?N" "unat (lg_size log) = ?N" using assms(1) by (auto elim: log_okE)
  have e: "e ! 0 = ?b ! (unat off mod ?N)" "e ! 1 = ?b ! ((unat off + 1) mod ?N)"
  proof -
    have "0 < length e" "1 < length e" using assms(3) by (auto simp: entry_ok_def)
    from nth_ring_get [OF this(1), of ?b "unat off"] nth_ring_get [OF this(2), of ?b "unat off"]
    show "e ! 0 = ?b ! (unat off mod ?N)" "e ! 1 = ?b ! ((unat off + 1) mod ?N)" unfolding assms(4) by simp_all
  qed
  have one: "lg_size log - off = 1 \<longleftrightarrow> unat off + 1 = ?N"
  proof -
    have "unat (lg_size log - off) = ?N - unat off" using N assms(2) by (simp add: unat_sub_if')
    moreover have "lg_size log - off = 1 \<longleftrightarrow> unat (lg_size log - off) = 1" by (metis unat_1 word_unat_eq_iff)
    ultimately show ?thesis using assms(2) by auto
  qed
  have len: "(20 + (ucast (e ! 0) OR push_bit 8 (ucast (e ! 1))) :: u32) = of_nat (length e)" using assms(3) by (simp add: entry_ok_def)
  show ?thesis
  proof (cases "unat off + 1 = ?N")
    case True
    then have "(unat off + 1) mod ?N = 0" by simp
    moreover have "take 1 (drop (unat off) ?b) = [?b ! unat off]" using assms(2) by (simp add: take_Suc_conv_app_nth)
    moreover have "take 1 ?b = [?b ! 0]" using N by (cases ?b) simp_all
    ultimately show ?thesis using True one len e assms(2) N
      by (simp add: get_entry_len_def sizeof_logger_entry_def)
  next
    case False
    then have "(unat off + 1) mod ?N = unat off + 1" using assms(2) by simp
    then show ?thesis using False one len e assms(2) by (simp add: get_entry_len_def sizeof_logger_entry_def)
  qed
qed

section \<open>Pulling readers forward\<close>

lemma get_next_loop_correct:
  assumes "log_ok log" "unat off < length (lg_buffer log)" "list_all entry_ok es"
    "ring_get (lg_buffer log) (unat off) (length (concat es)) = concat es"
    "unat count < unat len" "unat len \<le> unat count + length (concat es)" "unat len \<le> 4096"
  shows "\<exists>off' es1 es2. es = es1 @ es2 \<and> get_next_loop log off len count = Some off'
    \<and> unat off' = (unat off + length (concat es1)) mod length (lg_buffer log)
    \<and> unat len \<le> unat count + length (concat es1)"
  using assms
proof (induction es arbitrary: off count)
  case Nil
  then show ?case by simp
next
  case (Cons e es)
  let ?b = "lg_buffer log" and ?N = "length (lg_buffer log)"
  have e: "entry_ok e" "length e \<le> 4096" using Cons.prems by (simp_all add: entry_ok_def)
  have g: "ring_get ?b (unat off) (length e) = e" "ring_get ?b (unat off + length e) (length (concat es)) = concat es"
    using Cons.prems(4) by (simp_all add: ring_get_add)
  have nr: "get_entry_len log off = Some (of_nat (length e))"
    by (rule get_entry_len_eq [OF Cons.prems(1,2) e(1) g(1)])
  have l: "unat (of_nat (length e) :: u32) = length e" using e(2) by (intro unat_of_nat_ulong) simp
  let ?off = "logger_offset log (off + of_nat (length e))" and ?c = "count + of_nat (length e)"
  have off: "unat ?off = (unat off + length e) mod ?N" using logger_offset_add [OF Cons.prems(1)] l by simp
  have "unat count + length e < 2 ^ 32" using Cons.prems(5,7) e(2) by simp
  then have c: "unat ?c = unat count + length e" using l by (simp add: unat_add_ulong)
  show ?case
  proof (cases "?c < len")
    case False
    then have "get_next_loop log off len count = Some ?off" using nr by (subst get_next_loop.simps) simp
    with off c False show ?thesis
      by (intro exI [of _ ?off] exI [of _ "[e]"] exI [of _ es]) (simp add: word_less_nat_alt)
  next
    case True
    have "ring_get ?b (unat ?off) (length (concat es)) = concat es" using g(2) off by (simp add: ring_get_mod)
    moreover have "unat ?off < ?N" unfolding off using Cons.prems(2) by (intro mod_less_divisor) linarith
    ultimately obtain off' es1 es2 where "es = es1 @ es2" "get_next_loop log ?off len ?c = Some off'"
      "unat off' = (unat ?off + length (concat es1)) mod ?N" "unat len \<le> unat ?c + length (concat es1)"
      using Cons.IH [of ?off ?c] Cons.prems True c by (auto simp: word_less_nat_alt)
    moreover from this(3) have "unat off' = (unat off + length (concat (e # es1))) mod ?N"
      unfolding off by (simp add: mod_add_left_eq add.assoc)
    moreover have "get_next_loop log off len count = get_next_loop log ?off len ?c"
      using nr True by (subst get_next_loop.simps) simp
    ultimately show ?thesis using c by (intro exI [of _ off'] exI [of _ "e # es1"] exI [of _ es2]) simp
  qed
qed

text \<open>The test for being lapped: the free bytes in front of the offset are not more than \<open>len\<close>.\<close>

lemma clock_interval_iff:
  assumes "log_ok log" "unat len \<le> 4096" "unat off < length (lg_buffer log)" "d < length (lg_buffer log)"
    "(unat off + d) mod length (lg_buffer log) = unat (lg_w_off log)" "0 < unat len"
  shows "clock_interval (lg_w_off log) (logger_offset log (lg_w_off log + len)) off
    \<longleftrightarrow> 0 < d \<and> length (lg_buffer log) \<le> d + unat len"
proof -
  let ?N = "length (lg_buffer log)"
  have N: "8192 \<le> ?N" "unat (lg_w_off log) < ?N" using assms(1) by (auto elim: log_okE)
  have new: "unat (logger_offset log (lg_w_off log + len)) = (if unat (lg_w_off log) + unat len < ?N then unat (lg_w_off log) + unat len
      else unat (lg_w_off log) + unat len - ?N)"
    using logger_offset_add [OF assms(1)] ring_index [of "unat (lg_w_off log)" ?N "unat len"] N assms(2) by simp
  have w: "unat (lg_w_off log) = (if unat off + d < ?N then unat off + d else unat off + d - ?N)"
    using ring_index [OF assms(3,4)] assms(5) by simp
  show ?thesis unfolding clock_interval_def word_less_nat_alt word_le_nat_alt new
    using w N assms(2,3,4,6) by (auto split: if_splits)
qed

lemma fix_up_offset_correct:
  assumes ok: "log_ok log" and p: "pending log off es" and len: "0 < unat len" "unat len \<le> 4096"
  shows "\<exists>off' es'. fix_up_offset log len off = Some off' \<and> suffix es' es \<and> pending log off' es'
    \<and> length (concat es') + unat len < length (lg_buffer log)"
proof -
  let ?N = "length (lg_buffer log)" and ?d = "length (concat es)"
  have N: "8192 \<le> ?N" using ok by (auto elim: log_okE)
  have P: "unat off < ?N" "list_all entry_ok es" "?d < ?N" "ring_get (lg_buffer log) (unat off) ?d = concat es"
    "(unat off + ?d) mod ?N = unat (lg_w_off log)" using p by (auto simp: pending_def)
  note ci = clock_interval_iff [OF ok len(2) P(1,3,5) len(1)]
  show ?thesis
  proof (cases "0 < ?d \<and> ?N \<le> ?d + unat len")
    case False
    then have "?d + unat len < ?N" using N len(2) by (cases "0 < ?d") linarith+
    then show ?thesis using False ci p
      by (intro exI [of _ off] exI [of _ es]) (simp add: fix_up_offset_def Let_def)
  next
    case True
    then have "unat (0 :: u32) < unat len" "unat len \<le> unat (0 :: u32) + ?d" using N len by simp_all
    from get_next_loop_correct [OF ok P(1,2,4) this len(2)] obtain off' es1 es2 where
      o: "es = es1 @ es2" "get_next_loop log off len 0 = Some off'" "unat off' = (unat off + length (concat es1)) mod ?N"
      "unat len \<le> length (concat es1)" by auto
    have g: "ring_get (lg_buffer log) (unat off + length (concat es1)) (length (concat es2)) = concat es2"
      using P(4) o(1) by (simp add: ring_get_add)
    have "ring_get (lg_buffer log) (unat off') (length (concat es2)) = concat es2"
      unfolding o(3) ring_get_mod by (rule g)
    moreover have "(unat off' + length (concat es2)) mod ?N = unat (lg_w_off log)"
      unfolding o(3) using P(5) o(1) by (simp add: mod_add_left_eq add.assoc)
    moreover have "unat off' < ?N" unfolding o(3) using P(1) by (intro mod_less_divisor) linarith
    ultimately have "pending log off' es2" using P(2,3) o(1) by (simp add: pending_def)
    moreover have "length (concat es2) + unat len < ?N" using o(1,4) P(3) by simp
    ultimately show ?thesis using ci True o
      by (intro exI [of _ off'] exI [of _ es2]) (simp add: fix_up_offset_def Let_def get_next_entry_def suffix_def)
  qed
qed

section \<open>The invariant\<close>

text \<open>Every reader, and the start for new readers, has a suffix of the history \<open>H\<close> of entries in front of it.\<close>

definition offsets :: "logger_log \<Rightarrow> u32 set" where
  "offsets log = insert (lg_head log) (snd ` set (lg_readers log))"

definition log_room :: "nat \<Rightarrow> u8 list list \<Rightarrow> logger_log \<Rightarrow> bool" where
  "log_room n H log \<longleftrightarrow> log_ok log
     \<and> (\<forall>off\<in>offsets log. \<exists>es. pending log off es \<and> suffix es H \<and> length (concat es) + n < length (lg_buffer log))"

abbreviation (input) log_inv :: "u8 list list \<Rightarrow> logger_log \<Rightarrow> bool" where
  "log_inv H log \<equiv> log_room 0 H log"

lemma log_inv_iff: "log_inv H log \<longleftrightarrow> log_ok log \<and> (\<forall>off\<in>offsets log. \<exists>es. pending log off es \<and> suffix es H)"
  by (auto simp: log_room_def pending_def)

lemma fix_up_list_correct:
  assumes ok: "log_ok log" and len: "0 < unat len" "unat len \<le> 4096"
    and p: "\<forall>r\<in>set rs. \<exists>es. pending log (snd r) es \<and> suffix es H"
  shows "\<exists>rs'. fix_up_list log len rs = Some rs' \<and> map fst rs' = map fst rs
    \<and> (\<forall>r\<in>set rs'. \<exists>es. pending log (snd r) es \<and> suffix es H \<and> length (concat es) + unat len < length (lg_buffer log))"
  using p
proof (induction rs)
  case (Cons r rs)
  then obtain es where "pending log (snd r) es" "suffix es H" by auto
  with fix_up_offset_correct [OF ok this(1) len] obtain off es' where
    "fix_up_offset log len (snd r) = Some off" "suffix es' H" "pending log off es'"
    "length (concat es') + unat len < length (lg_buffer log)" by (meson suffix_order.trans)
  moreover obtain rs' where "fix_up_list log len rs = Some rs'" "map fst rs' = map fst rs"
    "\<forall>r\<in>set rs'. \<exists>es. pending log (snd r) es \<and> suffix es H \<and> length (concat es) + unat len < length (lg_buffer log)"
    using Cons by auto
  ultimately show ?case by auto
qed simp

lemma pending_cong:
  assumes "lg_buffer log' = lg_buffer log" "lg_w_off log' = lg_w_off log"
  shows "pending log' off es = pending log off es"
  using assms by (simp add: pending_def)

lemma fix_up_readers_correct:
  assumes inv: "log_inv H log" and len: "0 < unat len" "unat len \<le> 4096"
  shows "\<exists>h rs. fix_up_readers log len = Some (log\<lparr>lg_head := h, lg_readers := rs\<rparr>) \<and> map fst rs = map fst (lg_readers log)
    \<and> log_room (unat len) H (log\<lparr>lg_head := h, lg_readers := rs\<rparr>)"
proof -
  have ok: "log_ok log" and p: "\<And>off. off \<in> offsets log \<Longrightarrow> \<exists>es. pending log off es \<and> suffix es H"
    using inv by (auto simp: log_inv_iff)
  obtain es where "pending log (lg_head log) es" "suffix es H" using p [of "lg_head log"] by (auto simp: offsets_def)
  with fix_up_offset_correct [OF ok this(1) len] obtain h es' where
    h: "fix_up_offset log len (lg_head log) = Some h" "suffix es' H" "pending log h es'"
    "length (concat es') + unat len < length (lg_buffer log)" by (meson suffix_order.trans)
  have "\<forall>r\<in>set (lg_readers log). \<exists>es. pending log (snd r) es \<and> suffix es H" using p by (auto simp: offsets_def)
  from fix_up_list_correct [OF ok len this] obtain rs where
    rs: "fix_up_list log len (lg_readers log) = Some rs" "map fst rs = map fst (lg_readers log)"
    "\<forall>r\<in>set rs. \<exists>es. pending log (snd r) es \<and> suffix es H \<and> length (concat es) + unat len < length (lg_buffer log)" by blast
  let ?log = "log\<lparr>lg_head := h, lg_readers := rs\<rparr>"
  have c: "pending ?log off es = pending log off es" for off es by (rule pending_cong) simp_all
  have "log_ok ?log" using ok by (simp add: log_ok_def)
  then have "log_room (unat len) H ?log" using h rs by (auto simp: log_room_def offsets_def c)
  then show ?thesis using h rs by (intro exI [of _ h] exI [of _ rs]) (simp add: fix_up_readers_def)
qed

section \<open>Writing\<close>

text \<open>The log after the bytes \<open>d\<close> are written at the write offset.\<close>

definition written :: "logger_log \<Rightarrow> u8 list \<Rightarrow> logger_log" where
  "written log d = log\<lparr>lg_buffer := ring_put (lg_buffer log) (unat (lg_w_off log)) d,
     lg_w_off := logger_offset log (lg_w_off log + of_nat (length d))\<rparr>"

lemma written_simps [simp]:
  "lg_size (written log d) = lg_size log" "lg_head (written log d) = lg_head log"
  "lg_readers (written log d) = lg_readers log" "length (lg_buffer (written log d)) = length (lg_buffer log)"
  "offsets (written log d) = offsets log" "logger_offset (written log d) = logger_offset log"
  by (simp_all add: written_def offsets_def logger_offset_def fun_eq_iff)

lemma written_w_off:
  assumes "log_ok log" "length d \<le> length (lg_buffer log)"
  shows "unat (lg_w_off (written log d)) = (unat (lg_w_off log) + length d) mod length (lg_buffer log)"
proof -
  have "length (lg_buffer log) < 2 ^ 32" using assms(1) unat_ulong_lt [of "lg_size log"] by (auto elim: log_okE)
  then have "unat (of_nat (length d) :: u32) = length d" using assms(2) by (intro unat_of_nat_ulong) simp
  then show ?thesis using logger_offset_add [OF assms(1)] by (simp add: written_def)
qed

lemma written_ok: "log_ok log \<Longrightarrow> length d \<le> length (lg_buffer log) \<Longrightarrow> log_ok (written log d)"
  using written_w_off [of log d] by (auto simp: log_ok_def intro!: mod_less_divisor)

lemma written_append:
  assumes "log_ok log" "length d + length e \<le> length (lg_buffer log)"
  shows "written (written log d) e = written log (d @ e)"
proof -
  let ?N = "length (lg_buffer log)" and ?w = "unat (lg_w_off log)"
  have w: "unat (lg_w_off (written log d)) = (?w + length d) mod ?N" using written_w_off [OF assms(1), of d] assms(2) by simp
  have "ring_put (ring_put (lg_buffer log) ?w d) ((?w + length d) mod ?N) e = ring_put (lg_buffer log) ?w (d @ e)"
    using ring_put_append(2) [OF assms(2)] ring_put_mod [of "ring_put (lg_buffer log) ?w d"] by simp
  moreover have "lg_w_off (written (written log d) e) = lg_w_off (written log (d @ e))"
  proof -
    have "unat (lg_w_off (written (written log d) e)) = unat (lg_w_off (written log (d @ e)))"
      using written_w_off [OF written_ok [OF assms(1)], of d e] written_w_off [OF assms(1), of "d @ e"] w assms(2)
      by (simp add: mod_add_left_eq add.assoc)
    then show ?thesis by (simp only: word_unat_eq_iff)
  qed
  ultimately show ?thesis using w by (simp add: written_def)
qed

lemma logger_offset_w_off: "log_ok log \<Longrightarrow> logger_offset log (lg_w_off log) = lg_w_off log"
  using logger_offset_unat [of log "lg_w_off log"] by (simp add: log_ok_def word_unat_eq_iff)

lemma written_Nil: "log_ok log \<Longrightarrow> written log [] = log"
proof -
  assume ok: "log_ok log"
  have "ring_put (lg_buffer log) (unat (lg_w_off log)) [] = lg_buffer log"
    by (rule nth_equalityI) (simp_all add: ring_put_def Let_def)
  then show ?thesis using logger_offset_w_off [OF ok] by (simp add: written_def)
qed

lemma log_min:
  assumes "log_ok log"
  shows "unat (min n (lg_size log - lg_w_off log)) = min (unat n) (length (lg_buffer log) - unat (lg_w_off log))"
proof -
  have "unat (lg_size log - lg_w_off log) = length (lg_buffer log) - unat (lg_w_off log)"
    using assms by (elim log_okE) (simp add: unat_sub_if')
  then show ?thesis by (simp add: min_def word_le_nat_alt)
qed

lemma min_eq_iff_unat: "(n :: u32) = min n m \<longleftrightarrow> unat n = unat (min n m)"
  by (rule word_unat_eq_iff)

lemma memcpy_in_Nil: "memcpy_in b 0 [] = Some b"
  by (simp add: memcpy_in_def)

lemma do_write_log_correct:
  assumes ok: "log_ok log" and c: "unat count \<le> length (lg_buffer log)" "unat count \<le> length buf"
  shows "do_write_log log buf count = Some (written log (take (unat count) buf))"
proof -
  let ?l = "min count (lg_size log - lg_w_off log)" and ?d = "take (unat count) buf"
  have w: "unat (lg_w_off log) < length (lg_buffer log)" using ok by (simp add: log_ok_def)
  have d: "length ?d = unat count" using c by simp
  have l: "unat ?l = min (length ?d) (length (lg_buffer log) - unat (lg_w_off log))" using log_min [OF ok] d by simp
  have le: "length ?d \<le> length (lg_buffer log)" using c d by simp
  from ring_put_split [OF w le l] obtain b' where b': "memcpy_in (lg_buffer log) (unat (lg_w_off log)) (take (unat ?l) ?d) = Some b'"
    "memcpy_in b' 0 (drop (unat ?l) ?d) = Some (ring_put (lg_buffer log) (unat (lg_w_off log)) ?d)" .
  have ll: "unat ?l \<le> unat count" using l d by simp
  have d1: "memcpy_out buf 0 (unat ?l) = Some (take (unat ?l) ?d)" using ll c by (simp add: min_absorb1)
  have d2: "memcpy_out buf (unat ?l) (unat (count - ?l)) = Some (drop (unat ?l) ?d)"
  proof -
    have "unat (count - ?l) = unat count - unat ?l" using ll by (simp add: unat_sub_if')
    then show ?thesis using ll c by (simp add: drop_take)
  qed
  have last: "(if count \<noteq> ?l then do { d2 \<leftarrow> memcpy_out buf (unat ?l) (unat (count - ?l)); memcpy_in b' 0 d2 } else Some b')
      = Some (ring_put (lg_buffer log) (unat (lg_w_off log)) ?d)"
  proof (cases "count = ?l")
    case True
    then have "unat ?l = length ?d" using d by simp
    then have "drop (unat ?l) ?d = []" by (simp only: drop_all)
    then show ?thesis using True b'(2) memcpy_in_Nil [of b'] by simp
  qed (simp add: d2 b')
  have "(of_nat (unat count) :: u32) = count" by simp
  then show ?thesis unfolding do_write_log_def Let_def using d1 b'(1) last d by (simp add: written_def)
qed

lemma copy_from_user_min: "copy_from_user b off u uoff n r = copy_from_user b off u uoff n (min n r)"
  by (simp add: copy_from_user_def min_def)

lemma do_write_user_correct:
  assumes ok: "log_ok log" and c: "unat count \<le> length (lg_buffer log)" "unat count \<le> length buf"
  shows "(\<exists>d. do_write_log_from_user ret1 ret2 log buf count
      = Some (Inl EFAULT, log\<lparr>lg_buffer := ring_put (lg_buffer log) (unat (lg_w_off log)) d\<rparr>) \<and> length d \<le> unat count)
    \<or> do_write_log_from_user ret1 ret2 log buf count = Some (Inr count, written log (take (unat count) buf))"
proof -
  let ?b = "lg_buffer log" and ?w = "unat (lg_w_off log)"
  define L where "L = min count (lg_size log - lg_w_off log)"
  have w: "?w < length ?b" using ok by (simp add: log_ok_def)
  have l: "unat L = min (unat count) (length ?b - ?w)" unfolding L_def by (rule log_min [OF ok])
  have ll: "unat L \<le> unat count" using l by simp
  have u: "unat (count - L) = unat count - unat L" using ll by (simp add: unat_sub_if')
  note cp = ring_copy_from_user [OF w c l]
  note defn = do_write_log_from_user_def Let_def L_def [symmetric]
  show ?thesis
  proof (cases "count = 0")
    case True
    then show ?thesis using written_Nil [OF ok] logger_offset_w_off [OF ok] by (simp add: do_write_log_from_user_def)
  next
    case False
    then have "0 < unat count" by (simp add: unat_gt_0)
    then have nz: "L \<noteq> 0" using l w by (metis min_less_iff_conj neq0_conv unat_0 zero_less_diff)
    show ?thesis
    proof (cases "ret1 = 0")
      case False
      let ?r = "min (unat L) (unat ret1)"
      let ?d = "take (unat L - ?r) buf @ replicate ?r 0"
      have "copy_from_user ?b ?w buf 0 (unat L) (unat ret1) = Some (ring_put ?b ?w ?d)"
        unfolding copy_from_user_min [of ?b ?w buf 0 "unat L" "unat ret1"] by (rule cp(1)) simp
      then have "do_write_log_from_user ret1 ret2 log buf count = Some (Inl EFAULT, log\<lparr>lg_buffer := ring_put ?b ?w ?d\<rparr>)"
        unfolding defn using False nz by simp
      moreover have "length ?d \<le> unat count" using ll by simp
      ultimately show ?thesis by (intro disjI1 exI [of _ ?d] conjI)
    next
      case True
      define r where "r = (if count = L then 0 else min (unat count - unat L) (unat ret2))"
      let ?d = "take (unat count - r) buf @ replicate r (0 :: u8)"
      have r: "r \<le> unat count - unat L" by (simp add: r_def)
      from cp(2) [OF this] obtain b' where b': "copy_from_user ?b ?w buf 0 (unat L) 0 = Some b'"
        "copy_from_user b' 0 buf (unat L) (unat count - unat L) r = Some (ring_put ?b ?w ?d)" by blast
      have "(if count \<noteq> L then copy_from_user b' 0 buf (unat L) (unat (count - L)) (unat ret2) else Some b') = Some (ring_put ?b ?w ?d)"
      proof (cases "count = L")
        case True
        then show ?thesis using b'(2) by (simp add: copy_from_user_def memcpy_in_Nil)
      next
        case False
        then show ?thesis using b'(2) copy_from_user_min [of b' 0 buf "unat L" "unat count - unat L" "unat ret2"] u by (simp add: r_def)
      qed
      then have call: "do_write_log_from_user ret1 ret2 log buf count = (if count \<noteq> L \<and> ret2 \<noteq> 0 then Some (Inl EFAULT, log\<lparr>lg_buffer := ring_put ?b ?w ?d\<rparr>)
          else Some (Inr count, log\<lparr>lg_buffer := ring_put ?b ?w ?d, lg_w_off := logger_offset log (lg_w_off log + count)\<rparr>))"
        unfolding defn using True b'(1) nz by (cases "count = L") auto
      have len: "length ?d = unat count" using r c(2) by simp
      show ?thesis
      proof (cases "count \<noteq> L \<and> ret2 \<noteq> 0")
        case True
        then have "do_write_log_from_user ret1 ret2 log buf count = Some (Inl EFAULT, log\<lparr>lg_buffer := ring_put ?b ?w ?d\<rparr>)" using call by simp
        with len show ?thesis by (intro disjI1 exI [of _ ?d] conjI) simp_all
      next
        case False
        then have "r = 0" by (auto simp: r_def)
        moreover have "do_write_log_from_user ret1 ret2 log buf count
            = Some (Inr count, log\<lparr>lg_buffer := ring_put ?b ?w ?d, lg_w_off := logger_offset log (lg_w_off log + count)\<rparr>)"
          unfolding call using False by (rule if_not_P)
        ultimately show ?thesis using len by (intro disjI2) (simp add: written_def)
      qed
    qed
  qed
qed

text \<open>A failed segment leaves at most the bytes of the entry in the ring.\<close>

definition seg_ok :: "iovec \<Rightarrow> bool" where
  "seg_ok seg \<longleftrightarrow> length (fst seg) < 2 ^ 32"

definition spoiled :: "nat \<Rightarrow> logger_log \<Rightarrow> logger_log \<Rightarrow> bool" where
  "spoiled n log log' \<longleftrightarrow> (\<exists>d w. length d \<le> n \<and>
     log' = log\<lparr>lg_buffer := ring_put (lg_buffer log) (unat (lg_w_off log)) d, lg_w_off := w\<rparr>)"

lemma spoiled_written:
  assumes "log_ok log" "length d + n \<le> length (lg_buffer log)" "spoiled n (written log d) log'"
  shows "spoiled (length d + n) log log'"
proof -
  let ?N = "length (lg_buffer log)" and ?w = "unat (lg_w_off log)"
  obtain e w where e: "length e \<le> n" "log' = (written log d)\<lparr>lg_buffer := ring_put (lg_buffer (written log d)) (unat (lg_w_off (written log d))) e, lg_w_off := w\<rparr>"
    using assms(3) by (auto simp: spoiled_def)
  have "unat (lg_w_off (written log d)) = (?w + length d) mod ?N" using written_w_off [OF assms(1), of d] assms(2) by simp
  moreover have "lg_buffer (written log d) = ring_put (lg_buffer log) ?w d" by (simp add: written_def)
  moreover have "ring_put (ring_put (lg_buffer log) ?w d) ((?w + length d) mod ?N) e = ring_put (lg_buffer log) ?w (d @ e)"
    using ring_put_append(2) [of d e "lg_buffer log"] ring_put_mod [of "ring_put (lg_buffer log) ?w d"] e(1) assms(2) by simp
  ultimately have "log' = log\<lparr>lg_buffer := ring_put (lg_buffer log) ?w (d @ e), lg_w_off := w\<rparr>" using e(2) by (simp add: written_def)
  then show ?thesis using e(1) unfolding spoiled_def by (intro exI [of _ "d @ e"] exI [of _ w]) simp
qed

lemma write_segs_correct:
  assumes "log_ok log" "list_all seg_ok segs" "unat ret \<le> unat hlen" "unat hlen \<le> length (lg_buffer log)"
  shows "(\<exists>log'. write_segs hlen segs ret log = Some (Inl EFAULT, log') \<and> spoiled (unat hlen - unat ret) log log')
    \<or> (let d = take (unat hlen - unat ret) (concat (map fst segs)) in
        write_segs hlen segs ret log = Some (Inr (ret + of_nat (length d)), written log d))"
  using assms
proof (induction segs arbitrary: ret log)
  case Nil
  then show ?case by (simp add: written_Nil)
next
  case (Cons seg segs)
  obtain d r1 r2 where seg: "seg = (d, r1, r2)" by (cases seg)
  let ?l = "min (of_nat (length d)) (hlen - ret)"
  have "unat (of_nat (length d) :: u32) = length d" using Cons.prems(2) seg by (intro unat_of_nat_ulong) (simp add: seg_ok_def)
  moreover have "unat (hlen - ret) = unat hlen - unat ret" using Cons.prems(3) by (simp add: unat_sub_if')
  ultimately have l: "unat ?l = min (length d) (unat hlen - unat ret)" by (auto simp: min_def word_le_nat_alt)
  then have lb: "unat ?l \<le> length d" "unat ?l \<le> unat hlen - unat ret" "unat ?l \<le> length (lg_buffer log)" using Cons.prems(4) by simp_all
  from do_write_user_correct [OF Cons.prems(1) lb(3,1), of r1 r2] show ?case
  proof (elim disjE exE conjE)
    fix x assume "do_write_log_from_user r1 r2 log d ?l = Some (Inl EFAULT, log\<lparr>lg_buffer := ring_put (lg_buffer log) (unat (lg_w_off log)) x\<rparr>)"
      "length x \<le> unat ?l"
    then show ?thesis using lb(2) seg
      by (intro disjI1 exI [of _ "log\<lparr>lg_buffer := ring_put (lg_buffer log) (unat (lg_w_off log)) x\<rparr>"])
        (auto simp: spoiled_def Let_def intro!: exI [of _ x] exI [of _ "lg_w_off log"])
  next
    let ?t = "take (unat ?l) d"
    assume w: "do_write_log_from_user r1 r2 log d ?l = Some (Inr ?l, written log ?t)"
    then have step: "write_segs hlen (seg # segs) ret log = write_segs hlen segs (ret + ?l) (written log ?t)"
      using seg by (simp add: Let_def)
    have lt: "length ?t = unat ?l" using lb by simp
    have ok: "log_ok (written log ?t)" using written_ok [OF Cons.prems(1), of ?t] lt lb by simp
    have "unat ret + unat ?l < 2 ^ 32" using lb(2) Cons.prems(3) unat_ulong_lt [of hlen] by linarith
    then have r: "unat (ret + ?l) = unat ret + unat ?l" by (rule unat_add_ulong)
    have "(\<exists>log'. write_segs hlen segs (ret + ?l) (written log ?t) = Some (Inl EFAULT, log') \<and> spoiled (unat hlen - unat (ret + ?l)) (written log ?t) log')
      \<or> (let e = take (unat hlen - unat (ret + ?l)) (concat (map fst segs)) in
        write_segs hlen segs (ret + ?l) (written log ?t) = Some (Inr (ret + ?l + of_nat (length e)), written (written log ?t) e))"
      using Cons.IH [OF ok, of "ret + ?l"] Cons.prems r lb(2) by simp
    then show ?thesis
    proof (elim disjE exE conjE)
      fix log' assume f: "write_segs hlen segs (ret + ?l) (written log ?t) = Some (Inl EFAULT, log')"
        "spoiled (unat hlen - unat (ret + ?l)) (written log ?t) log'"
      have "length ?t + (unat hlen - unat (ret + ?l)) = unat hlen - unat ret" unfolding r lt using lb(2) by linarith
      with spoiled_written [OF Cons.prems(1) _ f(2)] Cons.prems(4) have "spoiled (unat hlen - unat ret) log log'" by simp
      with f(1) step show ?thesis by auto
    next
      let ?e = "take (unat hlen - unat (ret + ?l)) (concat (map fst segs))"
      assume s: "let e = ?e in write_segs hlen segs (ret + ?l) (written log ?t) = Some (Inr (ret + ?l + of_nat (length e)), written (written log ?t) e)"
      have te: "?t @ ?e = take (unat hlen - unat ret) (concat (map fst (seg # segs)))"
      proof -
        have "?t = take (unat hlen - unat ret) d" unfolding l by (simp add: min_def)
        moreover have "?e = take (unat hlen - unat ret - length d) (concat (map fst segs))" using r l by (auto simp: min_def)
        ultimately show ?thesis using seg by simp
      qed
      have "length ?e \<le> unat hlen - unat (ret + ?l)" by simp
      then have "length ?t + length ?e \<le> length (lg_buffer log)" unfolding lt r using lb(2) Cons.prems(4) by linarith
      from written_append [OF Cons.prems(1) this] have "written (written log ?t) ?e = written log (?t @ ?e)" .
      moreover have "ret + ?l + of_nat (length ?e) = ret + of_nat (length (?t @ ?e))" using lt by (simp add: add.assoc)
      ultimately show ?thesis using s step unfolding te [symmetric] Let_def by simp
    qed
  qed
qed

end
