(* ===== verification/Logger_Ops.thy ===== *)
theory Logger_Ops
  imports Logger_Inv
begin

text \<open>
  The operations of the log keep every reader at an entry boundary, as long as no write faults while it
  holds an outdated sample of the write offset; the log as a step relation over any number of writers, with the history of
  written entries; the properties of the log.
\<close>

unbundle bit_operations_syntax

section \<open>A whole write\<close>

definition the_entry :: "logger_entry \<Rightarrow> u32 \<Rightarrow> iovec list \<Rightarrow> u8 list" where
  "the_entry h hlen segs = header_bytes (h\<lparr>le_len := ucast hlen\<rparr>) @ take (unat hlen) (concat (map fst segs))"

lemma length_header_bytes [simp]: "length (header_bytes h) = 20"
  by (simp add: header_bytes_def le16_def le32_def)

lemma le16_value: "ucast (ucast h :: u8) OR push_bit 8 (ucast (ucast (drop_bit 8 h) :: u8)) = (ucast (h :: 16 word) :: u32)"
proof (rule bit_eqI)
  fix i
  show "bit (ucast (ucast h :: u8) OR push_bit 8 (ucast (ucast (drop_bit 8 h) :: u8)) :: u32) i \<longleftrightarrow> bit (ucast h :: u32) i"
    using bit_imp_le_length [of h i] by (auto simp: bit_simps)
qed

lemma ucast_16: "unat w < 2 ^ 16 \<Longrightarrow> ucast (ucast w :: 16 word) = (w :: u32)"
proof -
  assume "unat w < 2 ^ 16"
  then have "take_bit 16 (unat w) = unat w" by (simp add: take_bit_nat_eq_self_iff)
  then have "take_bit 16 w = w" by (metis unsigned_take_bit_eq word_unat_eq_iff)
  moreover have "ucast (ucast w :: 16 word) = take_bit 16 w" by (rule bit_eqI) (auto simp: bit_simps)
  ultimately show ?thesis by simp
qed

lemma the_entry_ok:
  assumes "unat hlen \<le> 4076" "unat hlen \<le> length (concat (map fst segs))"
  shows "entry_ok (the_entry h hlen segs)" "length (the_entry h hlen segs) = 20 + unat hlen"
proof -
  show len: "length (the_entry h hlen segs) = 20 + unat hlen" using assms by (simp add: the_entry_def)
  have "the_entry h hlen segs ! 0 = ucast (ucast hlen :: 16 word)" "the_entry h hlen segs ! 1 = ucast (drop_bit 8 (ucast hlen :: 16 word))"
    by (simp_all add: the_entry_def header_bytes_def le16_def)
  moreover have "ucast (ucast hlen :: 16 word) = hlen" using assms(1) by (intro ucast_16) simp
  moreover have "(20 + hlen :: u32) = of_nat (20 + unat hlen)" by simp
  ultimately show "entry_ok (the_entry h hlen segs)"
    using len assms(1) le16_value [of "ucast hlen"] by (simp add: entry_ok_def)
qed

lemma pending_write:
  assumes ok: "log_ok log" and p: "pending log off es" and e: "entry_ok e" and room: "length (concat es) + length e < length (lg_buffer log)"
  shows "pending (written log e) off (es @ [e])"
proof -
  let ?N = "length (lg_buffer log)" and ?n = "length (concat es)"
  have P: "unat off < ?N" "list_all entry_ok es" "ring_get (lg_buffer log) (unat off) ?n = concat es"
    "(unat off + ?n) mod ?N = unat (lg_w_off log)" using p by (auto simp: pending_def)
  have "ring_put (lg_buffer log) (unat (lg_w_off log)) e = ring_put (lg_buffer log) (unat off + ?n) e"
    using P(4) by (metis ring_put_mod)
  then have "ring_get (lg_buffer (written log e)) (unat off) (?n + length e) = concat es @ e"
    using ring_get_put [of ?n e "lg_buffer log" "unat off"] room P(3) by (simp add: written_def)
  moreover have "unat (lg_w_off (written log e)) = (unat off + (?n + length e)) mod ?N"
    using written_w_off [OF ok, of e] room by (simp add: P(4) [symmetric] mod_add_left_eq add.assoc)
  ultimately show ?thesis using P e room by (simp add: pending_def add.assoc)
qed

lemma pending_spoiled:
  assumes p: "pending log off es" and s: "spoiled n log log'" and room: "length (concat es) + n < length (lg_buffer log)"
  shows "pending (log'\<lparr>lg_w_off := lg_w_off log\<rparr>) off es"
proof -
  let ?N = "length (lg_buffer log)" and ?n = "length (concat es)"
  obtain d w where d: "length d \<le> n" "log' = log\<lparr>lg_buffer := ring_put (lg_buffer log) (unat (lg_w_off log)) d, lg_w_off := w\<rparr>"
    using s by (auto simp: spoiled_def)
  have P: "(unat off + ?n) mod ?N = unat (lg_w_off log)" using p by (auto simp: pending_def)
  have "ring_put (lg_buffer log) (unat (lg_w_off log)) d = ring_put (lg_buffer log) (unat off + ?n + 0) d"
    using P by (metis ring_put_mod add_0_right)
  then have "ring_get (lg_buffer log') (unat off) ?n = ring_get (lg_buffer log) (unat off) ?n"
    using ring_get_put_other [of ?n 0 d "lg_buffer log" "unat off"] room d by simp
  then show ?thesis using p d(2) by (simp add: pending_def)
qed

text \<open>In any log, also one whose readers are not at entries, pulling the readers forward ends inside the buffer.\<close>

definition offs_ok :: "logger_log \<Rightarrow> bool" where
  "offs_ok log \<longleftrightarrow> (\<forall>off\<in>offsets log. unat off < length (lg_buffer log))"

lemma get_entry_len_total:
  assumes "log_ok log" "unat off < length (lg_buffer log)"
  shows "\<exists>n. get_entry_len log off = Some n \<and> 20 \<le> unat n \<and> unat n < 2 ^ 17"
proof -
  have N: "8192 \<le> length (lg_buffer log)" "unat (lg_size log) = length (lg_buffer log)" using assms(1) by (auto elim: log_okE)
  have d: "unat (lg_size log - off) = length (lg_buffer log) - unat off" using assms(2) N(2) by (simp add: unat_sub_if')
  have one: "unat (lg_size log - off) = 1 \<longleftrightarrow> lg_size log - off = 1" by (simp add: word_unat_eq_iff)
  have "\<exists>x y. get_entry_len log off = Some (20 + (ucast (x :: u8) OR push_bit 8 (ucast (y :: u8))))"
  proof (cases "lg_size log - off = 1")
    case True
    then show ?thesis using assms(2) N(1) by (auto simp: get_entry_len_def memcpy_out_def sizeof_logger_entry_def)
  next
    case False
    then have "unat off + 2 \<le> length (lg_buffer log)" using d one assms(2) by linarith
    then show ?thesis using False by (auto simp: get_entry_len_def memcpy_out_def sizeof_logger_entry_def)
  qed
  then obtain x y :: u8 where v: "get_entry_len log off = Some (20 + (ucast x OR push_bit 8 (ucast y)))" by blast
  let ?x = "ucast x OR push_bit 8 (ucast y) :: u32"
  have "take_bit 16 ?x = ?x" by (rule bit_eqI) (auto simp: bit_simps dest: bit_imp_le_length)
  then have "unat ?x < 2 ^ 16" by (metis take_bit_nat_less_exp unsigned_take_bit_eq)
  then have "unat (20 + ?x) = 20 + unat ?x" by (simp add: unat_add_ulong)
  with \<open>unat ?x < 2 ^ 16\<close> v show ?thesis by simp
qed

lemma get_next_loop_total:
  assumes "log_ok log" "unat off < length (lg_buffer log)" "unat len \<le> 4096" "unat count \<le> 4096"
  shows "\<exists>off'. get_next_loop log off len count = Some off' \<and> unat off' < length (lg_buffer log)"
  using assms(2,4)
proof (induction "4096 - unat count" arbitrary: off count rule: less_induct)
  case less
  obtain n where n: "get_entry_len log off = Some n" "20 \<le> unat n" "unat n < 2 ^ 17"
    using get_entry_len_total [OF assms(1) less.prems(1)] by blast
  have c: "unat (count + n) = unat count + unat n" using less.prems(2) n(3) by (simp add: unat_add_ulong)
  have o: "unat (logger_offset log (off + n)) < length (lg_buffer log)"
    unfolding logger_offset_unat [OF assms(1)] using less.prems(1) by (intro mod_less_divisor) linarith
  show ?case
  proof (cases "count + n < len")
    case True
    then have lt: "unat (count + n) < unat len" by (simp add: word_less_nat_alt)
    have "\<exists>off'. get_next_loop log (logger_offset log (off + n)) len (count + n) = Some off' \<and> unat off' < length (lg_buffer log)"
      by (rule less.hyps) (use lt assms(3) c n(2) o in simp_all)
    then show ?thesis using n True by (subst get_next_loop.simps) (simp add: Let_def)
  next
    case False
    then show ?thesis using n o by (subst get_next_loop.simps) (simp add: Let_def)
  qed
qed

lemma fix_up_offset_total:
  assumes "log_ok log" "unat off < length (lg_buffer log)" "unat len \<le> 4096"
  shows "\<exists>off'. fix_up_offset log len off = Some off' \<and> unat off' < length (lg_buffer log)"
  using get_next_loop_total [OF assms, of 0] assms(2) by (simp add: fix_up_offset_def get_next_entry_def Let_def)

lemma fix_up_list_total:
  assumes "log_ok log" "unat len \<le> 4096" "\<forall>x\<in>set rs. unat (snd x) < length (lg_buffer log)"
  shows "\<exists>rs'. fix_up_list log len rs = Some rs' \<and> map fst rs' = map fst rs \<and> (\<forall>x\<in>set rs'. unat (snd x) < length (lg_buffer log))"
  using assms(3)
proof (induction rs)
  case (Cons x rs)
  then have "unat (snd x) < length (lg_buffer log)" by simp
  from fix_up_offset_total [OF assms(1) this assms(2)] Cons show ?case by auto
qed simp

lemma fix_up_readers_total:
  assumes "log_ok log" "offs_ok log" "unat len \<le> 4096"
  shows "\<exists>h rs. fix_up_readers log len = Some (log\<lparr>lg_head := h, lg_readers := rs\<rparr>) \<and> map fst rs = map fst (lg_readers log)
    \<and> log_ok (log\<lparr>lg_head := h, lg_readers := rs\<rparr>) \<and> offs_ok (log\<lparr>lg_head := h, lg_readers := rs\<rparr>)"
proof -
  obtain h where "fix_up_offset log len (lg_head log) = Some h" "unat h < length (lg_buffer log)"
    using fix_up_offset_total [OF assms(1) _ assms(3)] assms(2) by (auto simp: offs_ok_def offsets_def)
  moreover obtain rs where "fix_up_list log len (lg_readers log) = Some rs" "map fst rs = map fst (lg_readers log)"
    "\<forall>x\<in>set rs. unat (snd x) < length (lg_buffer log)"
    using fix_up_list_total [OF assms(1,3), of "lg_readers log"] assms(2) by (auto simp: offs_ok_def offsets_def)
  ultimately show ?thesis using assms(1) by (auto simp: fix_up_readers_def offs_ok_def offsets_def log_ok_def)
qed

text \<open>The two outcomes of a write after the readers have been pulled forward, for any sampled offset.\<close>

lemma aio_write_cases:
  assumes f: "fix_up_readers log (20 + hlen) = Some log1" and ok: "log_ok log1"
    and segs: "list_all seg_ok segs" "unat ki_left \<le> length (concat (map fst segs))"
    and n: "hlen = min ki_left 4076" "hlen \<noteq> 0"
  shows "(\<exists>log2. logger_aio_write orig h ki_left segs log = Some (Inl EFAULT, log2\<lparr>lg_w_off := orig\<rparr>) \<and> spoiled (20 + unat hlen) log1 log2)
    \<or> logger_aio_write orig h ki_left segs log = Some (Inr hlen, written log1 (the_entry h hlen segs))"
proof -
  have hb: "unat hlen \<le> 4076" "unat hlen \<le> length (concat (map fst segs))"
    using n segs(2) by (auto simp: min_def word_le_nat_alt split: if_splits)
  have big: "8192 \<le> length (lg_buffer log1)" using ok by (auto elim: log_okE)
  let ?hb = "header_bytes (h\<lparr>le_len := ucast hlen\<rparr>)" and ?d = "take (unat hlen) (concat (map fst segs))"
  have w: "do_write_log log1 ?hb 20 = Some (written log1 ?hb)" using do_write_log_correct [OF ok, of 20 ?hb] big by simp
  have okh: "log_ok (written log1 ?hb)" using written_ok [OF ok, of ?hb] big by simp
  have "unat hlen \<le> length (lg_buffer (written log1 ?hb))" using hb(1) big by simp
  from write_segs_correct [OF okh segs(1), of 0 hlen] this consider
      (fail) log2 where "write_segs hlen segs 0 (written log1 ?hb) = Some (Inl EFAULT, log2)" "spoiled (unat hlen) (written log1 ?hb) log2"
    | (good) "write_segs hlen segs 0 (written log1 ?hb) = Some (Inr (of_nat (length ?d)), written (written log1 ?hb) ?d)"
    by (auto simp: Let_def)
  note cases = this
  have call: "logger_aio_write orig h ki_left segs log = do {
      (ret, log') \<leftarrow> write_segs hlen segs 0 (written log1 ?hb);
      Some (case ret of Inl e \<Rightarrow> (Inl e, log'\<lparr>lg_w_off := orig\<rparr>) | Inr m \<Rightarrow> (Inr m, log')) }"
    using n f w by (simp add: logger_aio_write_def Let_def LOGGER_ENTRY_MAX_PAYLOAD_def LOGGER_ENTRY_MAX_LEN_def sizeof_logger_entry_def)
  show ?thesis using cases
  proof cases
    case fail
    have "spoiled (20 + unat hlen) log1 log2" using spoiled_written [OF ok _ fail(2)] hb(1) big by simp
    moreover have "logger_aio_write orig h ki_left segs log = Some (Inl EFAULT, log2\<lparr>lg_w_off := orig\<rparr>)" using call fail(1) by simp
    ultimately show ?thesis by blast
  next
    case good
    have "written (written log1 ?hb) ?d = written log1 (the_entry h hlen segs)"
      using written_append [OF ok, of ?hb ?d] hb big by (simp add: the_entry_def)
    moreover have "(of_nat (length ?d) :: u32) = hlen" using hb(2) by simp
    ultimately show ?thesis using call good by simp
  qed
qed

lemma log_inv_spoiled:
  assumes room: "log_room n H log1" and sp: "spoiled n log1 log2"
  shows "log_inv H (log2\<lparr>lg_w_off := lg_w_off log1\<rparr>)"
proof -
  have ok: "log_ok log1" using room by (simp add: log_room_def)
  obtain d where "log2\<lparr>lg_w_off := lg_w_off log1\<rparr> = log1\<lparr>lg_buffer := ring_put (lg_buffer log1) (unat (lg_w_off log1)) d\<rparr>"
    using sp by (auto simp: spoiled_def)
  then have "offsets (log2\<lparr>lg_w_off := lg_w_off log1\<rparr>) = offsets log1" "log_ok (log2\<lparr>lg_w_off := lg_w_off log1\<rparr>)"
    using ok by (simp_all add: offsets_def log_ok_def)
  then show ?thesis unfolding log_inv_iff using room pending_spoiled [OF _ sp] by (auto simp: log_room_def) blast
qed

lemma log_inv_written:
  assumes room: "log_room (length e) H log1" and e: "entry_ok e"
  shows "log_inv (H @ [e]) (written log1 e)"
proof -
  have ok: "log_ok log1" using room by (simp add: log_room_def)
  then have "log_ok (written log1 e)" using written_ok [of log1 e] e by (auto simp: entry_ok_def elim: log_okE)
  moreover have "\<exists>es'. pending (written log1 e) off es' \<and> suffix es' (H @ [e])" if off: "off \<in> offsets log1" for off
  proof -
    obtain es where es: "pending log1 off es" "suffix es H" "length (concat es) + length e < length (lg_buffer log1)"
      using room off by (auto simp: log_room_def)
    moreover have "suffix (es @ [e]) (H @ [e])" using es(2) by (simp add: suffix_def)
    ultimately show ?thesis using pending_write [OF ok es(1) e] by blast
  qed
  ultimately show ?thesis by (simp add: log_inv_iff)
qed

lemma logger_aio_write_correct:
  assumes inv: "log_inv H log" and segs: "list_all seg_ok segs" "unat ki_left \<le> length (concat (map fst segs))"
    and n: "hlen = min ki_left 4076" "hlen \<noteq> 0"
  shows "\<exists>ret log'. logger_aio_write orig h ki_left segs log = Some (ret, log') \<and> map fst (lg_readers log') = map fst (lg_readers log)
    \<and> (case ret of Inl e \<Rightarrow> e = EFAULT \<and> (orig = lg_w_off log \<longrightarrow> log_inv H log')
       | Inr m \<Rightarrow> m = hlen \<and> log_inv (H @ [the_entry h hlen segs]) log')"
proof -
  have hb: "unat hlen \<le> 4076" "unat hlen \<le> length (concat (map fst segs))" "0 < unat hlen"
    using n segs(2) by (auto simp: min_def word_le_nat_alt unat_gt_0 split: if_splits)
  have len: "unat (20 + hlen) = 20 + unat hlen" using hb(1) by (simp add: unat_add_ulong)
  obtain hd rs where f: "fix_up_readers log (20 + hlen) = Some (log\<lparr>lg_head := hd, lg_readers := rs\<rparr>)" "map fst rs = map fst (lg_readers log)"
    "log_room (20 + unat hlen) H (log\<lparr>lg_head := hd, lg_readers := rs\<rparr>)"
    using fix_up_readers_correct [OF inv, of "20 + hlen"] len hb by auto
  define log1 where "log1 = log\<lparr>lg_head := hd, lg_readers := rs\<rparr>"
  note room = f(3) [folded log1_def]
  have ok: "log_ok log1" using room by (simp add: log_room_def)
  have l1: "lg_w_off log1 = lg_w_off log" "map fst (lg_readers log1) = map fst (lg_readers log)" using f(2) by (simp_all add: log1_def)
  note e = the_entry_ok [OF hb(1,2), of h]
  from aio_write_cases [OF f(1) [folded log1_def] ok segs n, of orig h] show ?thesis
  proof (elim disjE exE conjE)
    fix log2 assume c: "logger_aio_write orig h ki_left segs log = Some (Inl EFAULT, log2\<lparr>lg_w_off := orig\<rparr>)"
      and sp: "spoiled (20 + unat hlen) log1 log2"
    have "map fst (lg_readers log2) = map fst (lg_readers log)" using sp l1(2) by (auto simp: spoiled_def)
    then show ?thesis using c log_inv_spoiled [OF room sp] l1(1) by simp
  next
    assume "logger_aio_write orig h ki_left segs log = Some (Inr hlen, written log1 (the_entry h hlen segs))"
    then show ?thesis using log_inv_written [of "the_entry h hlen segs" H log1] room e l1(2) by simp
  qed
qed

lemma logger_aio_write_total:
  assumes ok: "log_ok log" "offs_ok log" and segs: "list_all seg_ok segs" "unat ki_left \<le> length (concat (map fst segs))"
    and orig: "unat orig < length (lg_buffer log)"
  shows "\<exists>ret log'. logger_aio_write orig h ki_left segs log = Some (ret, log') \<and> map fst (lg_readers log') = map fst (lg_readers log)
    \<and> log_ok log' \<and> offs_ok log' \<and> length (lg_buffer log') = length (lg_buffer log)
    \<and> (case ret of Inl e \<Rightarrow> e = EFAULT | Inr m \<Rightarrow> m = min ki_left 4076)"
proof (cases "min ki_left 4076 = (0 :: u32)")
  case True
  then show ?thesis using ok
    by (simp add: logger_aio_write_def Let_def LOGGER_ENTRY_MAX_PAYLOAD_def LOGGER_ENTRY_MAX_LEN_def sizeof_logger_entry_def)
next
  case False
  define hlen where "hlen = min ki_left 4076"
  have n: "hlen = min ki_left 4076" "hlen \<noteq> 0" using False by (simp_all add: hlen_def)
  have hb: "unat hlen \<le> 4076" "unat hlen \<le> length (concat (map fst segs))"
    using n segs(2) by (auto simp: min_def word_le_nat_alt split: if_splits)
  have "unat (20 + hlen) \<le> 4096" using hb(1) by (simp add: unat_add_ulong)
  then obtain hd rs where f: "fix_up_readers log (20 + hlen) = Some (log\<lparr>lg_head := hd, lg_readers := rs\<rparr>)" "map fst rs = map fst (lg_readers log)"
    "log_ok (log\<lparr>lg_head := hd, lg_readers := rs\<rparr>)" "offs_ok (log\<lparr>lg_head := hd, lg_readers := rs\<rparr>)"
    using fix_up_readers_total [OF ok] by blast
  note e = the_entry_ok [OF hb, of h]
  have "log_ok (written (log\<lparr>lg_head := hd, lg_readers := rs\<rparr>) (the_entry h hlen segs))"
    using f(3) e hb(1) by (intro written_ok) (auto elim!: log_okE)
  with aio_write_cases [OF f(1,3) segs n, of orig h] f ok(1) orig show ?thesis
    by (auto simp: spoiled_def log_ok_def offs_ok_def offsets_def hlen_def)
qed

section \<open>Reading\<close>

lemma pending_ConsE:
  assumes ok: "log_ok log" and p: "pending log off (e # es)"
  shows "get_entry_len log off = Some (of_nat (length e))" "ring_get (lg_buffer log) (unat off) (length e) = e"
    "entry_ok e" "length e \<le> length (lg_buffer log)"
    "pending log (logger_offset log (off + of_nat (length e))) es" "off \<noteq> lg_w_off log"
proof -
  let ?N = "length (lg_buffer log)"
  have P: "unat off < ?N" "entry_ok e" "list_all entry_ok es" "length e + length (concat es) < ?N"
    "ring_get (lg_buffer log) (unat off) (length e + length (concat es)) = e @ concat es"
    "(unat off + (length e + length (concat es))) mod ?N = unat (lg_w_off log)" using p by (auto simp: pending_def)
  have g: "ring_get (lg_buffer log) (unat off) (length e) = e"
    "ring_get (lg_buffer log) (unat off + length e) (length (concat es)) = concat es" using P(5) by (simp_all add: ring_get_add)
  show "get_entry_len log off = Some (of_nat (length e))" by (rule get_entry_len_eq [OF ok P(1,2) g(1)])
  show "ring_get (lg_buffer log) (unat off) (length e) = e" "entry_ok e" by (fact g P)+
  show le: "length e \<le> ?N" using P(4) by simp
  have "unat (of_nat (length e) :: u32) = length e" using P(2) by (intro unat_of_nat_ulong) (simp add: entry_ok_def)
  then have o: "unat (logger_offset log (off + of_nat (length e))) = (unat off + length e) mod ?N" using logger_offset_add [OF ok] by simp
  have "(unat off + length e) mod ?N < ?N" using P(1) by (intro mod_less_divisor) linarith
  then show "pending log (logger_offset log (off + of_nat (length e))) es"
    unfolding pending_def o using P g(2) by (simp add: ring_get_mod mod_add_left_eq add.assoc)
  show "off \<noteq> lg_w_off log"
  proof
    assume "off = lg_w_off log"
    then have "(unat off + (length e + length (concat es))) mod ?N = unat off" using P(6) by simp
    then have "length e + length (concat es) = 0" using ring_index [OF P(1,4)] P(4) by (auto split: if_splits)
    then show False using P(2) by (simp add: entry_ok_def)
  qed
qed

lemma pending_at_end: "log_ok log \<Longrightarrow> pending log off es \<Longrightarrow> off = lg_w_off log \<longleftrightarrow> es = []"
  using pending_ConsE(6) by (cases es) (auto simp: pending_def word_unat_eq_iff)

lemma logger_read_correct:
  assumes ok: "log_ok log" and p: "pending log off (e # es)" and n: "length e \<le> unat count"
  shows "(\<exists>d. logger_read_entry ret1 ret2 log (r, off) count = Some (Some (Inl EFAULT, d, log)) \<and> (ret1 \<noteq> 0 \<or> ret2 \<noteq> 0))
    \<or> logger_read_entry ret1 ret2 log (r, off) count
      = Some (Some (Inr (of_nat (length e)), e, set_r_off r (logger_offset log (off + of_nat (length e))) log))"
proof -
  note P = pending_ConsE [OF ok p]
  let ?n = "of_nat (length e) :: u32" and ?N = "length (lg_buffer log)"
  have un: "unat ?n = length e" using P(3) by (intro unat_of_nat_ulong) (simp add: entry_ok_def)
  have lt: "unat off < ?N" using p by (simp add: pending_def)
  define L where "L = min ?n (lg_size log - off)"
  have "unat (lg_size log - off) = ?N - unat off" using ok lt by (elim log_okE) (simp add: unat_sub_if')
  then have l: "unat L = min (length e) (?N - unat off)" unfolding L_def using un by (auto simp: min_def word_le_nat_alt)
  have ll: "unat L \<le> length e" using l by simp
  have u: "unat (?n - L) = length e - unat L" using ll un by (simp add: unat_sub_if')
  note cp = ring_copy_to_user [OF lt P(4) l]
  have rd: "logger_read_entry ret1 ret2 log (r, off) count = map_option Some (do_read_log_to_user ret1 ret2 log (r, off) ?n)"
    using P(1,6) n un by (simp add: logger_read_entry_def word_less_nat_alt)
  have c1: "\<exists>d. copy_to_user (lg_buffer log) (unat off) (unat L) (unat ret1) = Some d"
    using l lt by (simp add: copy_to_user_def)
  have c2: "\<exists>d. copy_to_user (lg_buffer log) 0 (unat (?n - L)) (unat ret2) = Some d"
    unfolding u using P(4) by (simp add: copy_to_user_def)
  note defn = do_read_log_to_user_def Let_def L_def [symmetric] prod.sel
  show ?thesis
  proof (cases "ret1 = 0 \<and> (?n = L \<or> ret2 = 0)")
    case False
    then have "\<exists>d. do_read_log_to_user ret1 ret2 log (r, off) ?n = Some (Inl EFAULT, d, log)"
      unfolding defn using c1 c2 by auto
    then show ?thesis using rd False by auto
  next
    case True
    obtain d2 where d2: "copy_to_user (lg_buffer log) 0 (length e - unat L) 0 = Some d2"
      "ring_get (lg_buffer log) (unat off) (unat L) @ d2 = ring_get (lg_buffer log) (unat off) (length e)" using cp(2) [of 0] by auto
    have d1: "copy_to_user (lg_buffer log) (unat off) (unat L) 0 = Some (ring_get (lg_buffer log) (unat off) (unat L))" using cp(1) [of 0] by simp
    have "do_read_log_to_user ret1 ret2 log (r, off) ?n = Some (Inr ?n, e, set_r_off r (logger_offset log (off + ?n)) log)"
    proof (cases "?n = L")
      case True
      then have "unat L = length e" using un by simp
      then show ?thesis unfolding defn using d1 True \<open>ret1 = 0 \<and> (?n = L \<or> ret2 = 0)\<close> P(2) by simp
    next
      case False
      then show ?thesis unfolding defn u using d1 d2 True P(2) by simp
    qed
    then show ?thesis using rd by simp
  qed
qed

section \<open>The log as a step relation\<close>

text \<open>
  \<^verbatim>\<open>logger_aio_write\<close> reads \<^verbatim>\<open>log->w_off\<close> into \<open>orig\<close> before it takes the mutex, so a writer holds a sample
  that other writers can outdate. It may be taken while another writer is in its critical section; the offsets that
  can be seen there are those after the header and after each segment.
\<close>

primrec seg_offsets :: "u32 \<Rightarrow> iovec list \<Rightarrow> u32 \<Rightarrow> logger_log \<Rightarrow> u32 list" where
  "seg_offsets hlen [] ret log = []"
| "seg_offsets hlen (seg # segs) ret log = (case seg of (d, ret1, ret2) \<Rightarrow>
     let len = min (of_nat (length d)) (hlen - ret)
     in case do_write_log_from_user ret1 ret2 log d len of
          Some (Inr nr, log) \<Rightarrow> lg_w_off log # seg_offsets hlen segs (ret + nr) log
        | _ \<Rightarrow> [])"

definition write_offsets :: "logger_entry \<Rightarrow> u32 \<Rightarrow> iovec list \<Rightarrow> logger_log \<Rightarrow> u32 list" where
  "write_offsets h ki_left segs log =
    (let hlen = min ki_left LOGGER_ENTRY_MAX_PAYLOAD; h = h\<lparr>le_len := ucast hlen\<rparr>
     in if hlen = 0 then []
        else case do { log \<leftarrow> fix_up_readers log (sizeof_logger_entry + hlen); do_write_log log (header_bytes h) sizeof_logger_entry } of
               Some log \<Rightarrow> lg_w_off log # seg_offsets hlen segs 0 log
             | None \<Rightarrow> [])"

text \<open>
  A state is the log, the entries written so far, the samples of the writers that wait for the
  mutex, and whether some write has faulted with a sample that was not the current offset. Opening, reading and control
  are single steps under the mutex; \<^verbatim>\<open>logger_release\<close>, which does not take it, is a single step too.
\<close>

record logger_sys =
  sys_log :: logger_log
  sys_hist :: "u8 list list"
  sys_orig :: "nat \<Rightarrow> u32 option"
  sys_stale :: bool

inductive logger_step :: "logger_sys \<Rightarrow> logger_sys \<Rightarrow> bool" where
  st_sample: "sys_orig s t = None \<Longrightarrow> logger_step s (s\<lparr>sys_orig := (sys_orig s)(t \<mapsto> lg_w_off (sys_log s))\<rparr>)"
| st_write: "sys_orig s t = Some orig \<Longrightarrow> list_all seg_ok segs \<Longrightarrow> unat ki_left \<le> length (concat (map fst segs)) \<Longrightarrow>
    logger_aio_write orig h ki_left segs (sys_log s) = Some (Inr n, log') \<Longrightarrow>
    ran m \<subseteq> set (write_offsets h ki_left segs (sys_log s)) \<Longrightarrow>
    logger_step s (s\<lparr>sys_log := log', sys_hist := if n = 0 then sys_hist s else sys_hist s @ [the_entry h n segs],
      sys_orig := (m ++ sys_orig s)(t := None)\<rparr>)"
| st_write_fail: "sys_orig s t = Some orig \<Longrightarrow> list_all seg_ok segs \<Longrightarrow> unat ki_left \<le> length (concat (map fst segs)) \<Longrightarrow>
    logger_aio_write orig h ki_left segs (sys_log s) = Some (Inl e, log') \<Longrightarrow>
    ran m \<subseteq> set (write_offsets h ki_left segs (sys_log s)) \<Longrightarrow>
    logger_step s (s\<lparr>sys_log := log', sys_orig := (m ++ sys_orig s)(t := None),
      sys_stale := sys_stale s \<or> orig \<noteq> lg_w_off (sys_log s)\<rparr>)"
| st_read: "reader \<in> set (lg_readers (sys_log s)) \<Longrightarrow>
    logger_read_entry ret1 ret2 (sys_log s) reader count = Some (Some (ret, d, log')) \<Longrightarrow> logger_step s (s\<lparr>sys_log := log'\<rparr>)"
| st_open: "logger_open nonseek found reader (sys_log s) = (ret, log') \<Longrightarrow> logger_step s (s\<lparr>sys_log := log'\<rparr>)"
| st_release: "logger_step s (s\<lparr>sys_log := logger_release reader (sys_log s)\<rparr>)"
| st_ioctl: "logger_ioctl cmd writable reader (sys_log s) = Some (ret, log') \<Longrightarrow> logger_step s (s\<lparr>sys_log := log'\<rparr>)"

definition logger_start :: "u8 list \<Rightarrow> nat \<Rightarrow> logger_sys" where
  "logger_start buf k = \<lparr>sys_log = define_logger_device buf (2 ^ k), sys_hist = [], sys_orig = (\<lambda>_. None), sys_stale = False\<rparr>"

lemma log_inv_offsets:
  assumes "log_inv H log" "lg_buffer log' = lg_buffer log" "lg_w_off log' = lg_w_off log" "lg_size log' = lg_size log"
    "\<And>off. off \<in> offsets log' \<Longrightarrow> off \<in> offsets log \<or> (\<exists>es. pending log off es \<and> suffix es H)"
  shows "log_inv H log'"
  using assms pending_cong [of log' log] unfolding log_inv_iff by (simp add: log_ok_def) blast

lemma pending_Nil: "log_ok log \<Longrightarrow> pending log (lg_w_off log) []"
  by (auto simp: pending_def log_ok_def)

lemma offsets_set_r_off: "offsets (set_r_off r off log) \<subseteq> insert off (offsets log)"
  by (auto simp: offsets_def set_r_off_def split: if_splits)

lemma read_step_inv:
  assumes inv: "log_inv H log" and rd: "(r, off) \<in> set (lg_readers log)"
    and step: "logger_read_entry ret1 ret2 log (r, off) count = Some (Some (ret, d, log'))"
  shows "log_inv H log'"
proof -
  have ok: "log_ok log" using inv by (simp add: log_inv_iff)
  have "off \<in> offsets log" using rd by (force simp: offsets_def)
  then obtain es where es: "pending log off es" "suffix es H" using inv by (auto simp: log_inv_iff)
  show ?thesis
  proof (cases es)
    case Nil
    then show ?thesis using step pending_at_end [OF ok es(1)] by (simp add: logger_read_entry_def)
  next
    case (Cons e es')
    note P = pending_ConsE [OF ok es(1) [unfolded Cons]]
    show ?thesis
    proof (cases "length e \<le> unat count")
      case True
      then consider "log' = log" | "log' = set_r_off r (logger_offset log (off + of_nat (length e))) log"
        using logger_read_correct [OF ok es(1) [unfolded Cons], of count ret1 ret2 r] step by auto
      then show ?thesis
      proof cases
        case 2
        have "suffix es' H" using es(2) Cons by (meson suffix_ConsD)
        then show ?thesis using P(5) offsets_set_r_off [of r _ log] unfolding 2
          by (intro log_inv_offsets [OF inv]) (auto simp: set_r_off_def)
      qed (simp add: inv)
    next
      case False
      have "unat (of_nat (length e) :: u32) = length e" using P(3) by (intro unat_of_nat_ulong) (simp add: entry_ok_def)
      then show ?thesis using step P(1,6) False inv by (simp add: logger_read_entry_def word_less_nat_alt)
    qed
  qed
qed

lemma ioctl_step_inv:
  assumes inv: "log_inv H log" and step: "logger_ioctl cmd writable reader log = Some (ret, log')"
  shows "log_inv H log'"
proof -
  have ok: "log_ok log" using inv by (simp add: log_inv_iff)
  have "log' = log \<or> log' = log\<lparr>lg_readers := map (\<lambda>(r, _). (r, lg_w_off log)) (lg_readers log), lg_head := lg_w_off log\<rparr>"
    using step by (auto simp: logger_ioctl_def bind_eq_Some_conv split: logger_cmd.splits option.splits if_splits)
  then show ?thesis
  proof
    assume l: "log' = log\<lparr>lg_readers := map (\<lambda>(r, _). (r, lg_w_off log)) (lg_readers log), lg_head := lg_w_off log\<rparr>"
    then have "offsets log' \<subseteq> {lg_w_off log}" by (auto simp: offsets_def)
    then show ?thesis using l pending_Nil [OF ok] by (intro log_inv_offsets [OF inv]) (auto intro: suffix_bot.bot_least)
  qed (simp add: inv)
qed

text \<open>The invariant of all runs: every offset is inside the buffer; and the log is a log of entries if no write has
  faulted with an outdated sample.\<close>

definition log_bounds :: "logger_log \<Rightarrow> (nat \<Rightarrow> u32 option) \<Rightarrow> bool" where
  "log_bounds log origs \<longleftrightarrow> log_ok log \<and> offs_ok log \<and> (\<forall>w\<in>ran origs. unat w < length (lg_buffer log))"

definition logger_inv :: "logger_sys \<Rightarrow> bool" where
  "logger_inv s \<longleftrightarrow> log_bounds (sys_log s) (sys_orig s) \<and> (\<not> sys_stale s \<longrightarrow> log_inv (sys_hist s) (sys_log s))"

lemma offset_lt: "log_ok log \<Longrightarrow> unat (logger_offset log n) < length (lg_buffer log)"
  unfolding logger_offset_unat by (rule mod_less_divisor) (auto elim: log_okE)

lemma write_user_offset:
  "do_write_log_from_user ret1 ret2 log d len = Some (Inr n, log') \<Longrightarrow>
    lg_size log' = lg_size log \<and> (\<exists>x. lg_w_off log' = logger_offset log x)"
  by (auto simp: do_write_log_from_user_def Let_def bind_eq_Some_conv split: if_splits)

lemma seg_offsets_masked: "w \<in> set (seg_offsets hlen segs ret log) \<Longrightarrow> \<exists>x. w = logger_offset log x"
proof (induction segs arbitrary: ret log)
  case (Cons seg segs)
  obtain d ret1 ret2 where seg: "seg = (d, ret1, ret2)" by (cases seg)
  from Cons.prems obtain nr log' where w: "do_write_log_from_user ret1 ret2 log d (min (of_nat (length d)) (hlen - ret)) = Some (Inr nr, log')"
    "w = lg_w_off log' \<or> w \<in> set (seg_offsets hlen segs (ret + nr) log')"
    by (auto simp: seg Let_def split: option.splits prod.splits sum.splits) metis+
  have "logger_offset log' = logger_offset log" using write_user_offset [OF w(1)] by (simp add: logger_offset_def fun_eq_iff)
  then show ?case using w write_user_offset [OF w(1)] Cons.IH [of "ret + nr" log'] by auto
qed simp

lemma write_offsets_bound:
  assumes "log_ok log" "w \<in> set (write_offsets h ki_left segs log)"
  shows "unat w < length (lg_buffer log)"
proof -
  obtain log1 log2 hb n len where l: "fix_up_readers log len = Some log1" "do_write_log log1 hb n = Some log2"
    "w = lg_w_off log2 \<or> w \<in> set (seg_offsets (min ki_left LOGGER_ENTRY_MAX_PAYLOAD) segs 0 log2)"
    using assms(2) by (auto simp: write_offsets_def Let_def bind_eq_Some_conv split: option.splits if_splits)
  have "lg_size log1 = lg_size log" using l(1) by (auto simp: fix_up_readers_def bind_eq_Some_conv)
  moreover have "lg_size log2 = lg_size log1 \<and> (\<exists>x. lg_w_off log2 = logger_offset log1 x)"
    using l(2) by (auto simp: do_write_log_def Let_def bind_eq_Some_conv split: if_splits)
  ultimately have "\<exists>x. w = logger_offset log x" using l(3) seg_offsets_masked [of w _ segs 0 log2]
    by (auto simp: logger_offset_def)
  then show ?thesis using offset_lt [OF assms(1)] by auto
qed

text \<open>A step that leaves the buffer and the write offset alone.\<close>

lemma log_bounds_offsets:
  assumes "log_bounds log origs" "lg_buffer log' = lg_buffer log" "lg_w_off log' = lg_w_off log" "lg_size log' = lg_size log"
    "\<And>off. off \<in> offsets log' \<Longrightarrow> off \<in> offsets log \<or> unat off < length (lg_buffer log)"
  shows "log_bounds log' origs"
  using assms by (auto simp: log_bounds_def log_ok_def offs_ok_def)

lemma read_step_bounds:
  assumes "log_bounds log origs" "logger_read_entry ret1 ret2 log (r, off) count = Some (Some (ret, d, log'))"
  shows "log_bounds log' origs"
proof -
  have ok: "log_ok log" using assms(1) by (simp add: log_bounds_def)
  have "log' = log \<or> (\<exists>x. log' = set_r_off r (logger_offset log x) log)" using assms(2)
    by (auto simp: logger_read_entry_def do_read_log_to_user_def Let_def bind_eq_Some_conv split: if_splits)
  then show ?thesis
  proof (elim disjE exE)
    fix x assume l: "log' = set_r_off r (logger_offset log x) log"
    show ?thesis unfolding l using offsets_set_r_off [of r "logger_offset log x" log] offset_lt [OF ok]
      by (intro log_bounds_offsets [OF assms(1)]) (auto simp: set_r_off_def)
  qed (simp add: assms(1))
qed

lemma ioctl_step_bounds:
  assumes "log_bounds log origs" "logger_ioctl cmd writable reader log = Some (ret, log')"
  shows "log_bounds log' origs"
proof -
  have w: "unat (lg_w_off log) < length (lg_buffer log)" using assms(1) by (simp add: log_bounds_def log_ok_def)
  have "log' = log \<or> log' = log\<lparr>lg_readers := map (\<lambda>(r, _). (r, lg_w_off log)) (lg_readers log), lg_head := lg_w_off log\<rparr>"
    using assms(2) by (auto simp: logger_ioctl_def bind_eq_Some_conv split: logger_cmd.splits option.splits if_splits)
  then show ?thesis using w assms(1) by (elim disjE) (auto intro!: log_bounds_offsets [OF assms(1)] simp: offsets_def)
qed

lemma write_step_bounds:
  assumes "log_bounds log origs" "origs t = Some orig" "list_all seg_ok segs" "unat ki_left \<le> length (concat (map fst segs))"
    "logger_aio_write orig h ki_left segs log = Some (ret, log')" "ran m \<subseteq> set (write_offsets h ki_left segs log)"
  shows "log_bounds log' ((m ++ origs)(t := None))"
proof -
  have ok: "log_ok log" "offs_ok log" "unat orig < length (lg_buffer log)" using assms(1,2) by (auto simp: log_bounds_def ran_def)
  have "log_ok log'" "offs_ok log'" "length (lg_buffer log') = length (lg_buffer log)"
    using logger_aio_write_total [OF ok(1,2) assms(3,4) ok(3), of h] assms(5) by auto
  moreover have "unat w < length (lg_buffer log)" if "w \<in> ran ((m ++ origs)(t := None))" for w
  proof -
    have "w \<in> ran m \<or> w \<in> ran origs" using that by (auto simp: ran_def map_add_Some_iff split: if_splits)
    then show ?thesis using assms(1,6) write_offsets_bound [OF ok(1), of w h ki_left segs] by (auto simp: log_bounds_def)
  qed
  ultimately show ?thesis by (simp add: log_bounds_def)
qed

lemma null_write:
  "min ki_left 4076 = (0 :: u32) \<Longrightarrow> logger_aio_write orig h ki_left segs log = Some (Inr 0, log)"
  by (simp add: logger_aio_write_def Let_def LOGGER_ENTRY_MAX_PAYLOAD_def LOGGER_ENTRY_MAX_LEN_def sizeof_logger_entry_def)

lemma write_step_inv:
  assumes "log_inv H log" "list_all seg_ok segs" "unat ki_left \<le> length (concat (map fst segs))"
    "logger_aio_write orig h ki_left segs log = Some (ret, log')"
  shows "case ret of Inr n \<Rightarrow> log_inv (if n = 0 then H else H @ [the_entry h n segs]) log'
    | Inl _ \<Rightarrow> orig = lg_w_off log \<longrightarrow> log_inv H log'"
proof (cases "min ki_left 4076 = (0 :: u32)")
  case True
  then show ?thesis using assms null_write by auto
next
  case False
  then show ?thesis using logger_aio_write_correct [OF assms(1-3) refl False, of orig h] assms(4) by (auto split: sum.splits)
qed

lemma open_step_log:
  assumes "logger_open nonseek found reader log = (ret, log')"
  shows "log' = log \<or> (\<exists>r. log' = log\<lparr>lg_readers := lg_readers log @ [(r, lg_head log)]\<rparr>)"
  using assms by (auto simp: logger_open_def split: sum.splits option.splits if_splits)

lemma logger_step_inv: "logger_step s s' \<Longrightarrow> logger_inv s \<Longrightarrow> logger_inv s'"
proof (induction rule: logger_step.induct)
  case (st_sample s t)
  have "unat (lg_w_off (sys_log s)) < length (lg_buffer (sys_log s))"
    using st_sample(2) by (simp add: logger_inv_def log_bounds_def log_ok_def)
  then show ?case using st_sample by (auto simp: logger_inv_def log_bounds_def ran_def)
next
  case (st_write s t orig segs ki_left h n log' m)
  then show ?case using write_step_bounds [where origs = "sys_orig s", OF _ st_write(1-5)] write_step_inv [OF _ st_write(2-4)] by (simp add: logger_inv_def)
next
  case (st_write_fail s t orig segs ki_left h e log' m)
  then show ?case using write_step_bounds [where origs = "sys_orig s", OF _ st_write_fail(1-5)] write_step_inv [OF _ st_write_fail(2-4)] by (simp add: logger_inv_def)
next
  case (st_read reader s ret1 ret2 count ret d log')
  obtain r off where r: "reader = (r, off)" by (cases reader)
  show ?case using st_read(3) read_step_bounds [OF _ st_read(2) [unfolded r]] read_step_inv [OF _ st_read(1,2) [unfolded r]]
    by (simp add: logger_inv_def)
next
  case (st_open nonseek found reader s ret log')
  have "log_bounds log' (sys_orig s)" if "log_bounds (sys_log s) (sys_orig s)"
    using open_step_log [OF st_open(1)] that by (elim disjE exE) (auto intro!: log_bounds_offsets [OF that] simp: offsets_def)
  moreover have "log_inv (sys_hist s) log'" if "log_inv (sys_hist s) (sys_log s)"
    using open_step_log [OF st_open(1)] that by (elim disjE exE) (auto intro!: log_inv_offsets [OF that] simp: offsets_def)
  ultimately show ?case using st_open(2) by (simp add: logger_inv_def)
next
  case (st_release s reader)
  have "log_bounds (logger_release reader (sys_log s)) (sys_orig s)" if "log_bounds (sys_log s) (sys_orig s)"
    using that by (cases reader) (auto intro!: log_bounds_offsets [OF that] simp: logger_release_def offsets_def)
  moreover have "log_inv (sys_hist s) (logger_release reader (sys_log s))" if "log_inv (sys_hist s) (sys_log s)"
    using that by (cases reader) (auto intro!: log_inv_offsets [OF that] simp: logger_release_def offsets_def)
  ultimately show ?case using st_release by (simp add: logger_inv_def)
next
  case (st_ioctl cmd writable reader s ret log')
  then show ?case using ioctl_step_bounds [OF _ st_ioctl(1)] ioctl_step_inv [OF _ st_ioctl(1)] by (simp add: logger_inv_def)
qed

lemma logger_start_inv:
  assumes "13 \<le> k" "k < 32" "length buf = 2 ^ k"
  shows "logger_inv (logger_start buf k)"
proof -
  have ok: "log_ok (define_logger_device buf (2 ^ k))" using assms by (auto simp: log_ok_def define_logger_device_def)
  then have "log_inv [] (define_logger_device buf (2 ^ k))" using pending_Nil
    by (fastforce simp: log_inv_iff offsets_def define_logger_device_def)
  moreover have "offs_ok (define_logger_device buf (2 ^ k))" using assms(3) by (simp add: offs_ok_def offsets_def define_logger_device_def)
  ultimately show ?thesis using ok by (simp add: logger_inv_def logger_start_def log_bounds_def)
qed

interpretation lg: invariant_system logger_step
  "\<lambda>s. \<exists>k buf. s = logger_start buf k \<and> 13 \<le> k \<and> k < 32 \<and> length buf = 2 ^ k" logger_inv
  by unfold_locales (fastforce intro: logger_start_inv, rule logger_step_inv)

lemma logger_reachable_inv:
  assumes "logger_step\<^sup>*\<^sup>* (logger_start buf k) s" "13 \<le> k" "k < 32" "length buf = 2 ^ k"
  shows "logger_inv s"
  using assms by (blast intro: lg.reachable_inv)

text \<open>A reader that the write does not lap stays where it is.\<close>

lemma fix_up_list_keeps:
  "fix_up_list log len rs = Some rs' \<Longrightarrow> (r, off) \<in> set rs \<Longrightarrow> fix_up_offset log len off = Some off \<Longrightarrow> (r, off) \<in> set rs'"
  by (induction rs arbitrary: rs') (auto simp: bind_eq_Some_conv)

lemma aio_write_reader:
  assumes ok: "log_ok log" "offs_ok log" and segs: "list_all seg_ok segs" "unat ki_left \<le> length (concat (map fst segs))"
    and call: "logger_aio_write orig h ki_left segs log = Some (ret, log')" and r: "(r, off) \<in> set (lg_readers log)"
    and es: "pending log off es" "length (concat es) + 4096 < length (lg_buffer log)"
  shows "(r, off) \<in> set (lg_readers log')
    \<and> (case ret of Inl e \<Rightarrow> lg_w_off log' = orig | Inr n \<Rightarrow> n = 0 \<or> length (the_entry h n segs) \<le> 4096 \<and> pending log' off (es @ [the_entry h n segs]))"
proof (cases "min ki_left 4076 = (0 :: u32)")
  case True
  then have "ret = Inr 0" "log' = log" using call null_write [OF True, of orig h segs log] by simp_all
  then show ?thesis using r by simp
next
  case False
  define hlen where "hlen = min ki_left 4076"
  have n: "hlen = min ki_left 4076" "hlen \<noteq> 0" using False by (simp_all add: hlen_def)
  have hb: "unat hlen \<le> 4076" "unat hlen \<le> length (concat (map fst segs))"
    using n segs(2) by (auto simp: min_def word_le_nat_alt split: if_splits)
  have len: "unat (20 + hlen) = 20 + unat hlen" using hb(1) by (simp add: unat_add_ulong)
  obtain hd rs where f: "fix_up_readers log (20 + hlen) = Some (log\<lparr>lg_head := hd, lg_readers := rs\<rparr>)"
    and ok1: "log_ok (log\<lparr>lg_head := hd, lg_readers := rs\<rparr>)"
    using fix_up_readers_total [OF ok, of "20 + hlen"] len hb(1) by auto
  define log1 where "log1 = log\<lparr>lg_head := hd, lg_readers := rs\<rparr>"
  have "\<not> clock_interval (lg_w_off log) (logger_offset log (lg_w_off log + (20 + hlen))) off"
    using clock_interval_iff [OF ok(1), of "20 + hlen" off "length (concat es)"] es len hb(1) by (simp add: pending_def)
  then have "fix_up_offset log (20 + hlen) off = Some off" by (simp add: fix_up_offset_def Let_def)
  moreover have "fix_up_list log (20 + hlen) (lg_readers log) = Some rs" using f
    by (auto simp: fix_up_readers_def bind_eq_Some_conv dest!: arg_cong [where f = lg_readers])
  ultimately have r1: "(r, off) \<in> set (lg_readers log1)" using fix_up_list_keeps [OF _ r] by (simp add: log1_def)
  have p1: "pending log1 off es" using es(1) pending_cong [of log1 log] by (simp add: log1_def)
  note e = the_entry_ok [OF hb, of h]
  have "pending (written log1 (the_entry h hlen segs)) off (es @ [the_entry h hlen segs])"
    by (rule pending_write [OF ok1 [folded log1_def] p1 e(1)]) (use es(2) e(2) hb(1) in \<open>simp add: log1_def\<close>)
  with aio_write_cases [OF f [folded log1_def] ok1 [folded log1_def] segs n, of orig h] call r1 e(2) hb(1) show ?thesis
    by (auto simp: spoiled_def)
qed

section \<open>Properties\<close>


text \<open>A log of 16384 bytes with one reader and two writers that have sampled the write offset; then the first of them has
  written an entry.\<close>

definition opened_log :: logger_log where
  "opened_log = snd (logger_open (Inr ()) True (Some (Some 7)) (define_logger_device (replicate 16384 0) (2 ^ 14)))"

definition sampled_sys :: logger_sys where
  "sampled_sys = \<lparr>sys_log = opened_log, sys_hist = [], sys_orig = [1 \<mapsto> 0, 2 \<mapsto> 0], sys_stale = False\<rparr>"

definition sample_header :: logger_entry where
  "sample_header = \<lparr>le_len = 0, le_pad = 0, le_pid = 1, le_tid = 1, le_sec = 0, le_nsec = 0\<rparr>"

definition sample_entry :: "u8 list" where
  "sample_entry = the_entry sample_header 3 [([1, 2, 3], 0, 0)]"

definition sample_log :: logger_log where
  "sample_log = written opened_log sample_entry"

definition sample_sys :: logger_sys where
  "sample_sys = \<lparr>sys_log = sample_log, sys_hist = [sample_entry], sys_orig = [2 \<mapsto> 0], sys_stale = False\<rparr>"

lemma opened_log_simps [simp]:
  "lg_readers opened_log = [(7, 0)]" "lg_w_off opened_log = 0" "lg_head opened_log = 0" "length (lg_buffer opened_log) = 16384"
  "lg_size opened_log = 16384"
  by (simp_all add: opened_log_def logger_open_def define_logger_device_def)

lemma opened_log_ok: "log_ok opened_log" "offs_ok opened_log"
  by (auto simp: log_ok_def offs_ok_def offsets_def intro!: exI [of _ 14])

lemma one_seg_write:
  assumes "logger_aio_write orig h ki_left [(d, ret1, ret2)] log = Some (ret, log')"
    and "hlen = min ki_left LOGGER_ENTRY_MAX_PAYLOAD" "hlen \<noteq> 0"
  shows "\<exists>log1 log2 hb nr log3. fix_up_readers log (sizeof_logger_entry + hlen) = Some log1
    \<and> do_write_log log1 hb sizeof_logger_entry = Some log2
    \<and> do_write_log_from_user ret1 ret2 log2 d (min (of_nat (length d)) hlen) = Some (nr, log3) \<and> (isl nr \<longleftrightarrow> isl ret)"
proof -
  let ?hb = "header_bytes (h\<lparr>le_len := ucast hlen\<rparr>)"
  obtain log1 log2 x log3 where c: "fix_up_readers log (sizeof_logger_entry + hlen) = Some log1" "do_write_log log1 ?hb sizeof_logger_entry = Some log2"
    "write_segs hlen [(d, ret1, ret2)] 0 log2 = Some (x, log3)"
    "(case x of Inl e \<Rightarrow> (Inl e, log3\<lparr>lg_w_off := orig\<rparr>) | Inr n \<Rightarrow> (Inr n, log3)) = (ret, log')"
    using assms(1,3) unfolding logger_aio_write_def Let_def assms(2) [symmetric]
    by (auto simp: bind_eq_Some_conv simp del: write_segs.simps)
  have "isl x \<longleftrightarrow> isl ret" using c(4) by (cases x) auto
  moreover obtain y where y: "do_write_log_from_user ret1 ret2 log2 d (min (of_nat (length d)) hlen) = Some y" "isl (fst y) \<longleftrightarrow> isl x"
    using c(3) by (cases "do_write_log_from_user ret1 ret2 log2 d (min (of_nat (length d)) hlen)") (auto simp: Let_def split: sum.splits)
  moreover have "y = (fst y, snd y)" by simp
  ultimately show ?thesis using c(1,2) by metis
qed

lemma one_seg_fault:
  assumes "logger_aio_write orig h ki_left [(d, 0, 0)] log = Some (Inl e, log')"
  shows False
proof (cases "min ki_left LOGGER_ENTRY_MAX_PAYLOAD = 0")
  case True
  then show ?thesis using assms by (simp add: logger_aio_write_def Let_def)
next
  case False
  from one_seg_write [OF assms refl False] obtain log2 nr log3 x where
    "do_write_log_from_user 0 0 log2 d x = Some (nr, log3)" "isl nr" by auto
  then show ?thesis by (auto simp: do_write_log_from_user_def Let_def bind_eq_Some_conv)
qed

lemma one_seg_good:
  assumes "log_ok log" "logger_aio_write orig h ki_left [(d, 1, 0)] log = Some (Inr n, log')"
    "ki_left \<le> of_nat (length d)" "ki_left \<noteq> 0"
  shows False
proof -
  define hlen where "hlen = min ki_left LOGGER_ENTRY_MAX_PAYLOAD"
  have h: "hlen \<noteq> 0" "min (of_nat (length d)) hlen \<noteq> 0"
    using assms(3,4) by (auto simp: hlen_def min_def LOGGER_ENTRY_MAX_PAYLOAD_def LOGGER_ENTRY_MAX_LEN_def sizeof_logger_entry_def split: if_splits)
  from one_seg_write [OF assms(2) hlen_def h(1)] obtain log1 log2 hb nr log3 where
    c: "fix_up_readers log (sizeof_logger_entry + hlen) = Some log1" "do_write_log log1 hb sizeof_logger_entry = Some log2"
      "do_write_log_from_user 1 0 log2 d (min (of_nat (length d)) hlen) = Some (nr, log3)" "\<not> isl nr" by auto
  have s: "lg_size log1 = lg_size log" using c(1) by (auto simp: fix_up_readers_def bind_eq_Some_conv)
  have "lg_size log2 = lg_size log1 \<and> (\<exists>x. lg_w_off log2 = logger_offset log1 x)"
    using c(2) by (auto simp: do_write_log_def Let_def bind_eq_Some_conv split: if_splits)
  then obtain x where x: "lg_size log2 = lg_size log" "lg_w_off log2 = logger_offset log x" using s by (auto simp: logger_offset_def)
  have "lg_size log2 \<noteq> lg_w_off log2" using offset_lt [OF assms(1), of x] assms(1) unfolding x by (auto elim!: log_okE)
  then have "min (min (of_nat (length d)) hlen) (lg_size log2 - lg_w_off log2) \<noteq> 0" using h(2) by (auto simp: min_def)
  then show ?thesis using c(3,4) by (auto simp: do_write_log_from_user_def Let_def bind_eq_Some_conv split: if_splits)
qed

lemma sample_log_write: "logger_aio_write 0 sample_header 3 [([1, 2, 3], 0, 0)] opened_log = Some (Inr 3, sample_log)"
proof -
  have f: "fix_up_readers opened_log (20 + 3) = Some opened_log"
    by (simp add: fix_up_readers_def fix_up_offset_def Let_def clock_interval_def)
  have "list_all seg_ok [([1, 2, 3], 0, 0)]" "unat (3 :: u32) \<le> length (concat (map fst [([1, 2, 3 :: u8], 0 :: u32, 0 :: u32)]))"
    "(3 :: u32) = min 3 4076" "(3 :: u32) \<noteq> 0" by (simp_all add: seg_ok_def)
  from aio_write_cases [OF f opened_log_ok(1) this, of 0 sample_header] one_seg_fault show ?thesis
    unfolding sample_log_def sample_entry_def by blast
qed

lemma sampled_sys_reachable: "logger_step\<^sup>*\<^sup>* (logger_start (replicate 16384 0) 14) sampled_sys"
proof -
  let ?s0 = "logger_start (replicate 16384 0) 14"
  let ?s1 = "?s0\<lparr>sys_log := opened_log\<rparr>"
  let ?s2 = "?s1\<lparr>sys_orig := (sys_orig ?s1)(1 \<mapsto> lg_w_off (sys_log ?s1))\<rparr>"
  let ?s3 = "?s2\<lparr>sys_orig := (sys_orig ?s2)(2 \<mapsto> lg_w_off (sys_log ?s2))\<rparr>"
  have 1: "logger_step ?s0 ?s1" by (rule st_open) (auto simp: opened_log_def logger_start_def prod_eq_iff)
  have 2: "logger_step ?s1 ?s2" by (rule st_sample) (simp add: logger_start_def)
  have 3: "logger_step ?s2 ?s3" by (rule st_sample) (simp add: logger_start_def)
  have "?s3 = sampled_sys" by (simp add: logger_start_def sampled_sys_def)
  with converse_rtranclp_into_rtranclp [of logger_step, OF 1 converse_rtranclp_into_rtranclp [of logger_step, OF 2 r_into_rtranclp [of logger_step, OF 3]]]
  show ?thesis by (simp only:)
qed

lemma sample_sys_reachable: "logger_step\<^sup>*\<^sup>* (logger_start (replicate 16384 0) 14) sample_sys"
proof -
  have "logger_step sampled_sys (sampled_sys\<lparr>sys_log := sample_log,
      sys_hist := if (3 :: u32) = 0 then sys_hist sampled_sys else sys_hist sampled_sys @ [the_entry sample_header 3 [([1, 2, 3], 0, 0)]],
      sys_orig := (Map.empty ++ sys_orig sampled_sys)(1 := None)\<rparr>)"
    by (rule st_write [of _ 1 0 "[([1, 2, 3], 0, 0)]" 3])
      (use sample_log_write in \<open>auto simp: sampled_sys_def seg_ok_def\<close>)
  moreover have "(sampled_sys\<lparr>sys_log := sample_log,
      sys_hist := if (3 :: u32) = 0 then sys_hist sampled_sys else sys_hist sampled_sys @ [the_entry sample_header 3 [([1, 2, 3], 0, 0)]],
      sys_orig := (Map.empty ++ sys_orig sampled_sys)(1 := None)\<rparr>) = sample_sys"
    by (simp add: sampled_sys_def sample_sys_def sample_entry_def fun_eq_iff)
  ultimately show ?thesis using sampled_sys_reachable by simp
qed

lemma sample_log_reader: "(7, 0) \<in> set (lg_readers sample_log)" "lg_w_off sample_log = 23" "lg_head sample_log = 0"
  by (simp_all add: sample_log_def) (simp add: written_def logger_offset_def sample_entry_def the_entry_def)






text \<open>C99: A fault with an outdated sample loses the entry of another writer. In a log of at least 16384 bytes, two writers sample the same offset, the first writes
  an entry and returns its length, then the second faults: the write offset is back where both found
  it, so a reader that had caught up finds nothing to read, although the entry was in front of it and was reported as written.\<close>

theorem logger_stale_fault_drops_entry:
  assumes "logger_step\<^sup>*\<^sup>* (logger_start buf k) s" "13 \<le> k" "k < 32" "length buf = 2 ^ k" "16384 \<le> length (lg_buffer (sys_log s))"
    and "w = lg_w_off (sys_log s)" "sys_orig s t1 = Some w" "sys_orig s t2 = Some w" "t1 \<noteq> t2" "(r, w) \<in> set (lg_readers (sys_log s))"
    and "list_all seg_ok segs1" "unat n1 \<le> length (concat (map fst segs1))"
      "logger_aio_write w h1 n1 segs1 (sys_log s) = Some (Inr n, log1)" "n \<noteq> 0"
    and "list_all seg_ok segs2" "unat n2 \<le> length (concat (map fst segs2))"
      "logger_aio_write w h2 n2 segs2 log1 = Some (Inl e, log2)"
  shows "pending log1 w [the_entry h1 n segs1]
    \<and> (\<exists>s'. logger_step\<^sup>*\<^sup>* s s' \<and> sys_log s' = log2 \<and> sys_hist s' = sys_hist s @ [the_entry h1 n segs1])
    \<and> (r, w) \<in> set (lg_readers log2) \<and> lg_w_off log2 = w \<and> logger_read_entry ret1 ret2 log2 (r, w) count = Some None"
proof -
  have ok: "log_ok (sys_log s)" "offs_ok (sys_log s)"
    using logger_reachable_inv [OF assms(1-4)] by (simp_all add: logger_inv_def log_bounds_def)
  have wl: "unat w < length (lg_buffer (sys_log s))" using ok(1) assms(6) by (simp add: log_ok_def)
  obtain ok1: "log_ok log1" "offs_ok log1" "length (lg_buffer log1) = length (lg_buffer (sys_log s))"
    using logger_aio_write_total [OF ok assms(11,12) wl, of h1] assms(13) by auto
  have "pending (sys_log s) w []" using pending_Nil [OF ok(1)] assms(6) by simp
  from aio_write_reader [OF ok assms(11,12,13,10) this] assms(5,14)
  have a: "(r, w) \<in> set (lg_readers log1)" "pending log1 w [the_entry h1 n segs1]" "length (the_entry h1 n segs1) \<le> 4096" by auto
  from aio_write_reader [OF ok1(1,2) assms(15,16,17) a(1,2)] a(3) assms(5) ok1(3)
  have b: "(r, w) \<in> set (lg_readers log2)" "lg_w_off log2 = w" by auto
  let ?s1 = "s\<lparr>sys_log := log1, sys_hist := if n = 0 then sys_hist s else sys_hist s @ [the_entry h1 n segs1],
    sys_orig := (Map.empty ++ sys_orig s)(t1 := None)\<rparr>"
  have 1: "logger_step s ?s1" by (rule st_write [OF assms(7,11,12,13)]) simp
  have "\<exists>s'. logger_step ?s1 s' \<and> sys_log s' = log2 \<and> sys_hist s' = sys_hist s @ [the_entry h1 n segs1]"
    by (rule exI, rule conjI, rule st_write_fail [of _ t2 w segs2 n2 h2 e log2 Map.empty]) (use assms in auto)
  then obtain s' where 2: "logger_step ?s1 s'" "sys_log s' = log2" "sys_hist s' = sys_hist s @ [the_entry h1 n segs1]" by blast
  have "logger_step\<^sup>*\<^sup>* s s'" using rtranclp.rtrancl_into_rtrancl [OF r_into_rtranclp [of logger_step, OF 1] 2(1)] .
  with 2 a(2) b show ?thesis by (auto simp: logger_read_entry_def)
qed

theorem logger_stale_fault_drops_entry_witness:
  "\<exists>log2. logger_aio_write 0 sample_header 2 [([8, 9], 1, 0)] sample_log = Some (Inl EFAULT, log2)
    \<and> lg_w_off log2 = 0 \<and> (7, 0) \<in> set (lg_readers log2) \<and> logger_read_entry 0 0 log2 (7, 0) 4096 = Some None"
proof -
  have ok: "log_ok sample_log" "offs_ok sample_log" using logger_reachable_inv [OF sample_sys_reachable]
    by (simp_all add: logger_inv_def log_bounds_def sample_sys_def)
  have "0 < length (lg_buffer sample_log)" by (simp add: sample_log_def)
  then obtain ret log2 where b: "logger_aio_write 0 sample_header 2 [([8, 9], 1, 0)] sample_log = Some (ret, log2)"
    "case ret of Inl e \<Rightarrow> e = EFAULT | Inr m \<Rightarrow> m = min 2 4076"
    using logger_aio_write_total [OF ok, of "[([8, 9], 1, 0)]" 2 0 sample_header] by (auto simp: seg_ok_def)
  have ret: "ret = Inl EFAULT"
    using b one_seg_good [OF ok(1), of 0 sample_header 2 "[8, 9]" _ log2] by (cases ret) auto
  have log: "sys_log sampled_sys = opened_log" by (simp add: sampled_sys_def)
  have "(7, 0) \<in> set (lg_readers log2) \<and> lg_w_off log2 = 0 \<and> logger_read_entry 0 0 log2 (7, 0) 4096 = Some None"
    using logger_stale_fault_drops_entry [OF sampled_sys_reachable, of 0 1 2 7 "[([1, 2, 3], 0, 0)]" 3 sample_header 3 sample_log
        "[([8, 9], 1, 0)]" 2 sample_header EFAULT log2 0 0 4096] sample_log_write b(1) unfolding ret log
    by (simp add: sampled_sys_def seg_ok_def)
  then show ?thesis using b(1) ret by blast
qed

text \<open>\<^verbatim>\<open>LOGGER_GET_LOG_LEN\<close> is the number of bytes of the pending entries, \<^verbatim>\<open>LOGGER_GET_NEXT_ENTRY_LEN\<close> the length of the
  next entry or 0, and \<^verbatim>\<open>logger_poll\<close> reports input exactly when an entry is pending.\<close>

theorem logger_ioctl_lengths:
  assumes "log_ok log" "pending log off es"
  shows "\<exists>n m. logger_ioctl LOGGER_GET_LOG_LEN w (Some (r, off)) log = Some (Inr n, log) \<and> unat n = length (concat es)
    \<and> logger_ioctl LOGGER_GET_NEXT_ENTRY_LEN w (Some (r, off)) log = Some (Inr m, log)
    \<and> unat m = (case es of [] \<Rightarrow> 0 | e # _ \<Rightarrow> length e)
    \<and> (logger_poll log (Some (r, off)) AND POLLIN \<noteq> 0 \<longleftrightarrow> es \<noteq> [])"
proof -
  let ?N = "length (lg_buffer log)" and ?d = "length (concat es)"
  have P: "unat off < ?N" "?d < ?N" "(unat off + ?d) mod ?N = unat (lg_w_off log)" using assms(2) by (auto simp: pending_def)
  have w: "unat (lg_w_off log) = (if unat off + ?d < ?N then unat off + ?d else unat off + ?d - ?N)"
    using ring_index [OF P(1,2)] P(3) by simp
  have sz: "unat (lg_size log) = ?N" using assms(1) by (auto elim: log_okE)
  let ?n = "if off \<le> lg_w_off log then lg_w_off log - off else lg_size log - off + lg_w_off log"
  have n: "unat ?n = ?d"
  proof (cases "unat off + ?d < ?N")
    case True
    then show ?thesis using w by (simp add: word_le_nat_alt unat_sub_if')
  next
    case False
    have s: "unat (lg_size log - off) = ?N - unat off" using sz P(1) by (simp add: unat_sub_if')
    have "unat (lg_size log - off) + unat (lg_w_off log) < 2 ^ 32" using s w False P unat_ulong_lt [of "lg_size log"] sz by simp
    moreover have "unat (lg_w_off log) < unat off" using False w P(1,2) by simp
    ultimately show ?thesis using False w s P(1,2) by (simp add: word_le_nat_alt unat_add_ulong)
  qed
  have poll: "logger_poll log (Some (r, off)) AND POLLIN \<noteq> 0 \<longleftrightarrow> es \<noteq> []"
    using pending_at_end [OF assms] by (auto simp: logger_poll_def Let_def POLLIN_def POLLOUT_def POLLRDNORM_def POLLWRNORM_def)
  show ?thesis
  proof (cases es)
    case Nil
    then show ?thesis using n poll pending_at_end [OF assms] by (auto simp: logger_ioctl_def)
  next
    case (Cons e es')
    note Q = pending_ConsE [OF assms(1) assms(2) [unfolded Cons]]
    have "unat (of_nat (length e) :: u32) = length e" using Q(3) by (intro unat_of_nat_ulong) (simp add: entry_ok_def)
    then show ?thesis using n poll Cons Q(1,6) by (auto simp: logger_ioctl_def)
  qed
qed

theorem logger_ioctl_lengths_witness:
  "\<exists>n. logger_ioctl LOGGER_GET_LOG_LEN False (Some (7, 0)) opened_log = Some (Inr n, opened_log) \<and> unat n = 0"
  using logger_ioctl_lengths [OF opened_log_ok(1) pending_Nil, of False 7] opened_log_ok(1) by fastforce

end
