(* ===== verification/Semaphore.thy ===== *)
theory Semaphore
  imports Kernel_Prelude
begin

text \<open>
  The counting semaphore of \<^verbatim>\<open>kernel/semaphore.c\<close>. Each region under \<^verbatim>\<open>sem->lock\<close> is one operation; a task that
  has to wait leaves the lock, sleeps, and resumes in a later operation. The step relation interleaves
  any number of tasks, with signals, timeouts and calls of \<^verbatim>\<open>up\<close> at any moment.
\<close>

unbundle bit_operations_syntax

section \<open>State and operations\<close>

text \<open>The waiters are the tasks on \<^verbatim>\<open>wait_list\<close>; \<open>waiter_up\<close> is the flag of the waiter on the stack of a task.\<close>

record semaphore =
  sem_count :: u32
  wait_list :: "nat list"
  waiter_up :: "nat \<Rightarrow> bool"

definition sema_init :: "u32 \<Rightarrow> semaphore" where
  "sema_init n = \<lparr>sem_count = n, wait_list = [], waiter_up = (\<lambda>_. False)\<rparr>"

definition TASK_INTERRUPTIBLE :: ulong where "TASK_INTERRUPTIBLE = 1"
definition TASK_UNINTERRUPTIBLE :: ulong where "TASK_UNINTERRUPTIBLE = 2"
definition TASK_WAKEKILL :: ulong where "TASK_WAKEKILL = 128"
definition TASK_KILLABLE :: ulong where "TASK_KILLABLE = TASK_WAKEKILL OR TASK_UNINTERRUPTIBLE"

definition MAX_SCHEDULE_TIMEOUT :: int where "MAX_SCHEDULE_TIMEOUT = 2 ^ 31 - 1"

text \<open>\<open>pending\<close>: the task has a signal; \<open>fatal\<close>: the task has a fatal signal.\<close>

definition signal_pending_state :: "ulong \<Rightarrow> bool \<Rightarrow> bool \<Rightarrow> bool" where
  "signal_pending_state st pending fatal =
    (if st AND (TASK_INTERRUPTIBLE OR TASK_WAKEKILL) = 0 then False
     else if \<not> pending then False
     else st AND TASK_INTERRUPTIBLE \<noteq> 0 \<or> fatal)"

text \<open>The outcome of a region under the lock: the task sleeps or the function returns.\<close>

datatype down_result = Sleep | Ret "unit kresult"

text \<open>One pass of the loop of \<^verbatim>\<open>__down_common\<close> up to \<^verbatim>\<open>schedule_timeout\<close>.\<close>

definition down_common_check :: "ulong \<Rightarrow> int \<Rightarrow> bool \<Rightarrow> bool \<Rightarrow> nat \<Rightarrow> semaphore \<Rightarrow> down_result \<times> semaphore" where
  "down_common_check st timeout pending fatal t sem =
    (if signal_pending_state st pending fatal then (Ret (Inl EINTR), sem\<lparr>wait_list := remove1 t (wait_list sem)\<rparr>)
     else if timeout \<le> 0 then (Ret (Inl ETIME), sem\<lparr>wait_list := remove1 t (wait_list sem)\<rparr>)
     else (Sleep, sem))"

definition down_common_enter :: "ulong \<Rightarrow> int \<Rightarrow> bool \<Rightarrow> bool \<Rightarrow> nat \<Rightarrow> semaphore \<Rightarrow> down_result \<times> semaphore" where
  "down_common_enter st timeout pending fatal t sem =
    down_common_check st timeout pending fatal t
      (sem\<lparr>wait_list := wait_list sem @ [t], waiter_up := (waiter_up sem)(t := False)\<rparr>)"

text \<open>The task is back from \<^verbatim>\<open>schedule_timeout\<close>, which returned \<open>timeout\<close>.\<close>

definition down_common_resume :: "ulong \<Rightarrow> int \<Rightarrow> bool \<Rightarrow> bool \<Rightarrow> nat \<Rightarrow> semaphore \<Rightarrow> down_result \<times> semaphore" where
  "down_common_resume st timeout pending fatal t sem =
    (if waiter_up sem t then (Ret (Inr ()), sem) else down_common_check st timeout pending fatal t sem)"

text \<open>The shape that the functions which may sleep share.\<close>

definition down_with :: "ulong \<Rightarrow> int \<Rightarrow> bool \<Rightarrow> bool \<Rightarrow> nat \<Rightarrow> semaphore \<Rightarrow> down_result \<times> semaphore" where
  "down_with st timeout pending fatal t sem =
    (if 0 < sem_count sem then (Ret (Inr ()), sem\<lparr>sem_count := sem_count sem - 1\<rparr>)
     else down_common_enter st timeout pending fatal t sem)"

definition down :: "bool \<Rightarrow> bool \<Rightarrow> nat \<Rightarrow> semaphore \<Rightarrow> down_result \<times> semaphore" where
  "down = down_with TASK_UNINTERRUPTIBLE MAX_SCHEDULE_TIMEOUT"

definition down_interruptible :: "bool \<Rightarrow> bool \<Rightarrow> nat \<Rightarrow> semaphore \<Rightarrow> down_result \<times> semaphore" where
  "down_interruptible = down_with TASK_INTERRUPTIBLE MAX_SCHEDULE_TIMEOUT"

definition down_killable :: "bool \<Rightarrow> bool \<Rightarrow> nat \<Rightarrow> semaphore \<Rightarrow> down_result \<times> semaphore" where
  "down_killable = down_with TASK_KILLABLE MAX_SCHEDULE_TIMEOUT"

definition down_timeout :: "int \<Rightarrow> bool \<Rightarrow> bool \<Rightarrow> nat \<Rightarrow> semaphore \<Rightarrow> down_result \<times> semaphore" where
  "down_timeout jiffies = down_with TASK_UNINTERRUPTIBLE jiffies"

text \<open>The value returned is 1 for a failure.\<close>

definition down_trylock :: "semaphore \<Rightarrow> bool \<times> semaphore" where
  "down_trylock sem =
    (let count = sem_count sem - 1
     in (sint count < 0, if 0 \<le> sint count then sem\<lparr>sem_count := count\<rparr> else sem))"

definition up_wake :: "semaphore \<Rightarrow> semaphore" where
  "up_wake sem = sem\<lparr>wait_list := tl (wait_list sem), waiter_up := (waiter_up sem)(hd (wait_list sem) := True)\<rparr>"

definition up :: "semaphore \<Rightarrow> semaphore" where
  "up sem = (if wait_list sem = [] then sem\<lparr>sem_count := sem_count sem + 1\<rparr> else up_wake sem)"

section \<open>Tasks\<close>

datatype sempc = Idle | Blocked ulong

text \<open>\<open>ups\<close> and \<open>downs\<close> count the calls of \<^verbatim>\<open>up\<close> and the successful acquisitions.\<close>

record semsys =
  sysem :: semaphore
  pcs :: "nat \<Rightarrow> sempc"
  ups :: nat
  downs :: nat

definition after_down :: "nat \<Rightarrow> ulong \<Rightarrow> down_result \<times> semaphore \<Rightarrow> semsys \<Rightarrow> semsys" where
  "after_down t st r s = (case fst r of
     Sleep \<Rightarrow> s\<lparr>sysem := snd r, pcs := (pcs s)(t := Blocked st)\<rparr>
   | Ret (Inl _) \<Rightarrow> s\<lparr>sysem := snd r, pcs := (pcs s)(t := Idle)\<rparr>
   | Ret (Inr _) \<Rightarrow> s\<lparr>sysem := snd r, pcs := (pcs s)(t := Idle), downs := Suc (downs s)\<rparr>)"

inductive sem_step :: "semsys \<Rightarrow> semsys \<Rightarrow> bool" where
  s_down: "pcs s t = Idle \<Longrightarrow> sem_step s (after_down t st (down_with st timeout pending fatal t (sysem s)) s)"
| s_resume: "pcs s t = Blocked st \<Longrightarrow> sem_step s (after_down t st (down_common_resume st timeout pending fatal t (sysem s)) s)"
| s_trylock: "pcs s t = Idle \<Longrightarrow> down_trylock (sysem s) = (fail, sem') \<Longrightarrow>
    sem_step s (s\<lparr>sysem := sem', downs := if fail then downs s else Suc (downs s)\<rparr>)"
| s_up: "sem_step s (s\<lparr>sysem := up (sysem s), ups := Suc (ups s)\<rparr>)"

definition sem_start :: "u32 \<Rightarrow> semsys" where
  "sem_start n = \<lparr>sysem = sema_init n, pcs = (\<lambda>_. Idle), ups = 0, downs = 0\<rparr>"

section \<open>Invariant\<close>

text \<open>The tasks that were given the semaphore and have not resumed yet.\<close>

definition granted :: "semsys \<Rightarrow> nat set" where
  "granted s = {t. pcs s t \<noteq> Idle \<and> waiter_up (sysem s) t}"

definition sem_inv :: "u32 \<Rightarrow> semsys \<Rightarrow> bool" where
  "sem_inv n s \<longleftrightarrow> distinct (wait_list (sysem s))
     \<and> set (wait_list (sysem s)) = {t. pcs s t \<noteq> Idle \<and> \<not> waiter_up (sysem s) t}
     \<and> finite (granted s)
     \<and> (wait_list (sysem s) \<noteq> [] \<longrightarrow> sem_count (sysem s) = 0)
     \<and> (unat n + ups s < 2 ^ 32 \<longrightarrow> unat n + ups s = unat (sem_count (sysem s)) + downs s + card (granted s))"

lemma unat_dec: "0 < c \<Longrightarrow> unat c = Suc (unat (c - 1))" for c :: u32
  by (simp add: unat_minus_one word_gt_0 unat_gt_0)

lemma after_down_simps:
  "after_down t st (Sleep, sem) s = s\<lparr>sysem := sem, pcs := (pcs s)(t := Blocked st)\<rparr>"
  "after_down t st (Ret (Inl e), sem) s = s\<lparr>sysem := sem, pcs := (pcs s)(t := Idle)\<rparr>"
  "after_down t st (Ret (Inr u), sem) s = s\<lparr>sysem := sem, pcs := (pcs s)(t := Idle), downs := Suc (downs s)\<rparr>"
  by (simp_all add: after_down_def)

lemma sint_neg_iff: "sint w < 0 \<longleftrightarrow> \<not> unat w < 2 ^ 31" for w :: u32
proof -
  have "sint w < 0 \<longleftrightarrow> bit w 31" using bit_last_iff [of w] by simp
  also have "\<dots> \<longleftrightarrow> bit (unat w) 31" by (simp add: bit_unsigned_iff)
  also have "\<dots> \<longleftrightarrow> unat w div 2 ^ 31 \<noteq> 0"
  proof -
    have "unat w div 2 ^ 31 < 2" using unat_ulong_lt [of w] by (simp add: less_mult_imp_div_less)
    then have "unat w div 2 ^ 31 = 0 \<or> unat w div 2 ^ 31 = 1" by linarith
    then show ?thesis by (auto simp: bit_iff_odd)
  qed
  finally show ?thesis by (simp add: div_eq_0_iff not_less)
qed

text \<open>A task leaves the wait list, or keeps waiting, when it was not given the semaphore.\<close>

lemma check_inv:
  assumes inv: "sem_inv n s" and t: "pcs s t \<noteq> Idle" "\<not> waiter_up (sysem s) t"
  shows "sem_inv n (after_down t st (down_common_check st timeout pending fatal t (sysem s)) s)"
proof -
  have g1: "granted (s\<lparr>sysem := (sysem s)\<lparr>wait_list := w\<rparr>, pcs := (pcs s)(t := Idle)\<rparr>) = granted s" for w
    using t by (auto simp: granted_def)
  have g2: "granted (s\<lparr>pcs := (pcs s)(t := Blocked st)\<rparr>) = granted s" using t by (auto simp: granted_def)
  show ?thesis using inv t
    by (auto simp: down_common_check_def after_down_simps sem_inv_def g1 g2 set_remove1_eq)
qed

lemma sem_step_inv: "sem_step s s' \<Longrightarrow> sem_inv n s \<Longrightarrow> sem_inv n s'"
proof (induction rule: sem_step.induct)
  case (s_down s t st timeout pending fatal)
  show ?case
  proof (cases "0 < sem_count (sysem s)")
    case True
    have "granted (s\<lparr>sysem := (sysem s)\<lparr>sem_count := c\<rparr>, pcs := (pcs s)(t := Idle), downs := d\<rparr>) = granted s" for c d
      using s_down.hyps by (auto simp: granted_def)
    moreover have "(pcs s)(t := Idle) = pcs s" using s_down.hyps by auto
    moreover have "wait_list (sysem s) = []" using s_down.prems True by (auto simp: sem_inv_def)
    ultimately show ?thesis using s_down.prems unat_dec [OF True] True by (simp add: down_with_def after_down_simps sem_inv_def)
  next
    case False
    let ?sem = "(sysem s)\<lparr>wait_list := wait_list (sysem s) @ [t], waiter_up := (waiter_up (sysem s))(t := False)\<rparr>"
    let ?s = "s\<lparr>sysem := ?sem, pcs := (pcs s)(t := Blocked st)\<rparr>"
    have g: "granted ?s = granted s" using s_down.hyps by (auto simp: granted_def)
    have "sem_count (sysem s) = 0" using False by (simp add: word_gt_0)
    moreover have "t \<notin> set (wait_list (sysem s))" using s_down by (auto simp: sem_inv_def)
    ultimately have "sem_inv n ?s" using s_down by (auto simp: sem_inv_def g)
    from check_inv [OF this, of t st timeout pending fatal]
    have "sem_inv n (after_down t st (down_common_check st timeout pending fatal t ?sem) ?s)" by simp
    moreover have "after_down t st r ?s = after_down t st r s" for r
      by (simp add: after_down_def split: down_result.splits sum.splits)
    ultimately show ?thesis using False by (simp add: down_with_def down_common_enter_def)
  qed
next
  case (s_resume s t st timeout pending fatal)
  show ?case
  proof (cases "waiter_up (sysem s) t")
    case True
    then have t: "t \<in> granted s" using s_resume.hyps by (simp add: granted_def)
    let ?s = "s\<lparr>pcs := (pcs s)(t := Idle), downs := Suc (downs s)\<rparr>"
    have e: "after_down t st (down_common_resume st timeout pending fatal t (sysem s)) s = ?s"
      using True by (simp add: down_common_resume_def after_down_simps)
    have fin: "finite (granted s)" using s_resume.prems by (simp add: sem_inv_def)
    have g: "granted ?s = granted s - {t}" by (auto simp: granted_def)
    then have c: "card (granted s) = Suc (card (granted ?s))" using card_Suc_Diff1 [OF fin t] by simp
    have "{x. pcs ?s x \<noteq> Idle \<and> \<not> waiter_up (sysem s) x} = {x. pcs s x \<noteq> Idle \<and> \<not> waiter_up (sysem s) x}" using True by auto
    with s_resume.prems fin c show ?thesis unfolding e sem_inv_def by (simp add: g del: card_Diff_insert)
  next
    case False
    then show ?thesis using check_inv [OF s_resume.prems] s_resume.hyps by (simp add: down_common_resume_def)
  qed
next
  case (s_trylock s t fail sem')
  have g: "granted (s\<lparr>sysem := (sysem s)\<lparr>sem_count := c\<rparr>, downs := d\<rparr>) = granted s"
    "granted (s\<lparr>sysem := sysem s, downs := d\<rparr>) = granted s" for c d
    by (auto simp: granted_def)
  show ?case
  proof (cases "0 \<le> sint (sem_count (sysem s) - 1)")
    case True
    let ?c = "sem_count (sysem s)" and ?s = "s\<lparr>sysem := (sysem s)\<lparr>sem_count := sem_count (sysem s) - 1\<rparr>, downs := Suc (downs s)\<rparr>"
    have "?c \<noteq> 0" using True by auto
    then have "unat ?c = Suc (unat (?c - 1))" by (intro unat_dec) (simp add: word_gt_0)
    moreover have "wait_list (sysem s) = []" using s_trylock.prems \<open>?c \<noteq> 0\<close> by (auto simp: sem_inv_def)
    ultimately have "sem_inv n ?s" using s_trylock.prems unfolding sem_inv_def g(1) by simp
    moreover have "\<not> fail" "sem' = (sysem s)\<lparr>sem_count := ?c - 1\<rparr>" using s_trylock.hyps(2) True by (auto simp: down_trylock_def Let_def)
    ultimately show ?thesis by simp
  next
    case False
    then have "fail" "sem' = sysem s" using s_trylock.hyps(2) by (auto simp: down_trylock_def Let_def)
    then show ?thesis using s_trylock.prems by simp
  qed
next
  case (s_up s)
  show ?case
  proof (cases "wait_list (sysem s)")
    case Nil
    have g: "granted (s\<lparr>sysem := (sysem s)\<lparr>sem_count := c\<rparr>, ups := d\<rparr>) = granted s" for c d by (auto simp: granted_def)
    have "unat (sem_count (sysem s) + 1) = unat (sem_count (sysem s)) + 1" if "unat n + Suc (ups s) < 2 ^ 32"
      using that s_up unat_add_ulong [of "sem_count (sysem s)" 1] by (simp add: sem_inv_def)
    then show ?thesis using s_up Nil by (auto simp: up_def sem_inv_def g)
  next
    case (Cons t ts)
    then have t: "pcs s t \<noteq> Idle" "\<not> waiter_up (sysem s) t" using s_up by (auto simp: sem_inv_def)
    let ?s = "s\<lparr>sysem := up (sysem s), ups := Suc (ups s)\<rparr>"
    have g: "granted ?s = insert t (granted s)" using Cons t by (auto simp: granted_def up_def up_wake_def)
    have "t \<notin> granted s" "finite (granted s)" using t s_up by (auto simp: granted_def sem_inv_def)
    then have "card (granted ?s) = Suc (card (granted s))" "finite (granted ?s)" by (simp_all add: g)
    moreover have "{x. pcs s x \<noteq> Idle \<and> \<not> ((waiter_up (sysem s))(t := True)) x} = set ts"
      using s_up Cons by (auto simp: sem_inv_def)
    moreover have "sysem ?s = (sysem s)\<lparr>wait_list := ts, waiter_up := (waiter_up (sysem s))(t := True)\<rparr>"
      using Cons by (simp add: up_def up_wake_def)
    moreover have "sem_count (sysem s) = 0" "distinct ts" using s_up Cons by (auto simp: sem_inv_def)
    moreover have "unat n + ups s = downs s + card (granted s)" if "unat n + Suc (ups s) < 2 ^ 32"
      using that s_up Cons by (simp add: sem_inv_def)
    ultimately show ?thesis unfolding sem_inv_def by simp
  qed
qed

interpretation sema: invariant_system sem_step "\<lambda>s. s = sem_start n" "sem_inv n" for n
  by unfold_locales (simp add: sem_inv_def sem_start_def sema_init_def granted_def, rule sem_step_inv)

lemma sem_reachable_inv: "sem_step\<^sup>*\<^sup>* (sem_start n) s \<Longrightarrow> sem_inv n s"
  by (erule sema.reachable_inv) simp

section \<open>Properties\<close>

text \<open>C9: In every interleaving of tasks that acquire, time out, are interrupted and release, the acquisitions
  (completed or granted) never exceed the initial count plus the releases, and every token is accounted
  for; while a task waits ungranted the count is 0, so no release is lost; and a release hands the token to
  the task that has waited longest, which then acquires the semaphore even when a signal arrives or its
  time is over.\<close>

theorem semaphore_tokens:
  assumes "sem_step\<^sup>*\<^sup>* (sem_start n) s" "unat n + ups s < 2 ^ 32"
  shows "unat (sem_count (sysem s)) + downs s + card (granted s) = unat n + ups s
    \<and> (\<forall>t. pcs s t \<noteq> Idle \<and> \<not> waiter_up (sysem s) t \<longrightarrow> sem_count (sysem s) = 0 \<and> t \<in> set (wait_list (sysem s)))
    \<and> (\<forall>t ts st timeout pending fatal. wait_list (sysem s) = t # ts \<longrightarrow>
        down_common_resume st timeout pending fatal t (up (sysem s)) = (Ret (Inr ()), up (sysem s)) \<and> wait_list (up (sysem s)) = ts)"
proof -
  have inv: "sem_inv n s" by (rule sem_reachable_inv [OF assms(1)])
  have "sem_count (sysem s) = 0 \<and> t \<in> set (wait_list (sysem s))" if t: "pcs s t \<noteq> Idle" "\<not> waiter_up (sysem s) t" for t
  proof -
    have "t \<in> set (wait_list (sysem s))" using inv t unfolding sem_inv_def by simp
    moreover from this have "wait_list (sysem s) \<noteq> []" by auto
    ultimately show ?thesis using inv unfolding sem_inv_def by blast
  qed
  moreover have "unat (sem_count (sysem s)) + downs s + card (granted s) = unat n + ups s"
    using inv assms(2) unfolding sem_inv_def by simp
  ultimately show ?thesis by (auto simp: down_common_resume_def up_def up_wake_def)
qed

theorem semaphore_tokens_witness:
  "sem_count (sysem (after_down 3 1 (down_with 1 5 False False 3 (sema_init 1)) (sem_start 1))) = 0"
proof -
  let ?s = "after_down 3 1 (down_with 1 5 False False 3 (sema_init 1)) (sem_start 1)"
  have "sem_step (sem_start 1) ?s"
    using s_down [of "sem_start 1" 3 1 5 False False] by (simp add: sem_start_def)
  then have "sem_step\<^sup>*\<^sup>* (sem_start 1) ?s" by (rule r_into_rtranclp)
  moreover have "ups ?s = 0" "downs ?s = 1" by (simp_all add: down_with_def sema_init_def after_down_simps sem_start_def)
  ultimately show ?thesis using semaphore_tokens [of 1 ?s] by (simp add: unat_eq_zero)
qed

text \<open>An acquisition that fails leaves count and waiters as they were; it fails with \<^verbatim>\<open>-EINTR\<close> only in an
  interruptible state with a signal pending, and with \<^verbatim>\<open>-ETIME\<close> only when no time was left; \<^verbatim>\<open>down\<close> never
  fails, and \<^verbatim>\<open>down_trylock\<close> fails on a free semaphore only when the count exceeds \<open>2 ^ 31\<close>.\<close>

theorem semaphore_failures:
  assumes "sem_step\<^sup>*\<^sup>* (sem_start n) s" "pcs s t = Idle"
  shows "(case down_with st timeout pending fatal t (sysem s) of (r, sem') \<Rightarrow>
      \<forall>e. r = Ret (Inl e) \<longrightarrow> sem_count sem' = sem_count (sysem s) \<and> wait_list sem' = wait_list (sysem s)
        \<and> (e = EINTR \<and> pending \<and> st AND (TASK_INTERRUPTIBLE OR TASK_WAKEKILL) \<noteq> 0 \<or> e = ETIME \<and> timeout \<le> 0))
    \<and> (\<forall>e. fst (down pending fatal t (sysem s)) \<noteq> Ret (Inl e))
    \<and> (fst (down_trylock (sysem s)) \<longleftrightarrow> sem_count (sysem s) = 0 \<or> 2 ^ 31 < unat (sem_count (sysem s)))"
proof -
  have "sem_inv n s" by (rule sem_reachable_inv [OF assms(1)])
  then have "t \<notin> set (wait_list (sysem s))" using assms(2) by (simp add: sem_inv_def)
  then have "remove1 t (wait_list (sysem s) @ [t]) = wait_list (sysem s)" by (simp add: remove1_append)
  then have 1: "case down_with st timeout pending fatal t (sysem s) of (r, sem') \<Rightarrow>
      \<forall>e. r = Ret (Inl e) \<longrightarrow> sem_count sem' = sem_count (sysem s) \<and> wait_list sem' = wait_list (sysem s)
        \<and> (e = EINTR \<and> pending \<and> st AND (TASK_INTERRUPTIBLE OR TASK_WAKEKILL) \<noteq> 0 \<or> e = ETIME \<and> timeout \<le> 0)"
    by (auto simp: down_with_def down_common_enter_def down_common_check_def signal_pending_state_def split: if_splits)
  have 2: "fst (down pending fatal t (sysem s)) \<noteq> Ret (Inl e)" for e
    by (simp add: down_def down_with_def down_common_enter_def down_common_check_def signal_pending_state_def
        TASK_INTERRUPTIBLE_def TASK_UNINTERRUPTIBLE_def TASK_WAKEKILL_def MAX_SCHEDULE_TIMEOUT_def)
  have 3: "fst (down_trylock (sysem s)) \<longleftrightarrow> sem_count (sysem s) = 0 \<or> 2 ^ 31 < unat (sem_count (sysem s))"
  proof (cases "sem_count (sysem s) = 0")
    case False
    then have u: "unat (sem_count (sysem s)) = Suc (unat (sem_count (sysem s) - 1))" by (intro unat_dec) (simp add: word_gt_0)
    have "sint (sem_count (sysem s) - 1) < 0 \<longleftrightarrow> \<not> unat (sem_count (sysem s) - 1) < 2 ^ 31" by (rule sint_neg_iff)
    then show ?thesis unfolding u using False by (auto simp: down_trylock_def Let_def)
  qed (simp add: down_trylock_def)
  from 1 2 3 show ?thesis by blast
qed

theorem semaphore_failures_witness:
  "fst (down_trylock (sysem (sem_start 0)))"
  using semaphore_failures [of 0 "sem_start 0" 1] by (simp add: sem_start_def sema_init_def)

end
