(* ===== verification/Rwsem.thy ===== *)
theory Rwsem
  imports Kernel_Prelude "HOL-Library.Monad_Syntax"
begin

unbundle bit_operations_syntax

text \<open>The spinlock implementation of read/write semaphores of \<^verbatim>\<open>lib/rwsem-spinlock.c\<close>. Every region under
  \<^verbatim>\<open>wait_lock\<close> is one function on the semaphore; a function that may block says whether the lock was granted,
  and a blocked task goes on when its waiter's \<^verbatim>\<open>task\<close> pointer is NULL. The field \<open>task_null\<close> holds, for the
  waiter that each task has on its stack, whether that pointer is NULL. The wake-ups themselves only
  schedule tasks that test the pointer again. \<open>None\<close> stands for the use of the list head as a waiter. The counter \<open>activity\<close> is an unbounded integer; the
  bound proved below keeps it within the 32 bits of the code.\<close>

section \<open>Operations\<close>

record rwsem_waiter =
  wtask :: nat
  wflags :: u32

definition RWSEM_WAITING_FOR_READ :: u32 where "RWSEM_WAITING_FOR_READ = 1"
definition RWSEM_WAITING_FOR_WRITE :: u32 where "RWSEM_WAITING_FOR_WRITE = 2"

record rw_semaphore =
  activity :: int
  waiters :: "rwsem_waiter list"
  task_null :: "nat \<Rightarrow> bool"

text \<open>The parameter \<open>contended\<close> says that the spinlock was taken by another processor.\<close>

definition rwsem_is_locked :: "bool \<Rightarrow> rw_semaphore \<Rightarrow> bool" where
  "rwsem_is_locked contended sem \<longleftrightarrow> (if contended then True else activity sem \<noteq> 0)"

definition init_rwsem :: rw_semaphore where
  "init_rwsem = \<lparr>activity = 0, waiters = [], task_null = (\<lambda>_. False)\<rparr>"

definition for_write :: "rwsem_waiter \<Rightarrow> bool" where
  "for_write w \<longleftrightarrow> wflags w AND RWSEM_WAITING_FOR_WRITE \<noteq> 0"

definition for_read :: "rwsem_waiter \<Rightarrow> bool" where
  "for_read w \<longleftrightarrow> wflags w AND RWSEM_WAITING_FOR_READ \<noteq> 0"

text \<open>The loop that wakes the readers at the front of the queue.\<close>

fun wake_readers :: "rwsem_waiter list \<Rightarrow> (nat \<Rightarrow> bool) \<Rightarrow> int \<Rightarrow> rwsem_waiter list \<times> (nat \<Rightarrow> bool) \<times> int" where
  "wake_readers [] nul woken = ([], nul, woken)"
| "wake_readers (w # ws) nul woken =
    (if for_read w then wake_readers ws (nul(wtask w := True)) (woken + 1) else (w # ws, nul, woken))"

definition rwsem_do_wake :: "rw_semaphore \<Rightarrow> bool \<Rightarrow> rw_semaphore option" where
  "rwsem_do_wake sem wakewrite = (case waiters sem of
     [] \<Rightarrow> None
   | w # ws \<Rightarrow>
       if \<not> wakewrite \<and> for_write w then Some sem
       else if wakewrite \<and> for_write w then
         Some (sem\<lparr>activity := -1, waiters := ws, task_null := (task_null sem)(wtask w := True)\<rparr>)
       else case wake_readers (waiters sem) (task_null sem) 0 of (q, nul, woken) \<Rightarrow>
         Some (sem\<lparr>activity := activity sem + woken, waiters := q, task_null := nul\<rparr>))"

definition rwsem_wake_one_writer :: "rw_semaphore \<Rightarrow> rw_semaphore option" where
  "rwsem_wake_one_writer sem = (case waiters sem of
     [] \<Rightarrow> None
   | w # ws \<Rightarrow> Some (sem\<lparr>activity := -1, waiters := ws, task_null := (task_null sem)(wtask w := True)\<rparr>))"

definition enqueue_waiter :: "nat \<Rightarrow> u32 \<Rightarrow> rw_semaphore \<Rightarrow> rw_semaphore" where
  "enqueue_waiter t fl sem = sem\<lparr>waiters := waiters sem @ [\<lparr>wtask = t, wflags = fl\<rparr>],
     task_null := (task_null sem)(t := False)\<rparr>"

definition down_read :: "nat \<Rightarrow> rw_semaphore \<Rightarrow> bool \<times> rw_semaphore" where
  "down_read t sem =
    (if 0 \<le> activity sem \<and> waiters sem = [] then (True, sem\<lparr>activity := activity sem + 1\<rparr>)
     else (False, enqueue_waiter t RWSEM_WAITING_FOR_READ sem))"

definition down_read_trylock :: "rw_semaphore \<Rightarrow> bool \<times> rw_semaphore" where
  "down_read_trylock sem =
    (if 0 \<le> activity sem \<and> waiters sem = [] then (True, sem\<lparr>activity := activity sem + 1\<rparr>) else (False, sem))"

definition down_write_nested :: "nat \<Rightarrow> rw_semaphore \<Rightarrow> bool \<times> rw_semaphore" where
  "down_write_nested t sem =
    (if activity sem = 0 \<and> waiters sem = [] then (True, sem\<lparr>activity := -1\<rparr>)
     else (False, enqueue_waiter t RWSEM_WAITING_FOR_WRITE sem))"

definition down_write :: "nat \<Rightarrow> rw_semaphore \<Rightarrow> bool \<times> rw_semaphore" where
  "down_write t sem = down_write_nested t sem"

definition down_write_trylock :: "rw_semaphore \<Rightarrow> bool \<times> rw_semaphore" where
  "down_write_trylock sem =
    (if activity sem = 0 \<and> waiters sem = [] then (True, sem\<lparr>activity := -1\<rparr>) else (False, sem))"

definition up_read :: "rw_semaphore \<Rightarrow> rw_semaphore option" where
  "up_read sem =
    (let sem = sem\<lparr>activity := activity sem - 1\<rparr>
     in if activity sem = 0 \<and> waiters sem \<noteq> [] then rwsem_wake_one_writer sem else Some sem)"

definition up_write :: "rw_semaphore \<Rightarrow> rw_semaphore option" where
  "up_write sem =
    (let sem = sem\<lparr>activity := 0\<rparr> in if waiters sem \<noteq> [] then rwsem_do_wake sem True else Some sem)"

definition downgrade_write :: "rw_semaphore \<Rightarrow> rw_semaphore option" where
  "downgrade_write sem =
    (let sem = sem\<lparr>activity := 1\<rparr> in if waiters sem \<noteq> [] then rwsem_do_wake sem False else Some sem)"

section \<open>Tasks\<close>

text \<open>A task is outside, blocked in \<^verbatim>\<open>down_read\<close> or \<^verbatim>\<open>down_write\<close>, or holds the lock. A release whose
  function has no result would take the whole system down: \<open>rsem\<close> is then \<open>None\<close>.\<close>

datatype rwpc = Out | WaitR | WaitW | HoldR | HoldW

record rwsys =
  rsem :: "rw_semaphore option"
  rpc :: "nat \<Rightarrow> rwpc"

inductive rw_step :: "nat set \<Rightarrow> rwsys \<Rightarrow> rwsys \<Rightarrow> bool" for T where
  rw_down_read: "\<lbrakk>t \<in> T; rsem s = Some sem; rpc s t = Out; down_read t sem = (ok, sem')\<rbrakk> \<Longrightarrow>
    rw_step T s \<lparr>rsem = Some sem', rpc = (rpc s)(t := if ok then HoldR else WaitR)\<rparr>"
| rw_down_read_trylock: "\<lbrakk>t \<in> T; rsem s = Some sem; rpc s t = Out; down_read_trylock sem = (ok, sem')\<rbrakk> \<Longrightarrow>
    rw_step T s \<lparr>rsem = Some sem', rpc = (rpc s)(t := if ok then HoldR else Out)\<rparr>"
| rw_down_write: "\<lbrakk>t \<in> T; rsem s = Some sem; rpc s t = Out; down_write t sem = (ok, sem')\<rbrakk> \<Longrightarrow>
    rw_step T s \<lparr>rsem = Some sem', rpc = (rpc s)(t := if ok then HoldW else WaitW)\<rparr>"
| rw_down_write_trylock: "\<lbrakk>t \<in> T; rsem s = Some sem; rpc s t = Out; down_write_trylock sem = (ok, sem')\<rbrakk> \<Longrightarrow>
    rw_step T s \<lparr>rsem = Some sem', rpc = (rpc s)(t := if ok then HoldW else Out)\<rparr>"
| rw_resume_read: "\<lbrakk>t \<in> T; rsem s = Some sem; rpc s t = WaitR; task_null sem t\<rbrakk> \<Longrightarrow>
    rw_step T s (s\<lparr>rpc := (rpc s)(t := HoldR)\<rparr>)"
| rw_resume_write: "\<lbrakk>t \<in> T; rsem s = Some sem; rpc s t = WaitW; task_null sem t\<rbrakk> \<Longrightarrow>
    rw_step T s (s\<lparr>rpc := (rpc s)(t := HoldW)\<rparr>)"
| rw_up_read: "\<lbrakk>t \<in> T; rsem s = Some sem; rpc s t = HoldR\<rbrakk> \<Longrightarrow>
    rw_step T s \<lparr>rsem = up_read sem, rpc = (rpc s)(t := Out)\<rparr>"
| rw_up_write: "\<lbrakk>t \<in> T; rsem s = Some sem; rpc s t = HoldW\<rbrakk> \<Longrightarrow>
    rw_step T s \<lparr>rsem = up_write sem, rpc = (rpc s)(t := Out)\<rparr>"
| rw_downgrade: "\<lbrakk>t \<in> T; rsem s = Some sem; rpc s t = HoldW\<rbrakk> \<Longrightarrow>
    rw_step T s \<lparr>rsem = downgrade_write sem, rpc = (rpc s)(t := HoldR)\<rparr>"

definition rw_start :: rwsys where
  "rw_start = \<lparr>rsem = Some init_rwsem, rpc = (\<lambda>_. Out)\<rparr>"

section \<open>Invariant\<close>

definition rw_readers :: "(nat \<Rightarrow> bool) \<Rightarrow> (nat \<Rightarrow> rwpc) \<Rightarrow> nat set" where
  "rw_readers nul pc = {t. pc t = HoldR \<or> pc t = WaitR \<and> nul t}"

definition rw_writers :: "(nat \<Rightarrow> bool) \<Rightarrow> (nat \<Rightarrow> rwpc) \<Rightarrow> nat set" where
  "rw_writers nul pc = {t. pc t = HoldW \<or> pc t = WaitW \<and> nul t}"

text \<open>The queue holds exactly the blocked tasks that were not granted the lock, each with the flag of what it
  waits for.\<close>

definition queue_ok :: "rwsem_waiter list \<Rightarrow> (nat \<Rightarrow> bool) \<Rightarrow> (nat \<Rightarrow> rwpc) \<Rightarrow> bool" where
  "queue_ok q nul pc \<longleftrightarrow> distinct (map wtask q)
     \<and> wtask ` set q = {t. (pc t = WaitR \<or> pc t = WaitW) \<and> \<not> nul t}
     \<and> (\<forall>w\<in>set q. (for_read w \<longleftrightarrow> pc (wtask w) = WaitR) \<and> (for_write w \<longleftrightarrow> pc (wtask w) = WaitW))"

definition count_ok :: "int \<Rightarrow> nat set \<Rightarrow> nat set \<Rightarrow> bool" where
  "count_ok a R W \<longleftrightarrow> finite R \<and> (a = -1 \<and> R = {} \<and> (\<exists>t. W = {t}) \<or> a = int (card R) \<and> W = {})"

definition rw_ok :: "nat set \<Rightarrow> (nat \<Rightarrow> rwpc) \<Rightarrow> rw_semaphore \<Rightarrow> bool" where
  "rw_ok T pc sem \<longleftrightarrow> (\<forall>t. pc t \<noteq> Out \<longrightarrow> t \<in> T)
     \<and> queue_ok (waiters sem) (task_null sem) pc
     \<and> count_ok (activity sem) (rw_readers (task_null sem) pc) (rw_writers (task_null sem) pc)
     \<and> (waiters sem \<noteq> [] \<longrightarrow> activity sem \<noteq> 0 \<and> (0 < activity sem \<longrightarrow> for_write (hd (waiters sem))))"

lemma for_simps [simp]:
  "for_read \<lparr>wtask = t, wflags = RWSEM_WAITING_FOR_READ\<rparr>" "\<not> for_write \<lparr>wtask = t, wflags = RWSEM_WAITING_FOR_READ\<rparr>"
  "for_write \<lparr>wtask = t, wflags = RWSEM_WAITING_FOR_WRITE\<rparr>" "\<not> for_read \<lparr>wtask = t, wflags = RWSEM_WAITING_FOR_WRITE\<rparr>"
  by (simp_all add: for_read_def for_write_def RWSEM_WAITING_FOR_READ_def RWSEM_WAITING_FOR_WRITE_def)

text \<open>Blocking: a task outside joins the end of the queue.\<close>

lemma enqueue_ok:
  assumes ok: "rw_ok T pc sem" and t: "t \<in> T" "pc t = Out"
    and c: "c = WaitR \<and> fl = RWSEM_WAITING_FOR_READ \<or> c = WaitW \<and> fl = RWSEM_WAITING_FOR_WRITE"
    and a: "activity sem \<noteq> 0" and h: "waiters sem = [] \<longrightarrow> 0 < activity sem \<longrightarrow> c = WaitW"
  shows "rw_ok T (pc(t := c)) (enqueue_waiter t fl sem)"
proof -
  have nt: "t \<notin> wtask ` set (waiters sem)" using ok t by (auto simp: rw_ok_def queue_ok_def)
  then have ne: "wtask w \<noteq> t" if "w \<in> set (waiters sem)" for w using that by blast
  have q: "queue_ok (waiters sem @ [\<lparr>wtask = t, wflags = fl\<rparr>]) ((task_null sem)(t := False)) (pc(t := c))"
    using ok c t nt ne unfolding rw_ok_def queue_ok_def by auto
  have "rw_readers ((task_null sem)(t := False)) (pc(t := c)) = rw_readers (task_null sem) pc"
    "rw_writers ((task_null sem)(t := False)) (pc(t := c)) = rw_writers (task_null sem) pc"
    using t c by (auto simp: rw_readers_def rw_writers_def)
  then show ?thesis using ok t q a h c unfolding rw_ok_def enqueue_waiter_def by (auto simp: hd_append)
qed

text \<open>Giving the lock to the task at the head of the queue.\<close>

lemma queue_ok_grant:
  assumes "queue_ok (w # q) nul pc"
  shows "queue_ok q (nul(wtask w := True)) pc"
    "for_write w \<Longrightarrow> rw_writers (nul(wtask w := True)) pc = insert (wtask w) (rw_writers nul pc)
       \<and> rw_readers (nul(wtask w := True)) pc = rw_readers nul pc"
    "for_read w \<Longrightarrow> rw_readers (nul(wtask w := True)) pc = insert (wtask w) (rw_readers nul pc)
       \<and> rw_writers (nul(wtask w := True)) pc = rw_writers nul pc \<and> wtask w \<notin> rw_readers nul pc"
proof -
  from assms have d: "wtask w \<notin> wtask ` set q" "distinct (map wtask q)" by (auto simp: queue_ok_def)
  from assms have e: "insert (wtask w) (wtask ` set q) = {t. (pc t = WaitR \<or> pc t = WaitW) \<and> \<not> nul t}"
    by (simp add: queue_ok_def)
  have "wtask ` set q = {t. (pc t = WaitR \<or> pc t = WaitW) \<and> \<not> (nul(wtask w := True)) t}"
    using d(1) e by (fastforce simp: image_iff)
  then show "queue_ok q (nul(wtask w := True)) pc" using assms d by (simp add: queue_ok_def)
  have n: "\<not> nul (wtask w)" using e by blast
  have r: "for_read w \<longleftrightarrow> pc (wtask w) = WaitR" "for_write w \<longleftrightarrow> pc (wtask w) = WaitW"
    using assms by (simp_all add: queue_ok_def)
  show "for_write w \<Longrightarrow> rw_writers (nul(wtask w := True)) pc = insert (wtask w) (rw_writers nul pc)
       \<and> rw_readers (nul(wtask w := True)) pc = rw_readers nul pc"
    "for_read w \<Longrightarrow> rw_readers (nul(wtask w := True)) pc = insert (wtask w) (rw_readers nul pc)
       \<and> rw_writers (nul(wtask w := True)) pc = rw_writers nul pc \<and> wtask w \<notin> rw_readers nul pc"
    using r n by (auto simp: rw_writers_def rw_readers_def)
qed

lemma wake_readers_ok:
  assumes "wake_readers q nul k = (q', nul', k')" "queue_ok q nul pc"
    "finite (rw_readers nul pc)" "k = int (card (rw_readers nul pc)) - a"
  shows "queue_ok q' nul' pc \<and> finite (rw_readers nul' pc) \<and> k' = int (card (rw_readers nul' pc)) - a
    \<and> rw_writers nul' pc = rw_writers nul pc \<and> (q' \<noteq> [] \<longrightarrow> \<not> for_read (hd q')) \<and> k \<le> k'"
  using assms
proof (induction q arbitrary: nul k)
  case (Cons w ws)
  show ?case
  proof (cases "for_read w")
    case True
    define nw where "nw = nul(wtask w := True)"
    note g = queue_ok_grant(1) [OF Cons.prems(2), folded nw_def]
      and g3 = queue_ok_grant(3) [OF Cons.prems(2) True, folded nw_def]
    have "wake_readers ws nw (k + 1) = (q', nul', k')" using Cons.prems(1) True by (simp add: nw_def)
    from Cons.IH [OF this g] show ?thesis using g3 Cons.prems by simp
  qed (use Cons.prems in auto)
qed simp

lemma wake_readers_null: "wake_readers q nul k = (q', nul', k') \<Longrightarrow> nul t \<Longrightarrow> nul' t"
  by (induction q arbitrary: nul k) (auto split: if_splits)

lemma queue_ok_not_read: "queue_ok (w # q) nul pc \<Longrightarrow> \<not> for_read w \<longleftrightarrow> for_write w"
  by (auto simp: queue_ok_def)

text \<open>Handing the lock over when nobody holds it: to the writer at the head, or to the readers there.\<close>

lemma do_wake_ok:
  assumes q: "queue_ok (waiters sem) (task_null sem) pc" and T: "\<forall>t. pc t \<noteq> Out \<longrightarrow> t \<in> T"
    and ne: "waiters sem \<noteq> []"
    and c: "finite (rw_readers (task_null sem) pc)" "activity sem = int (card (rw_readers (task_null sem) pc))"
      "rw_writers (task_null sem) pc = {}"
    and w: "wakewrite \<longleftrightarrow> activity sem = 0"
  shows "\<exists>sem'. rwsem_do_wake sem wakewrite = Some sem' \<and> rw_ok T pc sem'
    \<and> (wakewrite \<longrightarrow> task_null sem' (wtask (hd (waiters sem))))"
proof -
  obtain x ws where ws: "waiters sem = x # ws" using ne by (cases "waiters sem") auto
  note q' = q [unfolded ws]
  show ?thesis
  proof (cases "for_write x")
    case True
    show ?thesis
    proof (cases wakewrite)
      case w1: True
      then have "rw_readers (task_null sem) pc = {}" using c w by simp
      then show ?thesis using w1 True ws c queue_ok_grant(1,2) [OF q'] T
        by (simp add: rwsem_do_wake_def rw_ok_def count_ok_def)
    next
      case w0: False
      then show ?thesis using True ws c q T w by (simp add: rwsem_do_wake_def rw_ok_def count_ok_def)
    qed
  next
    case False
    then have r: "for_read x" using queue_ok_not_read [OF q'] by simp
    obtain q2 nul2 k2 where k: "wake_readers (waiters sem) (task_null sem) 0 = (q2, nul2, k2)"
      by (cases "wake_readers (waiters sem) (task_null sem) 0")
    have k1: "wake_readers ws ((task_null sem)(wtask x := True)) 1 = (q2, nul2, k2)" using k r ws by simp
    note g3 = queue_ok_grant(3) [OF q' r] and g = queue_ok_grant(1) [OF q']
    have *: "queue_ok q2 nul2 pc \<and> finite (rw_readers nul2 pc) \<and> k2 = int (card (rw_readers nul2 pc)) - activity sem
      \<and> rw_writers nul2 pc = rw_writers ((task_null sem)(wtask x := True)) pc \<and> (q2 \<noteq> [] \<longrightarrow> \<not> for_read (hd q2)) \<and> 1 \<le> k2"
      by (rule wake_readers_ok [OF k1 g]) (use c g3 in simp_all)
    have n: "nul2 (wtask x)" using wake_readers_null [OF k1] by simp
    have "rw_readers nul2 pc \<noteq> {}" using * c by auto
    moreover have "for_write (hd q2)" if "q2 \<noteq> []" using that * queue_ok_not_read by (cases q2) auto
    ultimately show ?thesis using * k False ws g3 c T n by (simp add: rwsem_do_wake_def rw_ok_def count_ok_def)
  qed
qed

lemma wake_one_writer_ok:
  assumes "queue_ok (waiters sem) (task_null sem) pc" "\<forall>t. pc t \<noteq> Out \<longrightarrow> t \<in> T" "waiters sem \<noteq> []"
    "rw_readers (task_null sem) pc = {}" "rw_writers (task_null sem) pc = {}" "for_write (hd (waiters sem))"
  shows "\<exists>sem'. rwsem_wake_one_writer sem = Some sem' \<and> rw_ok T pc sem'
    \<and> task_null sem' (wtask (hd (waiters sem)))"
proof -
  obtain x ws where ws: "waiters sem = x # ws" using assms(3) by (cases "waiters sem") auto
  show ?thesis using assms queue_ok_grant(1,2) [of x ws "task_null sem" pc] ws
    by (simp add: rwsem_wake_one_writer_def rw_ok_def count_ok_def)
qed

text \<open>A task that was not blocked, or was already granted the lock, changes its state without the queue
  changing.\<close>

lemma queue_ok_pc:
  assumes "queue_ok q nul pc" "pc t \<in> {Out, HoldR, HoldW} \<or> nul t" "c \<notin> {WaitR, WaitW}"
  shows "queue_ok q nul (pc(t := c))"
proof -
  have e: "wtask ` set q = {t. (pc t = WaitR \<or> pc t = WaitW) \<and> \<not> nul t}" using assms(1) by (simp add: queue_ok_def)
  then have "t \<notin> wtask ` set q" using assms(2) by auto
  then have "wtask w \<noteq> t" if "w \<in> set q" for w using that by blast
  moreover have "wtask ` set q = {u. ((pc(t := c)) u = WaitR \<or> (pc(t := c)) u = WaitW) \<and> \<not> nul u}"
    using e assms(2,3) by auto
  ultimately show ?thesis using assms(1) by (auto simp: queue_ok_def)
qed

lemma readers_upd:
  "rw_readers nul (pc(t := c)) = (if c = HoldR \<or> c = WaitR \<and> nul t then insert t (rw_readers nul pc) else rw_readers nul pc - {t})"
  "rw_writers nul (pc(t := c)) = (if c = HoldW \<or> c = WaitW \<and> nul t then insert t (rw_writers nul pc) else rw_writers nul pc - {t})"
  by (auto simp: rw_readers_def rw_writers_def)

lemma mem_readers:
  "t \<in> rw_readers nul pc \<longleftrightarrow> pc t = HoldR \<or> pc t = WaitR \<and> nul t"
  "t \<in> rw_writers nul pc \<longleftrightarrow> pc t = HoldW \<or> pc t = WaitW \<and> nul t"
  by (simp_all add: rw_readers_def rw_writers_def)

lemma grant_ok:
  assumes ok: "rw_ok T pc sem" and t: "t \<in> T" "pc t = Out" and w: "waiters sem = []"
  shows "0 \<le> activity sem \<Longrightarrow> rw_ok T (pc(t := HoldR)) (sem\<lparr>activity := activity sem + 1\<rparr>)"
    "activity sem = 0 \<Longrightarrow> rw_ok T (pc(t := HoldW)) (sem\<lparr>activity := -1\<rparr>)"
proof -
  note q = queue_ok_pc [of "waiters sem" "task_null sem" pc t]
  have n: "t \<notin> rw_readers (task_null sem) pc" "t \<notin> rw_writers (task_null sem) pc"
    using t by (simp_all add: mem_readers)
  show "0 \<le> activity sem \<Longrightarrow> rw_ok T (pc(t := HoldR)) (sem\<lparr>activity := activity sem + 1\<rparr>)"
    using ok t w q [of HoldR] n by (auto simp: rw_ok_def count_ok_def readers_upd)
  show "activity sem = 0 \<Longrightarrow> rw_ok T (pc(t := HoldW)) (sem\<lparr>activity := -1\<rparr>)"
    using ok t w q [of HoldW] n by (auto simp: rw_ok_def count_ok_def readers_upd)
qed

lemma resume_ok:
  assumes ok: "rw_ok T pc sem" and t: "task_null sem t" "pc t = WaitR \<and> c = HoldR \<or> pc t = WaitW \<and> c = HoldW"
  shows "rw_ok T (pc(t := c)) sem"
proof -
  have "rw_readers (task_null sem) (pc(t := c)) = rw_readers (task_null sem) pc"
    "rw_writers (task_null sem) (pc(t := c)) = rw_writers (task_null sem) pc"
    using t by (auto simp: rw_readers_def rw_writers_def)
  then show ?thesis using ok t queue_ok_pc [of "waiters sem" "task_null sem" pc t c] by (auto simp: rw_ok_def)
qed

lemma up_read_ok:
  assumes ok: "rw_ok T pc sem" and t: "pc t = HoldR"
  shows "\<exists>sem'. up_read sem = Some sem' \<and> rw_ok T (pc(t := Out)) sem'
    \<and> (waiters sem \<noteq> [] \<and> activity sem = 1 \<longrightarrow> task_null sem' (wtask (hd (waiters sem))))"
proof -
  let ?R = "rw_readers (task_null sem) pc" and ?pc = "pc(t := Out)" and ?s = "sem\<lparr>activity := activity sem - 1\<rparr>"
  have m: "t \<in> ?R" using t by (simp add: mem_readers)
  then have a: "finite ?R" "activity sem = int (card ?R)" "rw_writers (task_null sem) pc = {}"
    using ok by (auto simp: rw_ok_def count_ok_def)
  have R: "rw_readers (task_null sem) ?pc = ?R - {t}" "rw_writers (task_null sem) ?pc = {}"
    using a(3) by (simp_all add: readers_upd)
  have c: "int (card (?R - {t})) = activity sem - 1" using a m
    by (simp add: card_Diff_singleton int_ops card_gt_0_iff Suc_leI) (metis One_nat_def Suc_leI card_gt_0_iff empty_iff of_nat_diff of_nat_1)
  have q: "queue_ok (waiters sem) (task_null sem) ?pc" using ok t by (intro queue_ok_pc) (auto simp: rw_ok_def)
  have T: "\<forall>u. ?pc u \<noteq> Out \<longrightarrow> u \<in> T" using ok by (simp add: rw_ok_def)
  have pos: "0 < activity sem" using a m by (auto simp: card_gt_0_iff)
  show ?thesis
  proof (cases "activity sem = 1 \<and> waiters sem \<noteq> []")
    case True
    then have "?R - {t} = {}" using c a(1) by simp
    moreover have "for_write (hd (waiters sem))" using ok True by (auto simp: rw_ok_def)
    ultimately show ?thesis using wake_one_writer_ok [of ?s ?pc T] q T True R by (simp add: up_read_def)
  next
    case False
    then have "rw_ok T ?pc ?s" using ok q T R c a(1) pos unfolding rw_ok_def count_ok_def by auto
    then show ?thesis using False by (auto simp: up_read_def)
  qed
qed

lemma write_released:
  assumes ok: "rw_ok T pc sem" and t: "pc t = HoldW" and c: "c = Out \<or> c = HoldR"
  shows "queue_ok (waiters sem) (task_null sem) (pc(t := c))" "\<forall>u. (pc(t := c)) u \<noteq> Out \<longrightarrow> u \<in> T"
    "rw_readers (task_null sem) (pc(t := c)) = (if c = HoldR then {t} else {})"
    "rw_writers (task_null sem) (pc(t := c)) = {}" "activity sem = -1"
proof -
  have "t \<in> rw_writers (task_null sem) pc" using t by (simp add: mem_readers)
  then have a: "activity sem = -1" "rw_readers (task_null sem) pc = {}" "rw_writers (task_null sem) pc = {t}"
    using ok by (auto simp: rw_ok_def count_ok_def)
  show "queue_ok (waiters sem) (task_null sem) (pc(t := c))"
    using ok t c by (intro queue_ok_pc) (auto simp: rw_ok_def)
  show "\<forall>u. (pc(t := c)) u \<noteq> Out \<longrightarrow> u \<in> T" using ok t by (auto simp: rw_ok_def)
  show "rw_readers (task_null sem) (pc(t := c)) = (if c = HoldR then {t} else {})"
    "rw_writers (task_null sem) (pc(t := c)) = {}" using a c by (auto simp: readers_upd)
  show "activity sem = -1" by (rule a(1))
qed

lemma up_write_ok:
  assumes "rw_ok T pc sem" "pc t = HoldW"
  shows "\<exists>sem'. up_write sem = Some sem' \<and> rw_ok T (pc(t := Out)) sem'
    \<and> (waiters sem \<noteq> [] \<longrightarrow> task_null sem' (wtask (hd (waiters sem))))"
proof (cases "waiters sem = []")
  case True
  then show ?thesis using write_released [OF assms, of Out] by (simp add: up_write_def rw_ok_def count_ok_def)
next
  case False
  then show ?thesis using write_released [OF assms, of Out]
      do_wake_ok [of "sem\<lparr>activity := 0\<rparr>" "pc(t := Out)" T True] by (simp add: up_write_def)
qed

lemma downgrade_write_ok:
  assumes "rw_ok T pc sem" "pc t = HoldW"
  shows "\<exists>sem'. downgrade_write sem = Some sem' \<and> rw_ok T (pc(t := HoldR)) sem'"
proof (cases "waiters sem = []")
  case True
  then show ?thesis using write_released [OF assms, of HoldR] by (simp add: downgrade_write_def rw_ok_def count_ok_def)
next
  case False
  then show ?thesis using write_released [OF assms, of HoldR]
      do_wake_ok [of "sem\<lparr>activity := 1\<rparr>" "pc(t := HoldR)" T False] by (simp add: downgrade_write_def)
qed

definition rw_inv :: "nat set \<Rightarrow> rwsys \<Rightarrow> bool" where
  "rw_inv T s \<longleftrightarrow> (\<exists>sem. rsem s = Some sem \<and> rw_ok T (rpc s) sem)"

lemma down_read_ok:
  assumes "rw_ok T pc sem" "t \<in> T" "pc t = Out" "down_read t sem = (ok, sem')"
  shows "rw_ok T (pc(t := if ok then HoldR else WaitR)) sem'"
proof (cases "0 \<le> activity sem \<and> waiters sem = []")
  case True
  then show ?thesis using assms grant_ok(1) [of T pc sem t] by (auto simp: down_read_def)
next
  case False
  then have "activity sem \<noteq> 0" "waiters sem = [] \<longrightarrow> 0 < activity sem \<longrightarrow> WaitR = WaitW"
    using assms(1) by (auto simp: rw_ok_def)
  then show ?thesis using assms False enqueue_ok [of T pc sem t WaitR] by (auto simp: down_read_def)
qed

lemma down_write_ok:
  assumes "rw_ok T pc sem" "t \<in> T" "pc t = Out" "down_write t sem = (ok, sem')"
  shows "rw_ok T (pc(t := if ok then HoldW else WaitW)) sem'"
proof (cases "activity sem = 0 \<and> waiters sem = []")
  case True
  then show ?thesis using assms grant_ok(2) [of T pc sem t] by (auto simp: down_write_def down_write_nested_def)
next
  case False
  then have "activity sem \<noteq> 0" using assms(1) by (auto simp: rw_ok_def)
  then show ?thesis using assms False enqueue_ok [of T pc sem t WaitW] by (auto simp: down_write_def down_write_nested_def)
qed

lemma rw_step_inv: "rw_step T s s' \<Longrightarrow> rw_inv T s \<Longrightarrow> rw_inv T s'"
proof (induction rule: rw_step.induct)
  case (rw_down_read t s sem ok sem')
  then show ?case using down_read_ok [of T "rpc s" sem t ok sem'] by (simp add: rw_inv_def)
next
  case (rw_down_read_trylock t s sem ok sem')
  moreover have "(rpc s)(t := Out) = rpc s" using rw_down_read_trylock by auto
  ultimately show ?case using grant_ok(1) [of T "rpc s" sem t]
    by (auto simp: rw_inv_def down_read_trylock_def split: if_splits)
next
  case (rw_down_write t s sem ok sem')
  then show ?case using down_write_ok [of T "rpc s" sem t ok sem'] by (simp add: rw_inv_def)
next
  case (rw_down_write_trylock t s sem ok sem')
  moreover have "(rpc s)(t := Out) = rpc s" using rw_down_write_trylock by auto
  ultimately show ?case using grant_ok(2) [of T "rpc s" sem t]
    by (auto simp: rw_inv_def down_write_trylock_def split: if_splits)
next
  case (rw_resume_read t s sem)
  then show ?case using resume_ok [of T "rpc s" sem t HoldR] by (simp add: rw_inv_def)
next
  case (rw_resume_write t s sem)
  then show ?case using resume_ok [of T "rpc s" sem t HoldW] by (simp add: rw_inv_def)
next
  case (rw_up_read t s sem)
  then show ?case using up_read_ok [of T "rpc s" sem t] by (auto simp: rw_inv_def)
next
  case (rw_up_write t s sem)
  then show ?case using up_write_ok [of T "rpc s" sem t] by (auto simp: rw_inv_def)
next
  case (rw_downgrade t s sem)
  then show ?case using downgrade_write_ok [of T "rpc s" sem t] by (auto simp: rw_inv_def)
qed

interpretation rw: invariant_system "rw_step T" "\<lambda>s. s = rw_start" "rw_inv T" for T
  by unfold_locales (simp add: rw_inv_def rw_start_def init_rwsem_def rw_ok_def queue_ok_def count_ok_def rw_readers_def rw_writers_def,
    rule rw_step_inv)

lemma rw_reachable_inv: "(rw_step T)\<^sup>*\<^sup>* rw_start s \<Longrightarrow> rw_inv T s"
  by (erule rw.reachable_inv) simp

section \<open>Specification\<close>

text \<open>What a read/write lock promises, on the sets of tasks that hold it for reading and for writing.\<close>

inductive rwlock_step :: "nat set \<times> nat set \<Rightarrow> nat set \<times> nat set \<Rightarrow> bool" where
  acquire_read: "t \<notin> R \<Longrightarrow> rwlock_step (R, {}) (insert t R, {})"
| acquire_write: "rwlock_step ({}, {}) ({}, {t})"
| release_read: "t \<in> R \<Longrightarrow> rwlock_step (R, W) (R - {t}, W)"
| release_write: "rwlock_step ({}, {t}) ({}, {})"
| downgrade: "rwlock_step ({}, {t}) ({t}, {})"

definition rw_abs :: "rwsys \<Rightarrow> nat set \<times> nat set" where
  "rw_abs s = ({t. rpc s t = HoldR}, {t. rpc s t = HoldW})"

lemma rw_inv_holders:
  assumes "rw_inv T s"
  shows "rpc s t = HoldW \<Longrightarrow> {u. rpc s u = HoldR} = {} \<and> {u. rpc s u = HoldW} = {t}"
    "rpc s t = HoldR \<Longrightarrow> {u. rpc s u = HoldW} = {}"
proof -
  obtain sem where sem: "rw_ok T (rpc s) sem" using assms by (auto simp: rw_inv_def)
  let ?R = "rw_readers (task_null sem) (rpc s)" and ?W = "rw_writers (task_null sem) (rpc s)"
  have c: "(?R = {} \<and> (\<exists>t. ?W = {t})) \<or> ?W = {}" using sem by (auto simp: rw_ok_def count_ok_def)
  have sub: "{u. rpc s u = HoldR} \<subseteq> ?R" "{u. rpc s u = HoldW} \<subseteq> ?W" by (auto simp: mem_readers)
  show "{u. rpc s u = HoldR} = {} \<and> {u. rpc s u = HoldW} = {t}" if t: "rpc s t = HoldW"
  proof -
    have "t \<in> ?W" using t by (simp add: mem_readers)
    then have "?R = {}" "?W = {t}" using c by auto
    then show ?thesis using sub t by blast
  qed
  show "{u. rpc s u = HoldW} = {}" if t: "rpc s t = HoldR"
  proof -
    have "t \<in> ?R" using t by (simp add: mem_readers)
    then have "?W = {}" using c by blast
    then show ?thesis using sub by blast
  qed
qed

lemma rw_abs_upd:
  "rw_abs (s\<lparr>rpc := (rpc s)(t := c)\<rparr>) = rw_abs \<lparr>rsem = x, rpc = (rpc s)(t := c)\<rparr>"
  "rpc s t \<notin> {HoldR, HoldW} \<Longrightarrow> c \<notin> {HoldR, HoldW} \<Longrightarrow> rw_abs \<lparr>rsem = x, rpc = (rpc s)(t := c)\<rparr> = rw_abs s"
  by (auto simp: rw_abs_def)

lemma rw_acquire:
  assumes inv: "rw_inv T \<lparr>rsem = x, rpc = (rpc s)(t := c)\<rparr>" and t: "rpc s t \<notin> {HoldR, HoldW}" and c: "c \<in> {HoldR, HoldW}"
  shows "rwlock_step (rw_abs s) (rw_abs \<lparr>rsem = x, rpc = (rpc s)(t := c)\<rparr>)"
proof (cases "c = HoldR")
  case True
  have "{u. ((rpc s)(t := c)) u = HoldR} = insert t {u. rpc s u = HoldR}" "{u. ((rpc s)(t := c)) u = HoldW} = {u. rpc s u = HoldW}"
    using t True by auto
  moreover have "{u. ((rpc s)(t := c)) u = HoldW} = {}" using rw_inv_holders(2) [OF inv, of t] True by simp
  ultimately show ?thesis using t acquire_read [of t "{u. rpc s u = HoldR}"] by (simp add: rw_abs_def)
next
  case False
  then have c: "c = HoldW" using c by simp
  have "{u. ((rpc s)(t := c)) u = HoldR} = {u. rpc s u = HoldR}" "{u. ((rpc s)(t := c)) u = HoldW} = insert t {u. rpc s u = HoldW}"
    "t \<notin> {u. rpc s u = HoldW}" using t c by auto
  moreover have "{u. ((rpc s)(t := c)) u = HoldR} = {}" "{u. ((rpc s)(t := c)) u = HoldW} = {t}"
    using rw_inv_holders(1) [OF inv, of t] c by simp_all
  ultimately have "{u. rpc s u = HoldR} = {}" "{u. rpc s u = HoldW} = {}" "{u. ((rpc s)(t := c)) u = HoldR} = {}"
    "{u. ((rpc s)(t := c)) u = HoldW} = {t}" by auto
  then show ?thesis using acquire_write [of t] by (simp add: rw_abs_def)
qed

lemma rw_release:
  assumes inv: "rw_inv T s" and t: "rpc s t \<in> {HoldR, HoldW}" and c: "c = Out \<or> c = HoldR \<and> rpc s t = HoldW"
  shows "rwlock_step (rw_abs s) (rw_abs \<lparr>rsem = x, rpc = (rpc s)(t := c)\<rparr>)"
proof (cases "rpc s t = HoldR")
  case True
  then have "{u. ((rpc s)(t := c)) u = HoldR} = {u. rpc s u = HoldR} - {t}" "{u. ((rpc s)(t := c)) u = HoldW} = {u. rpc s u = HoldW}"
    using c by auto
  then show ?thesis using True release_read [of t "{u. rpc s u = HoldR}"] by (simp add: rw_abs_def)
next
  case False
  then have h: "{u. rpc s u = HoldR} = {}" "{u. rpc s u = HoldW} = {t}" using t rw_inv_holders(1) [OF inv, of t] by simp_all
  then have "{u. ((rpc s)(t := c)) u = HoldR} = (if c = Out then {} else {t})" "{u. ((rpc s)(t := c)) u = HoldW} = {}"
    using c by (auto simp: set_eq_iff)
  then show ?thesis using h release_write [of t] downgrade [of t] by (simp add: rw_abs_def)
qed

section \<open>Properties\<close>

text \<open>C15: In every interleaving of tasks that take, try, release and downgrade a read/write semaphore, no release
  ever takes a waiter from an empty queue, a task that holds the lock for writing is the only one that holds
  it, the counter \<^verbatim>\<open>activity\<close> stays between -1 and the number of tasks, so that it does not overflow, and it
  is 0 only when nobody waits.\<close>

theorem rwsem_exclusion:
  assumes "(rw_step T)\<^sup>*\<^sup>* rw_start s" "finite T"
  shows "\<exists>sem. rsem s = Some sem \<and> -1 \<le> activity sem \<and> activity sem \<le> int (card T)
    \<and> (activity sem = 0 \<longrightarrow> waiters sem = [])
    \<and> (\<forall>t u. rpc s t = HoldW \<and> (rpc s u = HoldR \<or> rpc s u = HoldW) \<longrightarrow> u = t \<and> activity sem = -1)"
proof -
  have inv: "rw_inv T s" by (rule rw_reachable_inv [OF assms(1)])
  then obtain sem where sem: "rsem s = Some sem" "rw_ok T (rpc s) sem" by (auto simp: rw_inv_def)
  let ?R = "rw_readers (task_null sem) (rpc s)"
  have "?R \<subseteq> T" using sem(2) by (auto simp: rw_ok_def mem_readers)
  then have "card ?R \<le> card T" by (rule card_mono [OF assms(2)])
  then have "-1 \<le> activity sem" "activity sem \<le> int (card T)" using sem(2) by (auto simp: rw_ok_def count_ok_def)
  moreover have "u = t \<and> activity sem = -1" if "rpc s t = HoldW" "rpc s u = HoldR \<or> rpc s u = HoldW" for t u
    using that rw_inv_holders(1) [OF inv, of t] write_released(5) [OF sem(2), of t Out] by blast
  moreover have "activity sem = 0 \<longrightarrow> waiters sem = []" using sem(2) by (auto simp: rw_ok_def)
  ultimately show ?thesis using sem(1) by blast
qed

theorem rwsem_exclusion_witness:
  "\<exists>sem. rsem \<lparr>rsem = Some (init_rwsem\<lparr>activity := -1\<rparr>), rpc = (\<lambda>_. Out)(4 := HoldW)\<rparr> = Some sem \<and> -1 \<le> activity sem"
proof -
  have "rw_step {4} rw_start \<lparr>rsem = Some (init_rwsem\<lparr>activity := -1\<rparr>), rpc = (\<lambda>_. Out)(4 := HoldW)\<rparr>"
    using rw_down_write [of 4 "{4}" rw_start init_rwsem True "init_rwsem\<lparr>activity := -1\<rparr>"]
    by (simp add: rw_start_def down_write_def down_write_nested_def init_rwsem_def)
  then have "(rw_step {4})\<^sup>*\<^sup>* rw_start \<lparr>rsem = Some (init_rwsem\<lparr>activity := -1\<rparr>), rpc = (\<lambda>_. Out)(4 := HoldW)\<rparr>"
    by (rule r_into_rtranclp)
  from rwsem_exclusion [OF this] show ?thesis by auto
qed

text \<open>C3: The semaphore implements the specification of a read/write lock: every step of a task, seen on the sets of
  tasks that hold the lock for reading and for writing, is a step that the specification allows, or changes
  nothing.\<close>

theorem rwsem_refines:
  assumes "(rw_step T)\<^sup>*\<^sup>* rw_start s" "rw_step T s s'"
  shows "rw_abs s' = rw_abs s \<or> rwlock_step (rw_abs s) (rw_abs s')"
proof -
  have inv: "rw_inv T s" by (rule rw_reachable_inv [OF assms(1)])
  have inv': "rw_inv T s'" by (rule rw_step_inv [OF assms(2) inv])
  from assms(2) show ?thesis using inv inv'
  proof cases
    case (rw_down_read t sem ok sem')
    then show ?thesis using rw_acquire [of T "Some sem'" s t HoldR] rw_abs_upd(2) [of s t WaitR "Some sem'"] inv' by (cases ok) auto
  next
    case (rw_down_read_trylock t sem ok sem')
    then show ?thesis using rw_acquire [of T "Some sem'" s t HoldR] rw_abs_upd(2) [of s t Out "Some sem'"] inv' by (cases ok) auto
  next
    case (rw_down_write t sem ok sem')
    then show ?thesis using rw_acquire [of T "Some sem'" s t HoldW] rw_abs_upd(2) [of s t WaitW "Some sem'"] inv' by (cases ok) auto
  next
    case (rw_down_write_trylock t sem ok sem')
    then show ?thesis using rw_acquire [of T "Some sem'" s t HoldW] rw_abs_upd(2) [of s t Out "Some sem'"] inv' by (cases ok) auto
  next
    case (rw_resume_read t sem)
    then show ?thesis using rw_acquire [of T "rsem s" s t HoldR] rw_abs_upd(1) [of s t HoldR "rsem s"] inv' by (auto simp: rw_inv_def)
  next
    case (rw_resume_write t sem)
    then show ?thesis using rw_acquire [of T "rsem s" s t HoldW] rw_abs_upd(1) [of s t HoldW "rsem s"] inv' by (auto simp: rw_inv_def)
  qed (auto intro: rw_release [OF inv])
qed

theorem rwsem_refines_witness:
  "rwlock_step ({}, {}) ({}, {4})"
proof -
  let ?s' = "\<lparr>rsem = Some (init_rwsem\<lparr>activity := -1\<rparr>), rpc = (\<lambda>_. Out)(4 := HoldW)\<rparr>"
  have st: "rw_step {4} rw_start ?s'"
    using rw_down_write [of 4 "{4}" rw_start init_rwsem True "init_rwsem\<lparr>activity := -1\<rparr>"]
    by (simp add: rw_start_def down_write_def down_write_nested_def init_rwsem_def)
  have "rw_abs rw_start = ({}, {})" "rw_abs ?s' = ({}, {4})" by (auto simp: rw_abs_def rw_start_def)
  then show ?thesis using rwsem_refines [OF rtranclp.rtrancl_refl st] by simp
qed

text \<open>C32: No wake-up is lost: while tasks wait, somebody holds the lock or was granted it, and when the writer or
  the last reader releases it, the task that has waited longest is granted the lock: its waiter is cleared, and it goes on.\<close>

theorem rwsem_handover:
  assumes "(rw_step T)\<^sup>*\<^sup>* rw_start s" "rsem s = Some sem" "waiters sem = w # ws"
  shows "(\<exists>t. rpc s t = HoldR \<or> rpc s t = HoldW \<or> rpc s t \<noteq> Out \<and> task_null sem t)
    \<and> (\<forall>t. rpc s t = HoldW \<longrightarrow> (\<exists>sem'. up_write sem = Some sem' \<and> task_null sem' (wtask w)))
    \<and> (\<forall>t. rpc s t = HoldR \<and> activity sem = 1 \<longrightarrow> (\<exists>sem'. up_read sem = Some sem' \<and> task_null sem' (wtask w)))"
proof -
  have ok: "rw_ok T (rpc s) sem" using rw_reachable_inv [OF assms(1)] assms(2) by (simp add: rw_inv_def)
  then have "activity sem \<noteq> 0" using assms(3) by (simp add: rw_ok_def)
  then have "rw_readers (task_null sem) (rpc s) \<noteq> {} \<or> rw_writers (task_null sem) (rpc s) \<noteq> {}"
    using ok by (auto simp: rw_ok_def count_ok_def)
  then have "\<exists>t. rpc s t = HoldR \<or> rpc s t = HoldW \<or> rpc s t \<noteq> Out \<and> task_null sem t"
    by (metis (no_types, lifting) all_not_in_conv mem_readers(1,2) rwpc.distinct)
  then show ?thesis using up_write_ok [OF ok] up_read_ok [OF ok] assms(3) by fastforce
qed

theorem rwsem_handover_witness:
  "\<exists>sem'. up_write \<lparr>activity = -1, waiters = [\<lparr>wtask = 7, wflags = RWSEM_WAITING_FOR_READ\<rparr>], task_null = \<lambda>_. False\<rparr>
     = Some sem' \<and> task_null sem' 7"
proof -
  let ?q = "\<lparr>activity = -1, waiters = [\<lparr>wtask = 7, wflags = RWSEM_WAITING_FOR_READ\<rparr>], task_null = \<lambda>_. False\<rparr>"
  let ?s1 = "\<lparr>rsem = Some (init_rwsem\<lparr>activity := -1\<rparr>), rpc = (\<lambda>_. Out)(4 := HoldW)\<rparr>"
  let ?s2 = "\<lparr>rsem = Some ?q, rpc = (rpc ?s1)(7 := WaitR)\<rparr>"
  have "rw_step {4, 7} rw_start ?s1"
    using rw_down_write [of 4 "{4, 7}" rw_start init_rwsem True "init_rwsem\<lparr>activity := -1\<rparr>"]
    by (simp add: rw_start_def down_write_def down_write_nested_def init_rwsem_def)
  moreover have "down_read 7 (init_rwsem\<lparr>activity := -1\<rparr>) = (False, ?q)"
    by (auto simp: down_read_def enqueue_waiter_def init_rwsem_def)
  then have "rw_step {4, 7} ?s1 ?s2"
    using rw_down_read [of 7 "{4, 7}" ?s1 "init_rwsem\<lparr>activity := -1\<rparr>" False ?q] by simp
  ultimately have "(rw_step {4, 7})\<^sup>*\<^sup>* rw_start ?s2" by (meson converse_rtranclp_into_rtranclp rtranclp.rtrancl_refl)
  from rwsem_handover [OF this, of ?q] show ?thesis by auto
qed

end
