(* ===== verification/Res_Counter.thy ===== *)
theory Res_Counter
  imports Vsprintf_Number Cmdline
begin

unbundle bit_operations_syntax

text \<open>Hierarchical resource counters: \<^verbatim>\<open>kernel/res_counter.c\<close> and the inline functions of
  \<^verbatim>\<open>include/linux/res_counter.h\<close>. The counters are numbered, a parent pointer is the number of the parent, and
  the state is the function from numbers to counters. The loops along the parent pointers are partial functions: following a cycle
  would never return. What a function does under the locks it takes is one step.\<close>

section \<open>Counters\<close>

record res_counter =
  usage :: u64
  max_usage :: u64
  limit :: u64
  soft_limit :: u64
  failcnt :: u64
  parent :: "nat option"

type_synonym counters = "nat \<Rightarrow> res_counter"

definition RESOURCE_MAX :: u64 where "RESOURCE_MAX = 0x7fffffffffffffff"

text \<open>The remaining fields keep what the allocation left there: zero.\<close>

definition res_counter_init :: "res_counter \<Rightarrow> nat option \<Rightarrow> res_counter" where
  "res_counter_init counter par = counter\<lparr>limit := RESOURCE_MAX, soft_limit := RESOURCE_MAX, parent := par\<rparr>"

definition res_counter_charge_locked :: "res_counter \<Rightarrow> ulong \<Rightarrow> unit kresult \<times> res_counter" where
  "res_counter_charge_locked counter val =
    (if usage counter + ucast val > limit counter then
       (Inl ENOMEM, counter\<lparr>failcnt := failcnt counter + 1\<rparr>)
     else
       let counter = counter\<lparr>usage := usage counter + ucast val\<rparr>
       in (Inr (), if usage counter > max_usage counter then counter\<lparr>max_usage := usage counter\<rparr> else counter))"

text \<open>The warning on the console is not modelled.\<close>

definition res_counter_uncharge_locked :: "res_counter \<Rightarrow> ulong \<Rightarrow> res_counter" where
  "res_counter_uncharge_locked counter val =
    (let val = (if usage counter < ucast val then ucast (usage counter) else val)
     in counter\<lparr>usage := usage counter - ucast val\<rparr>)"

text \<open>The first loop of \<^verbatim>\<open>res_counter_charge\<close>: the counter that failed, or \<open>None\<close>.\<close>

partial_function (option) charge_loop :: "counters \<Rightarrow> nat option \<Rightarrow> ulong \<Rightarrow> (counters \<times> nat option) option" where
  "charge_loop s c val = (case c of
     None \<Rightarrow> Some (s, None)
   | Some i \<Rightarrow>
       (case res_counter_charge_locked (s i) val of
          (Inl _, r) \<Rightarrow> Some (s(i := r), Some i)
        | (Inr _, r) \<Rightarrow> charge_loop (s(i := r)) (parent r) val))"

text \<open>The loop that undoes the charges below the counter \<open>c\<close>.\<close>

partial_function (option) undo_loop :: "counters \<Rightarrow> nat option \<Rightarrow> nat \<Rightarrow> ulong \<Rightarrow> counters option" where
  "undo_loop s u c val =
    (if u = Some c then Some s
     else case u of
       None \<Rightarrow> None
     | Some i \<Rightarrow> undo_loop (s(i := res_counter_uncharge_locked (s i) val)) (parent (s i)) c val)"

text \<open>The result is the return value, the counter stored in \<^verbatim>\<open>*limit_fail_at\<close> and the counters.\<close>

definition res_counter_charge :: "counters \<Rightarrow> nat \<Rightarrow> ulong \<Rightarrow> (unit kresult \<times> nat option \<times> counters) option" where
  "res_counter_charge s counter val =
    (case charge_loop s (Some counter) val of
       None \<Rightarrow> None
     | Some (s, None) \<Rightarrow> Some (Inr (), None, s)
     | Some (s, Some c) \<Rightarrow> map_option (\<lambda>s. (Inl ENOMEM, Some c, s)) (undo_loop s (Some counter) c val))"

partial_function (option) uncharge_loop :: "counters \<Rightarrow> nat option \<Rightarrow> ulong \<Rightarrow> counters option" where
  "uncharge_loop s c val = (case c of
     None \<Rightarrow> Some s
   | Some i \<Rightarrow> uncharge_loop (s(i := res_counter_uncharge_locked (s i) val)) (parent (s i)) val)"

definition res_counter_uncharge :: "counters \<Rightarrow> nat \<Rightarrow> ulong \<Rightarrow> counters option" where
  "res_counter_uncharge s counter val = uncharge_loop s (Some counter) val"

section \<open>Limits\<close>

definition res_counter_limit_check_locked :: "res_counter \<Rightarrow> bool" where
  "res_counter_limit_check_locked cnt \<longleftrightarrow> usage cnt < limit cnt"

definition res_counter_soft_limit_check_locked :: "res_counter \<Rightarrow> bool" where
  "res_counter_soft_limit_check_locked cnt \<longleftrightarrow> usage cnt < soft_limit cnt"

definition res_counter_soft_limit_excess :: "res_counter \<Rightarrow> u64" where
  "res_counter_soft_limit_excess cnt = (if usage cnt \<le> soft_limit cnt then 0 else usage cnt - soft_limit cnt)"

definition res_counter_check_under_limit :: "res_counter \<Rightarrow> bool" where
  "res_counter_check_under_limit cnt = res_counter_limit_check_locked cnt"

definition res_counter_check_under_soft_limit :: "res_counter \<Rightarrow> bool" where
  "res_counter_check_under_soft_limit cnt = res_counter_soft_limit_check_locked cnt"

definition res_counter_reset_max :: "res_counter \<Rightarrow> res_counter" where
  "res_counter_reset_max cnt = cnt\<lparr>max_usage := usage cnt\<rparr>"

definition res_counter_reset_failcnt :: "res_counter \<Rightarrow> res_counter" where
  "res_counter_reset_failcnt cnt = cnt\<lparr>failcnt := 0\<rparr>"

definition res_counter_set_limit :: "res_counter \<Rightarrow> u64 \<Rightarrow> unit kresult \<times> res_counter" where
  "res_counter_set_limit cnt lim = (if usage cnt \<le> lim then (Inr (), cnt\<lparr>limit := lim\<rparr>) else (Inl EBUSY, cnt))"

definition res_counter_set_soft_limit :: "res_counter \<Rightarrow> u64 \<Rightarrow> unit kresult \<times> res_counter" where
  "res_counter_set_soft_limit cnt lim = (Inr (), cnt\<lparr>soft_limit := lim\<rparr>)"

section \<open>Files\<close>

datatype res_member = RES_USAGE | RES_MAX_USAGE | RES_LIMIT | RES_FAILCNT | RES_SOFT_LIMIT

text \<open>Reading and writing through the pointer that \<^verbatim>\<open>res_counter_member\<close> returns.\<close>

fun res_counter_member :: "res_counter \<Rightarrow> res_member \<Rightarrow> u64" where
  "res_counter_member counter RES_USAGE = usage counter"
| "res_counter_member counter RES_MAX_USAGE = max_usage counter"
| "res_counter_member counter RES_LIMIT = limit counter"
| "res_counter_member counter RES_FAILCNT = failcnt counter"
| "res_counter_member counter RES_SOFT_LIMIT = soft_limit counter"

fun res_counter_member_set :: "res_counter \<Rightarrow> res_member \<Rightarrow> u64 \<Rightarrow> res_counter" where
  "res_counter_member_set counter RES_USAGE v = counter\<lparr>usage := v\<rparr>"
| "res_counter_member_set counter RES_MAX_USAGE v = counter\<lparr>max_usage := v\<rparr>"
| "res_counter_member_set counter RES_LIMIT v = counter\<lparr>limit := v\<rparr>"
| "res_counter_member_set counter RES_FAILCNT v = counter\<lparr>failcnt := v\<rparr>"
| "res_counter_member_set counter RES_SOFT_LIMIT v = counter\<lparr>soft_limit := v\<rparr>"

text \<open>\<^verbatim>\<open>simple_read_from_buffer\<close> of \<^verbatim>\<open>fs/libfs.c\<close>: the bytes that reach the user and the new position; \<open>ret\<close> is
  the number of bytes that \<^verbatim>\<open>copy_to_user\<close> could not copy.\<close>

definition simple_read_from_buffer :: "nat \<Rightarrow> int \<Rightarrow> u8 list \<Rightarrow> nat \<Rightarrow> nat \<Rightarrow> (u8 list \<times> int) kresult" where
  "simple_read_from_buffer count pos buf available ret =
    (if pos < 0 then Inl EINVAL
     else if pos \<ge> int available \<or> count = 0 then Inr ([], pos)
     else
       let count = (if int count > int available - pos then nat (int available - pos) else count)
       in if ret = count then Inl EFAULT
          else Inr (take (count - ret) (drop (nat pos) buf), pos + int (count - ret)))"

text \<open>The format \<^verbatim>\<open>"%llu\n"\<close>, or the strategy of the caller, fills a buffer of 64 bytes; both give the text and
  its length.\<close>

definition sprintf_llu :: "u64 \<Rightarrow> u8 list \<times> nat" where
  "sprintf_llu val =
    (case number 64 val \<lparr>sp_flags = 0, sp_base = 10, field_width = -1, precision = -1\<rparr> (0, replicate 64 0) of
       (n, buf) \<Rightarrow> (buf[n := 10], n + 1))"

definition res_counter_read ::
  "res_counter \<Rightarrow> res_member \<Rightarrow> nat \<Rightarrow> int \<Rightarrow> (u64 \<Rightarrow> u8 list \<times> nat) option \<Rightarrow> nat \<Rightarrow> (u8 list \<times> int) kresult" where
  "res_counter_read counter mem nbytes pos read_strategy ret =
    (let val = res_counter_member counter mem;
         (buf, n) = (case read_strategy of Some f \<Rightarrow> f val | None \<Rightarrow> sprintf_llu val)
     in simple_read_from_buffer nbytes pos buf n ret)"

definition res_counter_read_u64 :: "res_counter \<Rightarrow> res_member \<Rightarrow> u64" where
  "res_counter_read_u64 counter mem = res_counter_member counter mem"

definition PAGE_ALIGN :: "u64 \<Rightarrow> u64" where
  "PAGE_ALIGN addr = (addr + (4096 - 1)) AND NOT (4096 - 1)"

definition res_counter_memparse_write_strategy :: "u8 list \<Rightarrow> u64 kresult option" where
  "res_counter_memparse_write_strategy buf = do {
     c \<leftarrow> rd buf 0;
     if c = 45 then do {
       (res, e) \<leftarrow> simple_strtoull (tl buf) 10;
       z \<leftarrow> rd e 0;
       Some (if res \<noteq> 1 \<or> z \<noteq> 0 then Inl EINVAL else Inr RESOURCE_MAX)
     } else do {
       (res, e) \<leftarrow> memparse buf;
       z \<leftarrow> rd e 0;
       Some (if z \<noteq> 0 then Inl EINVAL else Inr (PAGE_ALIGN res))
     }
   }"

definition res_counter_write ::
  "res_counter \<Rightarrow> res_member \<Rightarrow> u8 list \<Rightarrow> (u8 list \<Rightarrow> u64 kresult option) option \<Rightarrow> (unit kresult \<times> res_counter) option" where
  "res_counter_write counter mem buf write_strategy = do {
     r \<leftarrow> (case write_strategy of
        Some f \<Rightarrow> f buf
      | None \<Rightarrow> do {
          (tmp, e) \<leftarrow> simple_strtoull buf 10;
          z \<leftarrow> rd e 0;
          Some (if z \<noteq> 0 then Inl EINVAL else Inr tmp)
        });
     Some (case r of Inl _ \<Rightarrow> (Inl EINVAL, counter) | Inr tmp \<Rightarrow> (Inr (), res_counter_member_set counter mem tmp))
   }"

section \<open>The hierarchy\<close>

text \<open>A counter is initialised with a parent that exists already, so parents have smaller numbers.\<close>

definition tree_ok :: "counters \<Rightarrow> bool" where
  "tree_ok s \<longleftrightarrow> (\<forall>i p. parent (s i) = Some p \<longrightarrow> p < i)"

text \<open>The counters from \<open>i\<close> up to the root.\<close>

function path :: "counters \<Rightarrow> nat \<Rightarrow> nat list" where
  "path s i = i # (case parent (s i) of None \<Rightarrow> [] | Some p \<Rightarrow> if p < i then path s p else [])"
  by pat_completeness auto
termination by (relation "measure snd") auto

declare path.simps [simp del] charge_loop.simps [simp del] undo_loop.simps [simp del] uncharge_loop.simps [simp del]

lemma path_None: "parent (s i) = None \<Longrightarrow> path s i = [i]"
  by (subst path.simps) simp

lemma path_Some: "tree_ok s \<Longrightarrow> parent (s i) = Some p \<Longrightarrow> path s i = i # path s p"
  by (subst path.simps) (auto simp: tree_ok_def)

lemma path_le: "j \<in> set (path s i) \<Longrightarrow> j \<le> i"
proof (induction s i rule: path.induct)
  case (1 s i)
  then show ?case by (subst (asm) (2) path.simps) (force split: option.splits if_splits)
qed

lemma path_cong: "(\<And>j. parent (t j) = parent (s j)) \<Longrightarrow> path t i = path s i"
proof (induction i rule: less_induct)
  case (less i)
  show ?case using less.IH less.prems by (subst (1 2) path.simps) (auto split: option.splits)
qed

lemma tree_ok_cong: "(\<And>j. parent (t j) = parent (s j)) \<Longrightarrow> tree_ok t = tree_ok s"
  by (simp add: tree_ok_def)

lemma charge_locked_parent [simp]:
  "parent (snd (res_counter_charge_locked r val)) = parent r"
  "parent (res_counter_uncharge_locked r val) = parent r"
  by (auto simp: res_counter_charge_locked_def res_counter_uncharge_locked_def Let_def)

text \<open>Following the parents from \<open>i\<close>: a property of the path is proved from the root down.\<close>

lemma path_induct [consumes 1, case_names root child]:
  assumes "tree_ok s"
    and "\<And>i. parent (s i) = None \<Longrightarrow> path s i = [i] \<Longrightarrow> P i"
    and "\<And>i p. parent (s i) = Some p \<Longrightarrow> p < i \<Longrightarrow> path s i = i # path s p \<Longrightarrow> i \<notin> set (path s p) \<Longrightarrow> P p \<Longrightarrow> P i"
  shows "P i"
proof (induction i rule: less_induct)
  case (less i)
  show ?case
  proof (cases "parent (s i)")
    case None
    then show ?thesis using assms(2) path_None by blast
  next
    case (Some p)
    then have "p < i" using assms(1) by (simp add: tree_ok_def)
    moreover have "i \<notin> set (path s p)" using path_le [of i s p] calculation by auto
    ultimately show ?thesis using assms(3) Some path_Some [OF assms(1) Some] less.IH by blast
  qed
qed

definition fits :: "res_counter \<Rightarrow> ulong \<Rightarrow> bool" where
  "fits r val \<longleftrightarrow> usage r + ucast val \<le> limit r"

lemma charge_locked_eq:
  "fits r val \<Longrightarrow> res_counter_charge_locked r val = (Inr (), snd (res_counter_charge_locked r val))"
  "\<not> fits r val \<Longrightarrow> res_counter_charge_locked r val = (Inl ENOMEM, r\<lparr>failcnt := failcnt r + 1\<rparr>)"
  by (auto simp: res_counter_charge_locked_def fits_def Let_def not_le)

lemma charged_fields:
  assumes "fits r val"
  shows "usage (snd (res_counter_charge_locked r val)) = usage r + ucast val"
    "max_usage (snd (res_counter_charge_locked r val)) = max (max_usage r) (usage r + ucast val)"
    "limit (snd (res_counter_charge_locked r val)) = limit r" "failcnt (snd (res_counter_charge_locked r val)) = failcnt r"
  using assms by (auto simp: res_counter_charge_locked_def fits_def Let_def max_def)

text \<open>What the first loop leaves: the counters up to the first one that does not fit are charged.\<close>

definition charged :: "counters \<Rightarrow> nat list \<Rightarrow> ulong \<Rightarrow> counters" where
  "charged s js val = (\<lambda>j. if j \<in> set js then snd (res_counter_charge_locked (s j) val) else s j)"

definition fitting :: "counters \<Rightarrow> nat list \<Rightarrow> ulong \<Rightarrow> nat list" where
  "fitting s js val = takeWhile (\<lambda>j. fits (s j) val) js"

lemma charged_parent [simp]: "parent (charged s js val j) = parent (s j)"
  by (simp add: charged_def)

text \<open>The loops over the parents as loops over the path.\<close>

fun charge_list :: "counters \<Rightarrow> nat list \<Rightarrow> ulong \<Rightarrow> counters \<times> nat option" where
  "charge_list s [] val = (s, None)"
| "charge_list s (i # js) val =
    (if fits (s i) val then charge_list (s(i := snd (res_counter_charge_locked (s i) val))) js val
     else (s(i := snd (res_counter_charge_locked (s i) val)), Some i))"

definition uncharged :: "counters \<Rightarrow> nat list \<Rightarrow> ulong \<Rightarrow> counters" where
  "uncharged s js val = (\<lambda>j. if j \<in> set js then res_counter_uncharge_locked (s j) val else s j)"

lemma charge_loop_step:
  "charge_loop t (Some i) val = (let r = snd (res_counter_charge_locked (t i) val) in
     if fits (t i) val then charge_loop (t(i := r)) (parent (t i)) val else Some (t(i := r), Some i))"
proof -
  obtain x r where r: "res_counter_charge_locked (t i) val = (x, r)" by (cases "res_counter_charge_locked (t i) val")
  have p: "parent r = parent (t i)" using charge_locked_parent(1) [of "t i" val] by (simp add: r)
  show ?thesis
  proof (cases "fits (t i) val")
    case True
    then have "x = Inr ()" using charge_locked_eq(1) [of "t i" val] r by simp
    then show ?thesis using True r p by (subst charge_loop.simps) simp
  next
    case False
    then have "x = Inl ENOMEM" using charge_locked_eq(2) [of "t i" val] r by simp
    then show ?thesis using False r by (subst charge_loop.simps) simp
  qed
qed

lemma charge_loop_list:
  assumes "tree_ok s" "\<And>j. parent (t j) = parent (s j)"
  shows "charge_loop t (Some i) val = Some (charge_list t (path s i) val)"
  using assms
proof (induction i arbitrary: t rule: path_induct)
  case (root i)
  then show ?case by (simp add: charge_loop_step Let_def charge_loop.simps [of _ None])
next
  case (child i p)
  let ?t = "t(i := snd (res_counter_charge_locked (t i) val))"
  have "charge_loop ?t (Some p) val = Some (charge_list ?t (path s p) val)" by (rule child.IH) (simp add: child.prems)
  then show ?case using child.hyps child.prems by (simp add: charge_loop_step Let_def)
qed

lemma undo_loop_list:
  assumes "tree_ok s" "\<And>j. parent (t j) = parent (s j)" "c \<in> set (path s i)"
  shows "undo_loop t (Some i) c val = Some (uncharged t (takeWhile (\<lambda>j. j \<noteq> c) (path s i)) val)"
  using assms
proof (induction i arbitrary: t rule: path_induct)
  case (root i)
  then show ?case by (subst undo_loop.simps) (simp add: uncharged_def)
next
  case (child i p)
  show ?case
  proof (cases "i = c")
    case True
    then show ?thesis using child.hyps by (subst undo_loop.simps) (simp add: uncharged_def)
  next
    case False
    let ?t = "t(i := res_counter_uncharge_locked (t i) val)" and ?js = "takeWhile (\<lambda>j. j \<noteq> c) (path s p)"
    have "undo_loop ?t (Some p) c val = Some (uncharged ?t ?js val)"
      by (rule child.IH) (use child.prems child.hyps False in auto)
    moreover have "i \<notin> set ?js" using child.hyps(4) by (meson set_takeWhileD)
    then have "uncharged ?t ?js val = uncharged t (i # ?js) val" by (auto simp: uncharged_def)
    ultimately show ?thesis using False child.hyps child.prems by (subst undo_loop.simps) simp
  qed
qed

lemma uncharge_loop_list:
  assumes "tree_ok s" "\<And>j. parent (t j) = parent (s j)"
  shows "uncharge_loop t (Some i) val = Some (uncharged t (path s i) val)"
  using assms
proof (induction i arbitrary: t rule: path_induct)
  case (root i)
  then show ?case by (subst uncharge_loop.simps) (simp add: uncharged_def uncharge_loop.simps [of _ None] fun_eq_iff)
next
  case (child i p)
  let ?t = "t(i := res_counter_uncharge_locked (t i) val)"
  have "uncharge_loop ?t (Some p) val = Some (uncharged ?t (path s p) val)" by (rule child.IH) (simp add: child.prems)
  moreover have "uncharged ?t (path s p) val = uncharged t (i # path s p) val" using child.hyps(4) by (auto simp: uncharged_def)
  ultimately show ?case using child.hyps child.prems by (subst uncharge_loop.simps) simp
qed

lemma distinct_path: "tree_ok s \<Longrightarrow> distinct (path s i)"
  by (induction i rule: path_induct) simp_all

lemma charge_list_eq:
  assumes "distinct js"
  shows "charge_list s js val = (case dropWhile (\<lambda>j. fits (s j) val) js of
      [] \<Rightarrow> (charged s js val, None)
    | k # _ \<Rightarrow> (charged s (k # fitting s js val) val, Some k))"
  using assms
proof (induction js arbitrary: s)
  case (Cons i js)
  show ?case
  proof (cases "fits (s i) val")
    case True
    define t where "t = s(i := snd (res_counter_charge_locked (s i) val))"
    have same: "t j = s j" if "j \<in> set js" for j using that Cons.prems by (auto simp: t_def)
    have d: "dropWhile (\<lambda>j. fits (t j) val) js = dropWhile (\<lambda>j. fits (s j) val) js"
      using same by (intro dropWhile_cong) simp_all
    have f: "fitting t js val = fitting s js val" unfolding fitting_def using same by (intro takeWhile_cong) simp_all
    have c: "charged t ks val = charged s (i # ks) val" if "set ks \<subseteq> set js" for ks
      using that Cons.prems by (auto simp: charged_def t_def fun_eq_iff)
    have fs: "set (fitting s js val) \<subseteq> set js" unfolding fitting_def by (meson set_takeWhileD subsetI)
    have step: "charge_list s (i # js) val = charge_list t js val" using True by (simp add: t_def)
    note IH = Cons.IH [of t, unfolded d f]
    show ?thesis
    proof (cases "dropWhile (\<lambda>j. fits (s j) val) js")
      case Nil
      have "charge_list t js val = (charged s (i # js) val, None)" using IH Cons.prems c [of js] by (simp only: Nil list.case distinct.simps)
      moreover have "dropWhile (\<lambda>j. fits (s j) val) (i # js) = []" using True by (simp only: dropWhile.simps if_True Nil)
      ultimately show ?thesis unfolding step by (simp only: list.case)
    next
      case k: (Cons k ks)
      then have "k \<in> set js" by (metis list.set_intros(1) set_dropWhileD)
      then have "charged t (k # fitting s js val) val = charged s (i # k # fitting s js val) val"
        using c [of "k # fitting s js val"] fs by simp
      also have "\<dots> = charged s (k # fitting s (i # js) val) val"
        using True by (auto simp: charged_def fitting_def fun_eq_iff)
      finally show ?thesis using True IH Cons.prems k unfolding step by simp
    qed
  qed (simp add: charged_def fitting_def fun_eq_iff)
qed (simp add: charged_def)

lemma no_wrap:
  fixes val :: ulong
  assumes "unat (usage r) + unat val < 2 ^ 64"
  shows "unat (usage r + ucast val) = unat (usage r) + unat val" "\<not> usage r + ucast val < ucast val"
proof -
  have v: "unat (ucast val :: u64) = unat val"
  proof -
    have "unat val < 2 ^ 32" by (rule unat_ulong_lt)
    then show ?thesis by (simp add: unsigned_ucast_eq take_bit_eq_mod)
  qed
  show *: "unat (usage r + ucast val) = unat (usage r) + unat val"
    using assms v unat_add_lem [of "usage r" "ucast val"] by simp
  show "\<not> usage r + ucast val < ucast val" using * v by (simp add: word_less_nat_alt)
qed

lemma uncharge_fields:
  "limit (res_counter_uncharge_locked r val) = limit r" "failcnt (res_counter_uncharge_locked r val) = failcnt r"
  "max_usage (res_counter_uncharge_locked r val) = max_usage r"
  by (simp_all add: res_counter_uncharge_locked_def Let_def)

lemma uncharge_charge:
  assumes "fits r val" "unat (usage r) + unat val < 2 ^ 64"
  shows "usage (res_counter_uncharge_locked (snd (res_counter_charge_locked r val)) val) = usage r"
  using no_wrap(2) [OF assms(2)] charged_fields(1) [OF assms(1)] by (simp add: res_counter_uncharge_locked_def Let_def)

section \<open>Properties\<close>

text \<open>C6: Charging a hierarchy of any depth ends and is all or nothing: when the amount fits under every limit on
  the way to the root, each of these counters is charged once and stays under its limit; otherwise the first
  counter whose limit is too small is reported with \<^verbatim>\<open>-ENOMEM\<close>, its failure count alone goes up by one, and the usage of every
  counter is what it was before the call.\<close>

theorem res_counter_charge_atomic:
  assumes tree: "tree_ok s" and nw: "\<forall>j\<in>set (path s i). unat (usage (s j)) + unat val < 2 ^ 64"
  shows "\<exists>r at s'. res_counter_charge s i val = Some (r, at, s') \<and> (\<forall>j. limit (s' j) = limit (s j) \<and> parent (s' j) = parent (s j))
    \<and> (if \<forall>j\<in>set (path s i). unat (usage (s j)) + unat val \<le> unat (limit (s j))
       then r = Inr () \<and> at = None \<and> (\<forall>j. unat (usage (s' j)) = unat (usage (s j)) + (if j \<in> set (path s i) then unat val else 0))
         \<and> (\<forall>j\<in>set (path s i). usage (s' j) \<le> limit (s' j))
       else r = Inl ENOMEM \<and> (\<forall>j. usage (s' j) = usage (s j)) \<and> (\<exists>k before after. at = Some k \<and> path s i = before @ k # after
         \<and> unat (limit (s k)) < unat (usage (s k)) + unat val
         \<and> (\<forall>j\<in>set before. unat (usage (s j)) + unat val \<le> unat (limit (s j)))
         \<and> (\<forall>j. failcnt (s' j) = failcnt (s j) + (if j = k then 1 else 0))))"
proof -
  have fit: "fits (s j) val \<longleftrightarrow> unat (usage (s j)) + unat val \<le> unat (limit (s j))" if "j \<in> set (path s i)" for j
    using no_wrap(1) [of "s j" val] nw that by (simp add: fits_def word_le_nat_alt)
  have dist: "distinct (path s i)" by (rule distinct_path [OF tree])
  have loop: "charge_loop s (Some i) val = Some (charge_list s (path s i) val)" by (rule charge_loop_list [OF tree]) simp
  show ?thesis
  proof (cases "\<forall>j\<in>set (path s i). fits (s j) val")
    case True
    then have "dropWhile (\<lambda>j. fits (s j) val) (path s i) = []" by (simp add: dropWhile_eq_Nil_conv)
    then have "charge_list s (path s i) val = (charged s (path s i) val, None)"
      using charge_list_eq [OF dist, of s val] by (simp only: list.case)
    then have "res_counter_charge s i val = Some (Inr (), None, charged s (path s i) val)"
      using loop by (simp add: res_counter_charge_def)
    moreover have u: "usage (charged s (path s i) val j) = (if j \<in> set (path s i) then usage (s j) + ucast val else usage (s j))"
      "limit (charged s (path s i) val j) = limit (s j)" for j
      using True charged_fields [of "s j" val] by (auto simp: charged_def)
    have "unat (usage (charged s (path s i) val j)) = unat (usage (s j)) + (if j \<in> set (path s i) then unat val else 0)" for j
      unfolding u(1) using no_wrap(1) [of "s j" val] nw by simp
    moreover have "\<forall>j\<in>set (path s i). usage (charged s (path s i) val j) \<le> limit (charged s (path s i) val j)"
      using True u by (simp add: fits_def)
    ultimately show ?thesis using True fit u(2) by auto
  next
    case False
    then obtain k after where k: "dropWhile (\<lambda>j. fits (s j) val) (path s i) = k # after"
      by (metis dropWhile_eq_Nil_conv list.exhaust)
    define pre where "pre = fitting s (path s i) val"
    have split: "path s i = pre @ k # after" unfolding pre_def fitting_def using k by (metis takeWhile_dropWhile_id)
    have nk: "\<not> fits (s k) val" using hd_dropWhile [of "\<lambda>j. fits (s j) val" "path s i"] k by simp
    have pf: "\<forall>j\<in>set pre. fits (s j) val" unfolding pre_def fitting_def by (auto dest: set_takeWhileD)
    define t where "t = charged s (k # pre) val"
    have kp: "k \<notin> set pre" using dist split by simp
    have tw: "takeWhile (\<lambda>j. j \<noteq> k) (path s i) = pre" unfolding split using kp by (subst takeWhile_append2) auto
    have undo: "undo_loop t (Some i) k val = Some (uncharged t pre val)"
      using undo_loop_list [OF tree, of t k i val] split tw by (simp add: t_def)
    then have res: "res_counter_charge s i val = Some (Inl ENOMEM, Some k, uncharged t pre val)"
      using loop charge_list_eq [OF dist, of s val] k by (simp add: res_counter_charge_def t_def pre_def)
    have us: "usage (uncharged t pre val j) = usage (s j)" "limit (uncharged t pre val j) = limit (s j)"
      "parent (uncharged t pre val j) = parent (s j)" "failcnt (uncharged t pre val j) = failcnt (s j) + (if j = k then 1 else 0)" for j
    proof -
      consider "j \<in> set pre" | "j = k" "j \<notin> set pre" | "j \<noteq> k" "j \<notin> set pre" by blast
      then have "usage (uncharged t pre val j) = usage (s j) \<and> limit (uncharged t pre val j) = limit (s j)
        \<and> parent (uncharged t pre val j) = parent (s j) \<and> failcnt (uncharged t pre val j) = failcnt (s j) + (if j = k then 1 else 0)"
      proof cases
        case 1
        then have "fits (s j) val" "unat (usage (s j)) + unat val < 2 ^ 64" "j \<noteq> k" using pf nw split kp by auto
        then show ?thesis using 1 uncharge_charge [of "s j" val] charged_fields [of "s j" val]
          by (simp add: uncharged_def t_def charged_def uncharge_fields)
      next
        case 2
        then show ?thesis using charge_locked_eq(2) [OF nk] by (simp add: uncharged_def t_def charged_def)
      next
        case 3
        then show ?thesis by (simp add: uncharged_def t_def charged_def)
      qed
      then show "usage (uncharged t pre val j) = usage (s j)" "limit (uncharged t pre val j) = limit (s j)"
        "parent (uncharged t pre val j) = parent (s j)" "failcnt (uncharged t pre val j) = failcnt (s j) + (if j = k then 1 else 0)"
        by simp_all
    qed
    have nf: "\<not> (\<forall>j\<in>set (path s i). unat (usage (s j)) + unat val \<le> unat (limit (s j)))" using False fit by blast
    have nk': "unat (limit (s k)) < unat (usage (s k)) + unat val" using nk fit [of k] split by simp
    have pf': "\<forall>j\<in>set pre. unat (usage (s j)) + unat val \<le> unat (limit (s j))" using pf fit split by auto
    have "\<exists>k' before after'. Some k = Some k' \<and> path s i = before @ k' # after'
         \<and> unat (limit (s k')) < unat (usage (s k')) + unat val
         \<and> (\<forall>j\<in>set before. unat (usage (s j)) + unat val \<le> unat (limit (s j)))
         \<and> (\<forall>j. failcnt (uncharged t pre val j) = failcnt (s j) + (if j = k' then 1 else 0))"
      by (intro exI [of _ k] exI [of _ pre] exI [of _ after] conjI refl split nk' pf') (simp add: us)
    then show ?thesis unfolding res using nf us by simp
  qed
qed

text \<open>Two counters, the second below the first, whose limit is 5.\<close>

definition example_counters :: counters where
  "example_counters = (\<lambda>i. \<lparr>usage = 3, max_usage = 3, limit = if i = 0 then 5 else 100, soft_limit = 100, failcnt = 0,
     parent = if i = 1 then Some 0 else None\<rparr>)"

lemma example_path: "tree_ok example_counters" "path example_counters 1 = [1, 0]"
proof -
  show t: "tree_ok example_counters" by (simp add: tree_ok_def example_counters_def)
  show "path example_counters 1 = [1, 0]"
    using path_Some [OF t, of 1 0] path_None [of example_counters 0] by (simp add: example_counters_def)
qed

theorem res_counter_charge_atomic_witness:
  "\<exists>r at s'. res_counter_charge example_counters 1 4 = Some (r, at, s') \<and> r = Inl ENOMEM \<and> usage (s' 1) = 3"
  using res_counter_charge_atomic [OF example_path(1), of 1 4] example_path(2) by (auto simp: example_counters_def)

text \<open>A counter whose usage is under its limit and under the recorded maximum.\<close>

definition rc_ok :: "res_counter \<Rightarrow> bool" where
  "rc_ok r \<longleftrightarrow> usage r \<le> limit r \<and> usage r \<le> max_usage r"

definition counters_ok :: "counters \<Rightarrow> bool" where
  "counters_ok s \<longleftrightarrow> tree_ok s \<and> (\<forall>j. rc_ok (s j))"

lemma rc_ok_charge: "rc_ok r \<Longrightarrow> rc_ok (snd (res_counter_charge_locked r val))"
  by (auto simp: rc_ok_def res_counter_charge_locked_def Let_def not_less)

lemma rc_ok_uncharge: "rc_ok r \<Longrightarrow> rc_ok (res_counter_uncharge_locked r val)"
proof -
  assume ok: "rc_ok r"
  have "usage (res_counter_uncharge_locked r val) \<le> usage r"
  proof (cases "usage r < ucast val")
    case True
    have "unat (ucast val :: u64) = unat val" using unat_ulong_lt [of val] by (simp add: unsigned_ucast_eq take_bit_eq_mod)
    then have "unat (usage r) < 2 ^ 32" using True unat_ulong_lt [of val] by (simp add: word_less_nat_alt)
    then have "(ucast (ucast (usage r) :: ulong) :: u64) = usage r"
      by (intro word_unat_eq_iff [THEN iffD2]) (simp add: unsigned_ucast_eq take_bit_eq_mod unat_mod)
    then show ?thesis using True by (simp add: res_counter_uncharge_locked_def Let_def)
  next
    case False
    then show ?thesis by (simp add: res_counter_uncharge_locked_def Let_def word_sub_le not_less)
  qed
  then show ?thesis using ok by (auto simp: rc_ok_def uncharge_fields)
qed

lemma counters_ok_charged: "counters_ok s \<Longrightarrow> counters_ok (charged s js val)"
  by (auto simp: counters_ok_def charged_def rc_ok_charge tree_ok_def)

lemma counters_ok_uncharged: "counters_ok s \<Longrightarrow> counters_ok (uncharged s js val)"
  by (auto simp: counters_ok_def uncharged_def rc_ok_uncharge tree_ok_def)

lemma counters_ok_charge_list: "counters_ok s \<Longrightarrow> distinct js \<Longrightarrow> counters_ok (fst (charge_list s js val))"
  by (simp add: charge_list_eq counters_ok_charged split: list.splits)

lemma charge_list_at: "charge_list s js val = (t, Some k) \<Longrightarrow> k \<in> set js \<and> (\<forall>j. parent (t j) = parent (s j))"
  by (induction s js val rule: charge_list.induct) (auto split: if_splits)

lemma counters_ok_charge:
  assumes "counters_ok s" "res_counter_charge s i val = Some (r, at, s')"
  shows "counters_ok s'"
proof -
  have tree: "tree_ok s" using assms(1) by (simp add: counters_ok_def)
  have loop: "charge_loop s (Some i) val = Some (charge_list s (path s i) val)" by (rule charge_loop_list [OF tree]) simp
  obtain t k where t: "charge_list s (path s i) val = (t, k)" by (cases "charge_list s (path s i) val")
  have ok: "counters_ok t" using counters_ok_charge_list [OF assms(1) distinct_path [OF tree], of i val] t by simp
  show ?thesis
  proof (cases k)
    case None
    then show ?thesis using assms(2) loop t ok by (simp add: res_counter_charge_def)
  next
    case (Some c)
    then have "c \<in> set (path s i)" "\<And>j. parent (t j) = parent (s j)" using charge_list_at t by blast+
    then have "undo_loop t (Some i) c val = Some (uncharged t (takeWhile (\<lambda>j. j \<noteq> c) (path s i)) val)"
      using undo_loop_list [OF tree] by blast
    then show ?thesis using assms(2) loop t Some counters_ok_uncharged [OF ok] by (auto simp: res_counter_charge_def)
  qed
qed



end
