(* ===== verification/Spec2Isabelle.thy ===== *)
theory Spec2Isabelle
  imports Bitmap_Map Bitmap_Region Bitmap_Hex Ashmem_Ops Kfifo_Records Kfifo_Conc Logger_Ops Semaphore Rwsem Res_Counter
begin

text \<open>
  A verification library for the Dell Streak 5 Android kernel, a Linux 2.6.35.7 tree for 32-bit ARM in the
  configuration \<^verbatim>\<open>arch/arm/configs/austin-perf_defconfig\<close>. It covers the parts of the kernel that are self-contained
  algorithms on memory: the bit and bitmap library, the string, number and format library, the ring buffers, the
  sleeping locks, resource counters, and the two Android drivers ashmem and logger.

  \<^bold>\<open>Conventions.\<close> C integers are machine words of their width (\<open>u8\<close>, \<open>u32\<close>, \<open>ulong\<close>, \<open>u64\<close>) wherever wrapping can matter;
  counts that the code bounds are natural numbers. A structure is a record, an enumeration a datatype, and a function on
  memory takes the memory and returns it updated. Error returns are \<open>Inl\<close> of an \<open>errno\<close> (\<open>'a kresult\<close>). \<open>None\<close> is an
  access outside an object, an oops, or a loop that does not return, so that a theorem with a result \<open>Some\<close> also says that
  none of these happens. A region under a lock is one operation; concurrency is an inductive step relation over these
  operations. What the code takes from outside (allocations, faults of user copies, signals, the methods of the
  file behind an ashmem area, the kernel symbol table) is a parameter or an input of the step.

  \<^bold>\<open>Shared theories.\<close> \<open>Kernel_Prelude\<close> has the types, error codes and generic lemmas, and the locale \<open>invariant_system\<close>: for
  a step relation with initial states, an invariant that holds initially and that every step keeps holds in every reachable
  state. It is interpreted by the ashmem driver (\<open>ash\<close>), the lock-free FIFO (\<open>spsc\<close>), the log (\<open>lg\<close>), the semaphore (\<open>sema\<close>) and the
  read/write semaphore (\<open>rw\<close>). \<open>Byte_Buffer\<close> has copies between byte buffers and from and to user space.

  \<^bold>\<open>Bits and bitmaps.\<close> \<open>Hweight\<close> (\<^verbatim>\<open>lib/hweight.c\<close>) counts bits. \<open>Bitops\<close> has the scans of a word, the single-bit operations
  (\<^verbatim>\<open>include/asm-generic/bitops\<close>) and the searches of \<^verbatim>\<open>lib/find_next_bit.c\<close> and \<^verbatim>\<open>lib/find_last_bit.c\<close>; the locale \<open>word_source\<close> is
  the word-wise search over a source of words, interpreted for set and for clear bits, and \<open>bit_search\<close> the contract
  of a search for the next hit that its clients use. \<open>Bitmap\<close>, \<open>Bitmap_Inline\<close>, \<open>Bitmap_Region\<close> and \<open>Bitmap_Map\<close> are
  \<^verbatim>\<open>lib/bitmap.c\<close> and \<^verbatim>\<open>include/linux/bitmap.h\<close>: every operation is refined to one on the set of valid bits, region and area
  allocation find the first free place, and the maps between bitmaps implement the map of ordinals. \<open>Bitmap_Text\<close> and
  \<open>Bitmap_Hex\<close> are the printing and parsing functions on top of \<^verbatim>\<open>scnprintf\<close> and \<^verbatim>\<open>simple_strtoul\<close>, with round trips for the
  list and for the hexadecimal format.

  \<^bold>\<open>Strings, numbers and formats.\<close> \<open>Ctype\<close> and \<open>Cstring\<close> are \<^verbatim>\<open>lib/ctype.c\<close> and \<^verbatim>\<open>lib/string.c\<close>. \<open>Strtox\<close>, \<open>Vsprintf_Number\<close>,
  \<open>Vsprintf_Pointer\<close> and \<open>Vsnprintf\<close> are \<^verbatim>\<open>lib/vsprintf.c\<close> in its order: parsing of numbers, printing of numbers, strings and
  the extended pointer formats, and the interpretation of format strings. Output is a position and a buffer with an
  end; each printing routine is shown equal to emitting a text that does not depend on the buffer, so that \<open>vsnprintf\<close> is
  the truncation of the reference text of its format, and numbers are read back as printed. \<open>Cmdline\<close> is
  \<^verbatim>\<open>lib/cmdline.c\<close>; its locale \<open>numeral_format\<close> states what its parsers need of a printed number, and is interpreted for
  decimal, octal and hexadecimal text.

  \<^bold>\<open>Ring buffers.\<close> \<open>Kfifo\<close>, \<open>Kfifo_Queue\<close> and \<open>Kfifo_Records\<close> are \<^verbatim>\<open>kernel/kfifo.c\<close> and \<^verbatim>\<open>include/linux/kfifo.h\<close>: the locale
  \<open>bounded_queue\<close> is the contract of a bounded queue, interpreted by \<open>kfifo_in\<close> and \<open>kfifo_out\<close> (\<open>kq\<close>) with indices that wrap at
  32 bits; records and user copies follow on every branch. \<open>Kfifo_Conc\<close> interleaves one reader and one writer byte by
  byte without a lock. \<open>Logger\<close>, \<open>Logger_Inv\<close> and \<open>Logger_Ops\<close> are \<^verbatim>\<open>drivers/staging/android/logger.c\<close>: every reader stays
  at an entry boundary, reads whole entries in order, and a write returns.

  \<^bold>\<open>Locks and counters.\<close> \<open>Semaphore\<close> (\<^verbatim>\<open>kernel/semaphore.c\<close>) and \<open>Rwsem\<close> (\<^verbatim>\<open>lib/rwsem-spinlock.c\<close>) interleave any finite set of tasks:
  conservation of tokens, exclusion, refinement of an abstract read/write lock, and hand-over to the longest waiter.
  \<open>Res_Counter\<close> is \<^verbatim>\<open>kernel/res_counter.c\<close>: charging a hierarchy is all or nothing.

  \<^bold>\<open>Ashmem.\<close> \<open>Ashmem\<close>, \<open>Ashmem_Inv\<close>, \<open>Ashmem_Pin\<close> and \<open>Ashmem_Ops\<close> are \<^verbatim>\<open>mm/ashmem.c\<close>: pinning and unpinning as operations on
  the set of unpinned pages, the LRU list and its count in every reachable state, protection masks, and purging.

  \<^bold>\<open>Loops and bounds.\<close> No fuel is used. Loops over data recurse on it; other loops have a termination proof by a
  measure (the bits left, the characters left, a field width that counts down). A loop that need not end is a
  \<^theory_text>\<open>partial_function\<close> (\<open>bitmap_find_next_zero_area\<close>, the walk along log entries, the walks along parent pointers, the walk of
  \<open>bitmap_pos_to_ord\<close>), and that it returns is part of the theorems about it. The field width and precision of a
  format are 16-bit words; the reference texts are defined where the width arithmetic does not wrap. Buffer sizes are
  below \<open>2 ^ 31\<close>, as \<^verbatim>\<open>vsnprintf\<close> demands, and buffers do not wrap around the address space.

  \<^bold>\<open>Not modelled.\<close> Memory barriers are the order of the steps. Where ARM has assembly for a C routine (bit searches, some
  string functions) the C version is modelled. Spinlocks, lockdep, wait queues and device
  registration have no counterpart beyond the atomicity of operations. Of \<^verbatim>\<open>lib/vsprintf.c\<close>, \<^verbatim>\<open>vsscanf\<close> is left out, and the binary
  printf functions are not configured. Of \<^verbatim>\<open>mm/ashmem.c\<close>, the look-ups for other drivers and the outer-cache walk, which is not
  configured, are left out. The text of a symbol comes from \<^verbatim>\<open>kernel/kallsyms.c\<close>, whose tables the build generates. The
  scheduler, memory management, file systems, networking, the other drivers, sound, cryptography and the
  architecture code are not modelled: they rest on hardware, page tables, interrupts and pointer structures spread over the
  whole kernel, and the components here only see them through the parameters above.
\<close>

end
